(* ===== verification/Prelude.thy ===== *)
theory Prelude
  imports Main "HOL-Library.Monad_Syntax"
begin

text \<open>
  Shared material of the development.
  \<^item> Go's slices: indexing, element assignment and the slice expressions \<open>s[i:]\<close> and
    \<open>s[:i]\<close>. An index out of range panics; a panic is the value \<^const>\<open>None\<close>.
  \<^item> Transition systems: reachable states, invariants, and executable runs of a
    step function that takes the next event. The locale \<open>invariant_system\<close> is the
    interface between a component's step relation and its invariant.
  \<^item> Majorities, as the interface \<open>quorum_system\<close>.
\<close>

named_theorems go_slice \<open>evaluation of slice operations\<close>

section \<open>Slices\<close>

type_synonym 'a result = "'a option"

definition go_len :: "'a list \<Rightarrow> int" where
  "go_len xs = int (length xs)"

definition in_range :: "'a list \<Rightarrow> int \<Rightarrow> bool" where
  "in_range xs i \<longleftrightarrow> 0 \<le> i \<and> i < go_len xs"

definition go_index :: "'a list \<Rightarrow> int \<Rightarrow> 'a result" where
  "go_index xs i = (if in_range xs i then Some (xs ! nat i) else None)"

definition go_update :: "'a list \<Rightarrow> int \<Rightarrow> 'a \<Rightarrow> 'a list result" where
  "go_update xs i v = (if in_range xs i then Some (xs[nat i := v]) else None)"

definition go_from :: "'a list \<Rightarrow> int \<Rightarrow> 'a list result" where
  "go_from xs i = (if 0 \<le> i \<and> i \<le> go_len xs then Some (drop (nat i) xs) else None)"

definition go_upto :: "'a list \<Rightarrow> int \<Rightarrow> 'a list result" where
  "go_upto xs i = (if 0 \<le> i \<and> i \<le> go_len xs then Some (take (nat i) xs) else None)"

text \<open>The indices \<open>0, \<dots>, n - 1\<close> of a Go counting loop.\<close>

definition go_range :: "int \<Rightarrow> int list" where
  "go_range n = map int [0..<nat n]"

lemma go_len_nonneg [simp]: "0 \<le> go_len xs"
  by (simp add: go_len_def)

lemma go_len_simps [simp]:
  "go_len [] = 0"
  "go_len (x # xs) = go_len xs + 1"
  "go_len (xs @ ys) = go_len xs + go_len ys"
  "go_len (map f xs) = go_len xs"
  "go_len (xs[k := v]) = go_len xs"
  "go_len (replicate k v) = int k"
  by (simp_all add: go_len_def)

lemma go_len_pos: "0 < go_len xs \<longleftrightarrow> xs \<noteq> []"
  by (simp add: go_len_def)

lemma nat_go_len [simp]: "nat (go_len xs) = length xs"
  by (simp add: go_len_def)

lemma nat_go_len_minus [simp]:
  "nat (go_len xs - 1) = length xs - 1"
  by (simp add: go_len_def)

lemma in_range_nat: "in_range xs i \<longleftrightarrow> 0 \<le> i \<and> nat i < length xs"
  by (auto simp: in_range_def go_len_def)

lemma in_range_last: "xs \<noteq> [] \<Longrightarrow> in_range xs (go_len xs - 1)"
  using go_len_pos [of xs] by (simp add: in_range_def)

lemma go_index_Some: "go_index xs i = Some x \<longleftrightarrow> in_range xs i \<and> xs ! nat i = x"
  by (auto simp: go_index_def)

lemma go_index_in [go_slice]: "in_range xs i \<Longrightarrow> go_index xs i = Some (xs ! nat i)"
  by (simp add: go_index_def)

lemma go_update_in [go_slice]: "in_range xs i \<Longrightarrow> go_update xs i v = Some (xs[nat i := v])"
  by (simp add: go_update_def)

lemma go_update_Some:
  "go_update xs i v = Some ys \<longleftrightarrow> in_range xs i \<and> ys = xs[nat i := v]"
  by (auto simp: go_update_def)

lemma go_update_length: "go_update xs i v = Some ys \<Longrightarrow> length ys = length xs"
  by (auto simp: go_update_Some)

lemma go_from_Some:
  "go_from xs i = Some ys \<longleftrightarrow> 0 \<le> i \<and> i \<le> go_len xs \<and> ys = drop (nat i) xs"
  by (auto simp: go_from_def)

lemma go_upto_Some:
  "go_upto xs i = Some ys \<longleftrightarrow> 0 \<le> i \<and> i \<le> go_len xs \<and> ys = take (nat i) xs"
  by (auto simp: go_upto_def)

lemma go_from_in [go_slice]: "0 \<le> i \<Longrightarrow> i \<le> go_len xs \<Longrightarrow> go_from xs i = Some (drop (nat i) xs)"
  by (simp add: go_from_def)

lemma go_upto_in [go_slice]: "0 \<le> i \<Longrightarrow> i \<le> go_len xs \<Longrightarrow> go_upto xs i = Some (take (nat i) xs)"
  by (simp add: go_upto_def)

lemmas go_slice_iff = go_index_Some go_update_Some go_from_Some go_upto_Some

lemma set_go_range [simp]: "set (go_range n) = {0..<n}"
proof -
  have "x \<in> int ` {0..<nat n}" if "0 \<le> x" "x < n" for x
    using that by (intro image_eqI [of _ _ "nat x"]) auto
  then show ?thesis by (auto simp: go_range_def)
qed

lemma distinct_go_range [simp]: "distinct (go_range n)"
  by (simp add: go_range_def distinct_map)

lemma length_go_range [simp]: "length (go_range n) = nat n"
  by (simp add: go_range_def)

lemma bex_range: "(\<exists>j \<in> {0..<n}. Q j) \<longleftrightarrow> (\<exists>j < nat n. Q (int j))"
proof
  assume "\<exists>j \<in> {0..<n}. Q j"
  then obtain j where "0 \<le> j" "j < n" "Q j" by auto
  then show "\<exists>j < nat n. Q (int j)" by (intro exI [of _ "nat j"]) simp
next
  assume "\<exists>j < nat n. Q (int j)"
  then obtain j where "j < nat n" "Q (int j)" by blast
  then show "\<exists>j \<in> {0..<n}. Q j" by (intro bexI [of _ "int j"]) auto
qed

text \<open>Lists of pairwise distinct integers below a bound.\<close>

lemma card_ints_below: "S \<subseteq> {0..<n} \<Longrightarrow> int (card S) \<le> max 0 n"
proof -
  assume "S \<subseteq> {0..<n}"
  then have "card S \<le> card {0..<n}" by (intro card_mono) auto
  then show ?thesis by simp
qed

lemma nth_take_drop_eq:
  "take i xs = take i ys \<Longrightarrow> k < i \<Longrightarrow> xs ! k = ys ! k"
  by (metis nth_take)

lemma distinct_map_filter_nth:
  assumes "\<And>i j. i < length xs \<Longrightarrow> j < length xs \<Longrightarrow> P (xs ! i) \<Longrightarrow> P (xs ! j) \<Longrightarrow>
      f (xs ! i) = f (xs ! j) \<Longrightarrow> i = j"
  shows "distinct (map f (filter P xs))"
  using assms
proof (induction xs)
  case (Cons x xs)
  have "f x \<noteq> f (xs ! j)" if "P x" "j < length xs" "P (xs ! j)" for j
    using that Cons.prems [of 0 "Suc j"] by auto
  moreover have "distinct (map f (filter P xs))"
    using Cons.prems [of "Suc _" "Suc _"] by (intro Cons.IH) auto
  ultimately show ?case by (auto simp: in_set_conv_nth [of _ xs])
qed simp

section \<open>Transition systems\<close>

inductive reachable :: "('s \<Rightarrow> bool) \<Rightarrow> ('s \<Rightarrow> 's \<Rightarrow> bool) \<Rightarrow> 's \<Rightarrow> bool"
  for init :: "'s \<Rightarrow> bool" and step :: "'s \<Rightarrow> 's \<Rightarrow> bool" where
  reach_init: "init s \<Longrightarrow> reachable init step s"
| reach_step: "reachable init step s \<Longrightarrow> step s t \<Longrightarrow> reachable init step t"

lemma reachable_mono:
  assumes "reachable init step s" and "\<And>s t. step s t \<Longrightarrow> step' s t"
  shows "reachable init step' s"
  using assms by (induction rule: reachable.induct) (auto intro: reachable.intros)

text \<open>A run of a step function over a list of events; it ends when an event is not enabled.\<close>

fun exec :: "('e \<Rightarrow> 's \<Rightarrow> 's option) \<Rightarrow> 'e list \<Rightarrow> 's \<Rightarrow> 's option" where
  "exec f [] s = Some s"
| "exec f (e # es) s = (case f e s of None \<Rightarrow> None | Some t \<Rightarrow> exec f es t)"

lemma exec_append:
  "exec f (es @ fs) s = (case exec f es s of None \<Rightarrow> None | Some t \<Rightarrow> exec f fs t)"
  by (induction es arbitrary: s) (auto split: option.splits)

lemma exec_reachable:
  assumes "exec f es s = Some t" and "reachable init step s"
    and "\<And>e u v. f e u = Some v \<Longrightarrow> step u v"
  shows "reachable init step t"
  using assms(1,2)
proof (induction es arbitrary: s)
  case Nil
  then show ?case by simp
next
  case (Cons e es)
  then show ?case
    by (auto split: option.splits dest!: assms(3) intro: reach_step)
qed

lemma exec_steps:
  assumes "exec f es s = Some t" and "\<And>e u v. f e u = Some v \<Longrightarrow> step u v"
  shows "step\<^sup>*\<^sup>* s t"
  using assms(1)
  by (induction es arbitrary: s) (auto split: option.splits dest!: assms(2) intro: converse_rtranclp_into_rtranclp)

locale invariant_system =
  fixes init :: "'s \<Rightarrow> bool" and step :: "'s \<Rightarrow> 's \<Rightarrow> bool" and inv :: "'s \<Rightarrow> bool"
  assumes init_inv: "init s \<Longrightarrow> inv s"
    and step_inv: "step s t \<Longrightarrow> inv s \<Longrightarrow> inv t"
begin

lemma reachable_inv: "reachable init step s \<Longrightarrow> inv s"
  by (induction rule: reachable.induct) (auto intro: init_inv step_inv)

lemma steps_inv: "step\<^sup>*\<^sup>* s t \<Longrightarrow> inv s \<Longrightarrow> inv t"
  by (induction rule: rtranclp_induct) (auto intro: step_inv)

end

section \<open>Majorities\<close>

locale quorum_system =
  fixes is_quorum :: "'a set \<Rightarrow> bool"
  assumes quorum_meet: "is_quorum A \<Longrightarrow> is_quorum B \<Longrightarrow> A \<inter> B \<noteq> {}"
    and quorum_up: "is_quorum A \<Longrightarrow> A \<subseteq> C \<Longrightarrow> is_quorum C"
begin

text \<open>
  Two candidates, each with a quorum of voters, are the same when no voter votes for
  two candidates.
\<close>

lemma unique_choice:
  assumes "is_quorum {v. R v a}" and "is_quorum {v. R v b}"
    and "\<And>v x y. R v x \<Longrightarrow> R v y \<Longrightarrow> x = y"
  shows "a = b"
proof -
  from quorum_meet [OF assms(1,2)] obtain v where "R v a" "R v b" by blast
  then show ?thesis by (rule assms(3))
qed

end

text \<open>
  The majorities of \<open>n\<close> servers numbered from 0, as Go's \<open>count > len(peers)/2\<close>
  tests them.
\<close>

definition majority :: "int \<Rightarrow> int set \<Rightarrow> bool" where
  "majority n A \<longleftrightarrow> 0 \<le> n \<and> n div 2 < int (card (A \<inter> {0..<n}))"

lemma majorities_meet:
  assumes "majority n A" and "majority n B"
  shows "A \<inter> B \<noteq> {}"
proof
  let ?A = "A \<inter> {0..<n}" and ?B = "B \<inter> {0..<n}"
  assume "A \<inter> B = {}"
  then have "?A \<inter> ?B = {}" by blast
  then have "card (?A \<union> ?B) = card ?A + card ?B" by (intro card_Un_disjoint) auto
  moreover have "int (card (?A \<union> ?B)) \<le> max 0 n" by (rule card_ints_below) auto
  ultimately show False using assms by (auto simp: majority_def)
qed

interpretation maj: quorum_system "majority n" for n
proof unfold_locales
  show "A \<inter> B \<noteq> {}" if "majority n A" "majority n B" for A B
    using that by (rule majorities_meet)
  show "majority n C" if "majority n A" "A \<subseteq> C" for A C
  proof -
    have "card (A \<inter> {0..<n}) \<le> card (C \<inter> {0..<n})"
      using that(2) by (intro card_mono) auto
    then show ?thesis using that(1) by (simp add: majority_def)
  qed
qed

end
