(* ===== verification/Persister.thy ===== *)
theory Persister
  imports Prelude
begin

text \<open>
  The crash-surviving store of a Raft server (\<^verbatim>\<open>src/raft/persister.go\<close>): two byte
  strings, one for the Raft state and one for a snapshot. The element type of the byte
  strings is a parameter; Go's nil and empty byte slices are both the empty list. The
  mutex makes every method atomic.
\<close>

record 'b Persister =
  raftstate :: "'b list"
  snapshot :: "'b list"

definition MakePersister :: "'b Persister" where
  "MakePersister = \<lparr>raftstate = [], snapshot = []\<rparr>"

definition Copy :: "'b Persister \<Rightarrow> 'b Persister" where
  "Copy ps = MakePersister\<lparr>raftstate := raftstate ps, snapshot := snapshot ps\<rparr>"

definition SaveRaftState :: "'b list \<Rightarrow> 'b Persister \<Rightarrow> 'b Persister" where
  "SaveRaftState data ps = ps\<lparr>raftstate := data\<rparr>"

definition ReadRaftState :: "'b Persister \<Rightarrow> 'b list" where
  "ReadRaftState ps = raftstate ps"

definition RaftStateSize :: "'b Persister \<Rightarrow> int" where
  "RaftStateSize ps = go_len (raftstate ps)"

definition SaveSnapshot :: "'b list \<Rightarrow> 'b Persister \<Rightarrow> 'b Persister" where
  "SaveSnapshot data ps = ps\<lparr>snapshot := data\<rparr>"

definition ReadSnapshot :: "'b Persister \<Rightarrow> 'b list" where
  "ReadSnapshot ps = snapshot ps"

lemmas persister_defs = MakePersister_def Copy_def SaveRaftState_def ReadRaftState_def
  RaftStateSize_def SaveSnapshot_def ReadSnapshot_def

text \<open>
  What a client of a crash-surviving store relies on: a read returns the last value
  saved, also through a copy, and saving into one slot leaves the other alone.
\<close>

locale crash_store =
  fixes make :: "'p" and copy :: "'p \<Rightarrow> 'p"
    and save :: "'d list \<Rightarrow> 'p \<Rightarrow> 'p" and load :: "'p \<Rightarrow> 'd list"
  assumes load_make: "load make = []"
    and load_save: "load (save d p) = d"
    and load_copy: "load (copy p) = load p"
begin

lemma load_copy_save: "load (copy (save d p)) = d"
  by (simp add: load_copy load_save)

lemma load_last_save: "ds \<noteq> [] \<Longrightarrow> load (copy (fold save ds p)) = last ds"
  by (induction ds arbitrary: p rule: rev_induct) (auto simp: load_copy load_save)

end

interpretation raft_slot: crash_store MakePersister Copy SaveRaftState ReadRaftState
  by unfold_locales (simp_all add: persister_defs)

interpretation snap_slot: crash_store MakePersister Copy SaveSnapshot ReadSnapshot
  by unfold_locales (simp_all add: persister_defs)

lemma slots_independent:
  "ReadSnapshot (SaveRaftState d ps) = ReadSnapshot ps"
  "ReadRaftState (SaveSnapshot d ps) = ReadRaftState ps"
  by (simp_all add: persister_defs)

end
