(* ===== verification/Raft_State.thy ===== *)
theory Raft_State
  imports Persister
begin

text \<open>
  The state of one Raft server (\<^verbatim>\<open>type Raft\<close> of \<^verbatim>\<open>src/raft/raft.go\<close>) and the
  methods that run with its mutex held: timers, stepping down, winning an election, the
  log accessors, persisting and restoring. Every method runs under \<^verbatim>\<open>rf.mu\<close>, so it is a
  function from the state to the state. Wall-clock readings and random draws are the
  argument \<open>env\<close>. A Go panic is \<^const>\<open>None\<close>. Terms and indices are unbounded
  integers: a run that reaches \<open>2^63\<close> terms or entries is out of scope.
\<close>

named_theorems raft_defs \<open>definitions of the Raft operations\<close>

section \<open>Data\<close>

text \<open>
  A command is a Go interface value: \<^const>\<open>None\<close> is the nil interface of the dummy
  entry at index 0. The fields for snapshots are never set by this code.
\<close>

record 'c ApplyMsg =
  am_Index :: int
  am_Command :: "'c option"
  am_UseSnapshot :: bool
  am_Snapshot :: "nat list"

record 'c LogEntry =
  le_Term :: int
  le_Command :: "'c option"

datatype role = leader | candidate | follower

text \<open>
  The gob stream written by \<^verbatim>\<open>persist\<close>: a sequence of encoded values, read back one at a
  time by a decoder that knows the type it expects.
\<close>

datatype 'c gob = GInt int | GLog "'c LogEntry list"

fun gob_decode_int :: "'c gob list \<Rightarrow> (int \<times> 'c gob list) result" where
  "gob_decode_int (GInt i # rest) = Some (i, rest)"
| "gob_decode_int _ = None"

fun gob_decode_log :: "'c gob list \<Rightarrow> ('c LogEntry list \<times> 'c gob list) result" where
  "gob_decode_log (GLog l # rest) = Some (l, rest)"
| "gob_decode_log _ = None"

text \<open>
  Durations and instants are in nanoseconds. Of the peers only their number matters to a
  server's own state; \<open>peers[i]\<close> is the connection to server \<open>i\<close>. The apply channel is
  the list of messages sent on it so far.
\<close>

record 'c Raft =
  npeers :: int
  persister :: "'c gob Persister"
  me :: int
  rstate :: role
  curTerm :: int
  votedFor :: int
  electionTimeout :: int
  lastHeartbeat :: int
  voteCount :: int
  rlog :: "'c LogEntry list"
  commitIndex :: int
  lastApplied :: int
  nextIndex :: "int list"
  matchIndex :: "int list"
  applyCh :: "'c ApplyMsg list"

record env =
  now :: int
  draw :: int

definition Millisecond :: int where
  "Millisecond = 1000000"

definition minElectionTimeout :: int where
  "minElectionTimeout = 500 * Millisecond"

definition maxElectionTimeout :: int where
  "maxElectionTimeout = 900 * Millisecond"

definition heartbeatInterval :: int where
  "heartbeatInterval = 100 * Millisecond"

text \<open>\<^verbatim>\<open>rand.Int63n(n)\<close> of a raw draw: a value in the interval from 0 to \<open>n - 1\<close>.\<close>

definition Int63n :: "int \<Rightarrow> int \<Rightarrow> int" where
  "Int63n r n = r mod n"

section \<open>Helpers that hold the lock\<close>

definition resetElectionTimeoutLocked :: "env \<Rightarrow> 'c Raft \<Rightarrow> 'c Raft" where
  "resetElectionTimeoutLocked e rf = rf\<lparr>electionTimeout :=
     Int63n (draw e) (maxElectionTimeout - minElectionTimeout) + minElectionTimeout\<rparr>"

definition updateLastHeartbeatLocked :: "env \<Rightarrow> 'c Raft \<Rightarrow> 'c Raft" where
  "updateLastHeartbeatLocked e rf = rf\<lparr>lastHeartbeat := now e\<rparr>"

definition persist :: "'c Raft \<Rightarrow> 'c Raft" where
  "persist rf = rf\<lparr>persister :=
     SaveRaftState [GInt (curTerm rf), GInt (votedFor rf), GLog (rlog rf)] (persister rf)\<rparr>"

definition stepDownLocked :: "env \<Rightarrow> int \<Rightarrow> 'c Raft \<Rightarrow> 'c Raft" where
  "stepDownLocked e t rf =
     (let rf = (if t > curTerm rf then rf\<lparr>curTerm := t\<rparr> else rf);
          rf = rf\<lparr>votedFor := -1\<rparr>;
          rf = rf\<lparr>rstate := follower\<rparr>;
          rf = rf\<lparr>voteCount := 0\<rparr>;
          rf = persist rf;
          rf = updateLastHeartbeatLocked e rf
      in resetElectionTimeoutLocked e rf)"

definition lastLogIndexLocked :: "'c Raft \<Rightarrow> int" where
  "lastLogIndexLocked rf = go_len (rlog rf) - 1"

definition lastLogTermLocked :: "'c Raft \<Rightarrow> int result" where
  "lastLogTermLocked rf = map_option le_Term (go_index (rlog rf) (go_len (rlog rf) - 1))"

definition termAtLocked :: "int \<Rightarrow> 'c Raft \<Rightarrow> int" where
  "termAtLocked i rf =
     (if i = 0 then 0
      else if i < 0 \<or> i \<ge> go_len (rlog rf) then -1
      else le_Term (rlog rf ! nat i))"

definition logContainsLocked :: "int \<Rightarrow> int \<Rightarrow> 'c Raft \<Rightarrow> bool" where
  "logContainsLocked prevIndex prevTerm rf =
     (if prevIndex = 0 then prevTerm = 0
      else if prevIndex < 0 \<or> prevIndex \<ge> go_len (rlog rf) then False
      else le_Term (rlog rf ! nat prevIndex) = prevTerm)"

text \<open>
  Winning an election. The second component is the goroutine the method starts: the
  peers it visits one after the other with \<^verbatim>\<open>replicateTo\<close>, and the term it does so for.
\<close>

definition others :: "'c Raft \<Rightarrow> int list" where
  "others rf = filter (\<lambda>p. p \<noteq> me rf) (go_range (npeers rf))"

definition becomeLeaderLocked :: "'c Raft \<Rightarrow> ('c Raft \<times> int list \<times> int) result" where
  "becomeLeaderLocked rf =
     (let rf = rf\<lparr>rstate := leader\<rparr>;
          rf = persist rf;
          n = npeers rf;
          last = lastLogIndexLocked rf;
          nextI = replicate (nat n) (last + 1);
          matchI = replicate (nat n) 0
      in do {
        matchI \<leftarrow> go_update matchI (me rf) last;
        nextI \<leftarrow> go_update nextI (me rf) (last + 1);
        Some (rf\<lparr>nextIndex := nextI, matchIndex := matchI\<rparr>, others rf, curTerm rf)
      })"

definition GetState :: "'c Raft \<Rightarrow> int \<times> bool" where
  "GetState rf = (curTerm rf, rstate rf = leader)"

section \<open>Restoring and creating\<close>

text \<open>\<^verbatim>\<open>readPersist\<close> ignores data that does not decode.\<close>

definition readPersist :: "'c gob list \<Rightarrow> 'c Raft \<Rightarrow> 'c Raft" where
  "readPersist data rf =
     (if data = [] then rf
      else case (do {
          (t, d1) \<leftarrow> gob_decode_int data;
          (v, d2) \<leftarrow> gob_decode_int d1;
          (l, d3) \<leftarrow> gob_decode_log d2;
          Some (t, v, l)
        }) of
        None \<Rightarrow> rf
      | Some (t, v, l) \<Rightarrow>
          rf\<lparr>curTerm := t, votedFor := v,
             rlog := (if l = [] then [\<lparr>le_Term = 0, le_Command = None\<rparr>] else l)\<rparr>)"

definition Make :: "env \<Rightarrow> int \<Rightarrow> int \<Rightarrow> 'c gob Persister \<Rightarrow> 'c Raft" where
  "Make e n i ps =
     (let rf = \<lparr>npeers = n, persister = ps, me = i, rstate = follower, curTerm = 0,
                votedFor = -1, electionTimeout = 0, lastHeartbeat = 0, voteCount = 0,
                rlog = [\<lparr>le_Term = 0, le_Command = None\<rparr>], commitIndex = 0,
                lastApplied = 0, nextIndex = [], matchIndex = [], applyCh = []\<rparr>;
          rf = resetElectionTimeoutLocked e rf;
          rf = updateLastHeartbeatLocked e rf
      in readPersist (ReadRaftState ps) rf)"

lemmas raft_state_defs [raft_defs] =
  resetElectionTimeoutLocked_def updateLastHeartbeatLocked_def persist_def stepDownLocked_def
  lastLogIndexLocked_def lastLogTermLocked_def Let_def


section \<open>Field equations\<close>

lemma timers_sel [simp]:
  "npeers (resetElectionTimeoutLocked e rf) = npeers rf"
  "persister (resetElectionTimeoutLocked e rf) = persister rf"
  "me (resetElectionTimeoutLocked e rf) = me rf"
  "rstate (resetElectionTimeoutLocked e rf) = rstate rf"
  "curTerm (resetElectionTimeoutLocked e rf) = curTerm rf"
  "votedFor (resetElectionTimeoutLocked e rf) = votedFor rf"
  "lastHeartbeat (resetElectionTimeoutLocked e rf) = lastHeartbeat rf"
  "voteCount (resetElectionTimeoutLocked e rf) = voteCount rf"
  "rlog (resetElectionTimeoutLocked e rf) = rlog rf"
  "commitIndex (resetElectionTimeoutLocked e rf) = commitIndex rf"
  "lastApplied (resetElectionTimeoutLocked e rf) = lastApplied rf"
  "nextIndex (resetElectionTimeoutLocked e rf) = nextIndex rf"
  "matchIndex (resetElectionTimeoutLocked e rf) = matchIndex rf"
  "applyCh (resetElectionTimeoutLocked e rf) = applyCh rf"
  "npeers (updateLastHeartbeatLocked e rf) = npeers rf"
  "persister (updateLastHeartbeatLocked e rf) = persister rf"
  "me (updateLastHeartbeatLocked e rf) = me rf"
  "rstate (updateLastHeartbeatLocked e rf) = rstate rf"
  "curTerm (updateLastHeartbeatLocked e rf) = curTerm rf"
  "votedFor (updateLastHeartbeatLocked e rf) = votedFor rf"
  "electionTimeout (updateLastHeartbeatLocked e rf) = electionTimeout rf"
  "lastHeartbeat (updateLastHeartbeatLocked e rf) = now e"
  "voteCount (updateLastHeartbeatLocked e rf) = voteCount rf"
  "rlog (updateLastHeartbeatLocked e rf) = rlog rf"
  "commitIndex (updateLastHeartbeatLocked e rf) = commitIndex rf"
  "lastApplied (updateLastHeartbeatLocked e rf) = lastApplied rf"
  "nextIndex (updateLastHeartbeatLocked e rf) = nextIndex rf"
  "matchIndex (updateLastHeartbeatLocked e rf) = matchIndex rf"
  "applyCh (updateLastHeartbeatLocked e rf) = applyCh rf"
  by (simp_all add: raft_defs)

lemma persist_sel [simp]:
  "npeers (persist rf) = npeers rf"
  "me (persist rf) = me rf"
  "rstate (persist rf) = rstate rf"
  "curTerm (persist rf) = curTerm rf"
  "votedFor (persist rf) = votedFor rf"
  "electionTimeout (persist rf) = electionTimeout rf"
  "lastHeartbeat (persist rf) = lastHeartbeat rf"
  "voteCount (persist rf) = voteCount rf"
  "rlog (persist rf) = rlog rf"
  "commitIndex (persist rf) = commitIndex rf"
  "lastApplied (persist rf) = lastApplied rf"
  "nextIndex (persist rf) = nextIndex rf"
  "matchIndex (persist rf) = matchIndex rf"
  "applyCh (persist rf) = applyCh rf"
  "ReadRaftState (persister (persist rf)) = [GInt (curTerm rf), GInt (votedFor rf), GLog (rlog rf)]"
  by (simp_all add: raft_defs raft_slot.load_save)

lemma stepDown_sel [simp]:
  "npeers (stepDownLocked e t rf) = npeers rf"
  "me (stepDownLocked e t rf) = me rf"
  "rstate (stepDownLocked e t rf) = follower"
  "curTerm (stepDownLocked e t rf) = max t (curTerm rf)"
  "votedFor (stepDownLocked e t rf) = -1"
  "lastHeartbeat (stepDownLocked e t rf) = now e"
  "voteCount (stepDownLocked e t rf) = 0"
  "rlog (stepDownLocked e t rf) = rlog rf"
  "commitIndex (stepDownLocked e t rf) = commitIndex rf"
  "lastApplied (stepDownLocked e t rf) = lastApplied rf"
  "nextIndex (stepDownLocked e t rf) = nextIndex rf"
  "matchIndex (stepDownLocked e t rf) = matchIndex rf"
  "applyCh (stepDownLocked e t rf) = applyCh rf"
  "ReadRaftState (persister (stepDownLocked e t rf)) =
     [GInt (max t (curTerm rf)), GInt (-1), GLog (rlog rf)]"
  by (simp_all add: stepDownLocked_def Let_def)

lemma helper_last_index [simp]:
  "lastLogIndexLocked (persist rf) = lastLogIndexLocked rf"
  "lastLogIndexLocked (stepDownLocked e t rf) = lastLogIndexLocked rf"
  "lastLogIndexLocked (updateLastHeartbeatLocked e rf) = lastLogIndexLocked rf"
  "lastLogIndexLocked (resetElectionTimeoutLocked e rf) = lastLogIndexLocked rf"
  by (simp_all add: lastLogIndexLocked_def)

lemma others_cong: "npeers rf' = npeers rf \<Longrightarrow> me rf' = me rf \<Longrightarrow> others rf' = others rf"
  by (simp add: others_def)

lemma in_others [simp]: "p \<in> set (others rf) \<longleftrightarrow> 0 \<le> p \<and> p < npeers rf \<and> p \<noteq> me rf"
  by (auto simp: others_def)

lemma distinct_others [simp]: "distinct (others rf)"
  by (simp add: others_def)

section \<open>The well-formedness invariant of one server\<close>

text \<open>
  The log starts with the dummy entry of term 0 and its terms never decrease.
\<close>

definition log_ok :: "'c LogEntry list \<Rightarrow> bool" where
  "log_ok l \<longleftrightarrow> l \<noteq> [] \<and> le_Term (hd l) = 0 \<and> sorted (map le_Term l)"

text \<open>A leader has an entry of \<open>nextIndex\<close> and \<open>matchIndex\<close> per peer, inside its log.\<close>

definition leader_ok :: "'c Raft \<Rightarrow> bool" where
  "leader_ok rf \<longleftrightarrow> go_len (nextIndex rf) = npeers rf \<and> go_len (matchIndex rf) = npeers rf \<and>
     (\<forall>x \<in> set (nextIndex rf). 1 \<le> x \<and> x \<le> go_len (rlog rf)) \<and>
     (\<forall>x \<in> set (matchIndex rf). 0 \<le> x \<and> x < go_len (rlog rf))"

text \<open>What is on stable storage is the term, the vote and the log.\<close>

definition persisted :: "'c Raft \<Rightarrow> bool" where
  "persisted rf \<longleftrightarrow>
     (if ReadRaftState (persister rf) = []
      then curTerm rf = 0 \<and> votedFor rf = -1 \<and> rlog rf = [\<lparr>le_Term = 0, le_Command = None\<rparr>]
      else ReadRaftState (persister rf) = [GInt (curTerm rf), GInt (votedFor rf), GLog (rlog rf)])"

definition timeout_ok :: "'c Raft \<Rightarrow> bool" where
  "timeout_ok rf \<longleftrightarrow> minElectionTimeout \<le> electionTimeout rf \<and> electionTimeout rf < maxElectionTimeout"

text \<open>The service received the messages \<open>1, \<dots>, lastApplied\<close> in this order.\<close>

definition applied_ok :: "'c Raft \<Rightarrow> bool" where
  "applied_ok rf \<longleftrightarrow> 0 \<le> lastApplied rf \<and> 0 \<le> commitIndex rf \<and>
     (\<forall>m \<in> set (applyCh rf). \<not> am_UseSnapshot m) \<and>
     map am_Index (applyCh rf) = [1..lastApplied rf]"

definition raft_ok :: "'c Raft \<Rightarrow> bool" where
  "raft_ok rf \<longleftrightarrow> 0 \<le> me rf \<and> me rf < npeers rf \<and>
     log_ok (rlog rf) \<and> (\<forall>x \<in> set (rlog rf). le_Term x \<le> curTerm rf) \<and>
     -1 \<le> votedFor rf \<and> votedFor rf < npeers rf \<and>
     timeout_ok rf \<and> applied_ok rf \<and> persisted rf \<and>
     (rstate rf = leader \<longrightarrow> leader_ok rf)"

lemma raft_okD:
  assumes "raft_ok rf"
  shows "0 \<le> me rf" "me rf < npeers rf" "rlog rf \<noteq> []" "0 \<le> curTerm rf"
    "log_ok (rlog rf)" "persisted rf" "timeout_ok rf" "applied_ok rf"
proof -
  show "0 \<le> me rf" "me rf < npeers rf" "rlog rf \<noteq> []" "log_ok (rlog rf)" "persisted rf"
    "timeout_ok rf" "applied_ok rf"
    using assms by (auto simp: raft_ok_def log_ok_def)
  show "0 \<le> curTerm rf"
    using assms by (cases "rlog rf") (auto simp: raft_ok_def log_ok_def)
qed

lemma lastLogTerm_total: "rlog rf \<noteq> [] \<Longrightarrow> lastLogTermLocked rf = Some (le_Term (last (rlog rf)))"
  by (simp add: lastLogTermLocked_def go_index_in in_range_last last_conv_nth)

lemma log_ok_dummy [simp]: "log_ok [\<lparr>le_Term = 0, le_Command = None\<rparr>]"
  by (simp add: log_ok_def)

lemma log_ok_nonneg: "log_ok l \<Longrightarrow> x \<in> set l \<Longrightarrow> 0 \<le> le_Term x"
  by (cases l) (auto simp: log_ok_def)

lemma log_ok_nth_mono: "log_ok l \<Longrightarrow> i \<le> j \<Longrightarrow> j < length l \<Longrightarrow> le_Term (l ! i) \<le> le_Term (l ! j)"
  using sorted_nth_mono [of "map le_Term l" i j] by (simp add: log_ok_def)

lemma log_ok_take: "log_ok l \<Longrightarrow> 0 < k \<Longrightarrow> log_ok (take k l)"
  by (auto simp: log_ok_def hd_take sorted_wrt_take simp flip: take_map)

lemma log_ok_snoc:
  assumes "log_ok l" and "\<forall>x \<in> set l. le_Term x \<le> le_Term y"
  shows "log_ok (l @ [y])"
  using assms by (auto simp: log_ok_def sorted_append)

text \<open>\<open>termAtLocked\<close> reads the log wherever the index is in range.\<close>

lemma termAt_in:
  assumes "log_ok (rlog rf)" and "0 \<le> i" and "i < go_len (rlog rf)"
  shows "termAtLocked i rf = le_Term (rlog rf ! nat i)"
  using assms by (auto simp: termAtLocked_def log_ok_def hd_conv_nth)

lemma logContains_termAt:
  assumes "log_ok (rlog rf)" and "0 \<le> i" and "i < go_len (rlog rf)"
  shows "logContainsLocked i t rf \<longleftrightarrow> termAtLocked i rf = t"
  using assms by (auto simp: termAtLocked_def logContainsLocked_def)

section \<open>The helpers keep the invariant\<close>

lemma timeout_ok_reset [simp]: "timeout_ok (resetElectionTimeoutLocked e rf)"
  by (simp add: timeout_ok_def resetElectionTimeoutLocked_def Int63n_def minElectionTimeout_def
      maxElectionTimeout_def Millisecond_def)

lemma timeout_ok_frame [simp]:
  "timeout_ok (persist rf) = timeout_ok rf"
  "timeout_ok (updateLastHeartbeatLocked e rf) = timeout_ok rf"
  "timeout_ok (stepDownLocked e t rf)"
  by (simp_all add: timeout_ok_def[of "persist rf"] timeout_ok_def[of rf]
      timeout_ok_def[of "updateLastHeartbeatLocked e rf"] stepDownLocked_def Let_def)

lemma persisted_persist [simp]: "persisted (persist rf)"
  by (simp add: persisted_def)

lemma persisted_cong:
  "persister rf' = persister rf \<Longrightarrow> curTerm rf' = curTerm rf \<Longrightarrow> votedFor rf' = votedFor rf \<Longrightarrow>
   rlog rf' = rlog rf \<Longrightarrow> persisted rf' = persisted rf"
  by (simp add: persisted_def)

lemma persisted_stepDown [simp]: "persisted (stepDownLocked e t rf)"
  by (simp add: persisted_def)

lemma raft_ok_voteCount: "raft_ok rf \<Longrightarrow> raft_ok (rf\<lparr>voteCount := c\<rparr>)"
  by (simp add: raft_ok_def applied_ok_def leader_ok_def timeout_ok_def persisted_def)

lemma raft_ok_stepDown: "raft_ok rf \<Longrightarrow> raft_ok (stepDownLocked e t rf)"
  by (fastforce simp: raft_ok_def applied_ok_def)

lemma raft_ok_heartbeat_clock: "raft_ok rf \<Longrightarrow> raft_ok (updateLastHeartbeatLocked e rf)"
  by (simp add: raft_ok_def applied_ok_def leader_ok_def persisted_def timeout_ok_def)

lemma raft_ok_persist: "raft_ok rf \<Longrightarrow> raft_ok (persist rf)"
  by (simp add: raft_ok_def applied_ok_def leader_ok_def timeout_ok_def)

lemma becomeLeader_total:
  assumes "raft_ok rf"
  shows "\<exists>rf'. becomeLeaderLocked rf = Some (rf', others rf, curTerm rf) \<and> raft_ok rf' \<and>
    rstate rf' = leader \<and> curTerm rf' = curTerm rf \<and> votedFor rf' = votedFor rf \<and>
    rlog rf' = rlog rf \<and> me rf' = me rf \<and> npeers rf' = npeers rf \<and> commitIndex rf' = commitIndex rf \<and>
    voteCount rf' = voteCount rf \<and> applyCh rf' = applyCh rf \<and> lastApplied rf' = lastApplied rf"
proof -
  let ?last = "lastLogIndexLocked rf"
  have len: "0 < go_len (rlog rf)" using raft_okD(3) [OF assms] by (simp add: go_len_pos)
  have rng: "in_range (replicate (nat (npeers rf)) x) (me rf)" for x :: int
    using raft_okD(1,2) [OF assms] by (simp add: in_range_def)
  let ?rf = "persist (rf\<lparr>rstate := leader\<rparr>)\<lparr>nextIndex := (replicate (nat (npeers rf)) (?last + 1))
      [nat (me rf) := ?last + 1], matchIndex := (replicate (nat (npeers rf)) 0)[nat (me rf) := ?last]\<rparr>"
  have eq: "becomeLeaderLocked rf = Some (?rf, others rf, curTerm rf)"
    using rng by (simp add: becomeLeaderLocked_def Let_def go_update_in lastLogIndexLocked_def others_def)
  have "leader_ok ?rf"
    using raft_okD(1,2) [OF assms] len
    by (auto simp: leader_ok_def lastLogIndexLocked_def dest!: subsetD [OF set_update_subset_insert])
  then have "raft_ok ?rf"
    using assms by (simp add: raft_ok_def applied_ok_def timeout_ok_def persisted_def)
  with eq show ?thesis by simp
qed

section \<open>Crash recovery\<close>

text \<open>Whatever was persisted last comes back when the server is made again.\<close>

lemma Make_restores:
  assumes "persisted rf" and "rlog rf \<noteq> []"
  shows "curTerm (Make e n i (Copy (persister rf))) = curTerm rf"
    "votedFor (Make e n i (Copy (persister rf))) = votedFor rf"
    "rlog (Make e n i (Copy (persister rf))) = rlog rf"
  using assms
  by (auto simp: Make_def readPersist_def persisted_def raft_slot.load_copy Let_def
      split: if_splits)

end
