(* ===== verification/Raft_Election.thy ===== *)
theory Raft_Election
  imports Raft_State
begin

text \<open>
  Leader election and heartbeats (\<^verbatim>\<open>src/raft/raft.go\<close>): the RPC handlers
  \<^verbatim>\<open>RequestVote\<close> and \<^verbatim>\<open>Heartbeat\<close>, the methods \<^verbatim>\<open>StartElection\<close> and
  \<^verbatim>\<open>StartHeartbeat\<close>, what their goroutines do with a reply, and one round of the
  \<^verbatim>\<open>life\<close> loop. A method that starts goroutines returns them as a list.
\<close>

section \<open>Messages and goroutines\<close>

record RequestVoteArgs =
  rva_ElectionTerm :: int
  rva_CandidateID :: int
  rva_LastLogIndex :: int
  rva_LastLogTerm :: int

record RequestVoteReply =
  rvr_ElectionTerm :: int
  rvr_Vote :: bool

record HeartbeatArgs =
  hba_LeaderID :: int
  hba_Term :: int
  hba_Entry :: int

record HeartbeatReply =
  hbr_Term :: int
  hbr_Status :: bool

record 'c AppendEntriesArgs =
  aea_Term :: int
  aea_LeaderID :: int
  aea_PrevLogIndex :: int
  aea_PrevLogTerm :: int
  aea_Entries :: "'c LogEntry list"
  aea_LeaderCommit :: int

record AppendEntriesReply =
  aer_Term :: int
  aer_Success :: bool
  aer_ConflictTerm :: int
  aer_ConflictIndex :: int

text \<open>
  Where a goroutine of a server can be between two critical sections. \<open>VoteCall\<close>,
  \<open>BeatCall\<close> and \<open>ReplCall\<close> wait inside \<^verbatim>\<open>Call\<close>; \<open>VoteDone\<close>, \<open>BeatDone\<close> and
  \<open>ReplDone\<close> have the reply and wait for the mutex. \<open>BeginBeat\<close> is about to call
  \<^verbatim>\<open>StartHeartbeat\<close>. \<open>Repl ps t\<close> is at the head of the loop of \<^verbatim>\<open>replicateTo\<close> for the
  first peer of \<open>ps\<close>; the rest of \<open>ps\<close> are the peers the goroutine visits afterwards.
\<close>

datatype 'c gort =
    VoteCall int RequestVoteArgs int int
  | VoteDone int RequestVoteReply int int
  | BeginBeat
  | BeatCall int HeartbeatArgs int
  | BeatDone int HeartbeatReply int
  | Repl "int list" int
  | ReplCall "int list" int "'c AppendEntriesArgs"
  | ReplDone "int list" int "'c AppendEntriesArgs" AppendEntriesReply

section \<open>RequestVote\<close>

definition RequestVote ::
  "env \<Rightarrow> RequestVoteArgs \<Rightarrow> 'c Raft \<Rightarrow> ('c Raft \<times> RequestVoteReply) result" where
  "RequestVote e args rf =
     (let reply = \<lparr>rvr_ElectionTerm = curTerm rf, rvr_Vote = False\<rparr>
      in if rva_ElectionTerm args < curTerm rf then Some (rf, reply)
      else
        let rf = (if rva_ElectionTerm args > curTerm rf
                  then stepDownLocked e (rva_ElectionTerm args) rf else rf);
            myLastIdx = lastLogIndexLocked rf
        in do {
          myLastTerm \<leftarrow> lastLogTermLocked rf;
          let upToDate = (rva_LastLogTerm args > myLastTerm \<or>
            (rva_LastLogTerm args = myLastTerm \<and> rva_LastLogIndex args \<ge> myLastIdx));
          if (votedFor rf = -1 \<or> votedFor rf = rva_CandidateID args) \<and> upToDate
          then Some (persist (rf\<lparr>votedFor := rva_CandidateID args\<rparr>),
                     reply\<lparr>rvr_Vote := True, rvr_ElectionTerm := curTerm rf\<rparr>)
          else Some (rf, reply)
        })"

section \<open>StartElection\<close>

definition StartElection :: "env \<Rightarrow> 'c Raft \<Rightarrow> ('c Raft \<times> 'c gort list) result" where
  "StartElection e rf =
     (let rf = resetElectionTimeoutLocked e rf;
          rf = rf\<lparr>curTerm := curTerm rf + 1\<rparr>;
          rf = rf\<lparr>rstate := candidate\<rparr>;
          rf = rf\<lparr>votedFor := me rf\<rparr>;
          rf = rf\<lparr>voteCount := 1\<rparr>;
          t = curTerm rf;
          i = me rf;
          nPeers = npeers rf;
          lastIdx = lastLogIndexLocked rf
      in do {
        lastTerm \<leftarrow> lastLogTermLocked rf;
        let rf = persist rf;
        let rf = updateLastHeartbeatLocked e rf;
        if voteCount rf > nPeers div 2
        then do {
          (rf, ps, t') \<leftarrow> becomeLeaderLocked rf;
          Some (rf, [Repl ps t'])
        }
        else
          let args = \<lparr>rva_ElectionTerm = t, rva_CandidateID = i,
                      rva_LastLogIndex = lastIdx, rva_LastLogTerm = lastTerm\<rparr>
          in Some (rf, map (\<lambda>p. VoteCall p args nPeers t) (others rf))
      })"

text \<open>
  The goroutine of \<^verbatim>\<open>StartElection\<close> after \<^verbatim>\<open>sendRequestVote\<close> returned true: \<open>t\<close> and
  \<open>nPeers\<close> are the values it captured when the election began.
\<close>

definition VoteReturn ::
  "env \<Rightarrow> RequestVoteReply \<Rightarrow> int \<Rightarrow> int \<Rightarrow> 'c Raft \<Rightarrow> ('c Raft \<times> 'c gort list) result" where
  "VoteReturn e reply nPeers t rf =
     (if rvr_ElectionTerm reply > curTerm rf
      then Some (stepDownLocked e (rvr_ElectionTerm reply) rf, [])
      else if rvr_Vote reply then
        let rf = rf\<lparr>voteCount := voteCount rf + 1\<rparr>
        in if voteCount rf > nPeers div 2 \<and> rstate rf = candidate \<and> curTerm rf = t
        then do {
          (rf, ps, t') \<leftarrow> becomeLeaderLocked rf;
          Some (rf, [Repl ps t', BeginBeat])
        }
        else Some (rf, [])
      else Some (rf, []))"

section \<open>Heartbeat\<close>

definition Heartbeat :: "env \<Rightarrow> HeartbeatArgs \<Rightarrow> 'c Raft \<Rightarrow> 'c Raft \<times> HeartbeatReply" where
  "Heartbeat e args rf =
     (let reply = \<lparr>hbr_Term = curTerm rf, hbr_Status = False\<rparr>
      in if hba_Term args < curTerm rf then (rf, reply)
      else
        let rf = (if hba_Term args > curTerm rf
                  then rf\<lparr>curTerm := hba_Term args, votedFor := -1\<rparr> else rf);
            rf = (if rstate rf \<noteq> follower then rf\<lparr>rstate := follower\<rparr> else rf);
            rf = updateLastHeartbeatLocked e rf;
            rf = persist rf
        in (rf, reply\<lparr>hbr_Term := curTerm rf, hbr_Status := True\<rparr>))"

definition StartHeartbeat :: "env \<Rightarrow> 'c Raft \<Rightarrow> 'c Raft \<times> 'c gort list" where
  "StartHeartbeat e rf =
     (let rf = updateLastHeartbeatLocked e rf;
          t = curTerm rf;
          i = me rf
      in (rf, map (\<lambda>p. BeatCall p \<lparr>hba_LeaderID = i, hba_Term = t, hba_Entry = 0\<rparr> t)
                  (others rf)))"

text \<open>
  The goroutine of \<^verbatim>\<open>StartHeartbeat\<close> once \<^verbatim>\<open>sendHeartbeat\<close> returned. The result of the
  call is ignored: after a failed call the reply is the zero value.
\<close>

definition zeroHeartbeatReply :: HeartbeatReply where
  "zeroHeartbeatReply = \<lparr>hbr_Term = 0, hbr_Status = False\<rparr>"

definition BeatReturn ::
  "env \<Rightarrow> int \<Rightarrow> HeartbeatReply \<Rightarrow> int \<Rightarrow> 'c Raft \<Rightarrow> 'c Raft \<times> 'c gort list" where
  "BeatReturn e peerID reply t rf =
     (if hbr_Term reply > t then stepDownLocked e (hbr_Term reply) rf else rf,
      [Repl [peerID] t])"

section \<open>One round of the life loop\<close>

text \<open>
  \<^verbatim>\<open>life\<close> reads a snapshot of the state under the lock, releases it, and later acts on the
  snapshot: \<open>life_read\<close> is the critical section, \<open>life_act\<close> the switch.
\<close>

record snap =
  sn_state :: role
  sn_lastHeartbeat :: int
  sn_timeout :: int

definition life_read :: "'c Raft \<Rightarrow> snap" where
  "life_read rf = \<lparr>sn_state = rstate rf, sn_lastHeartbeat = lastHeartbeat rf,
                   sn_timeout = electionTimeout rf\<rparr>"

definition life_act :: "env \<Rightarrow> snap \<Rightarrow> 'c Raft \<Rightarrow> ('c Raft \<times> 'c gort list) result" where
  "life_act e sn rf =
     (case sn_state sn of
        follower \<Rightarrow>
          if now e - sn_lastHeartbeat sn > sn_timeout sn then StartElection e rf else Some (rf, [])
      | candidate \<Rightarrow>
          if now e - sn_lastHeartbeat sn > sn_timeout sn then StartElection e rf else Some (rf, [])
      | leader \<Rightarrow> Some (StartHeartbeat e rf))"


section \<open>Voting\<close>

text \<open>
  The discipline that makes a vote binding: within a term, a vote once given is neither
  withdrawn nor changed.
\<close>

definition vote_step :: "'c Raft \<Rightarrow> 'c Raft \<Rightarrow> bool" where
  "vote_step rf rf' \<longleftrightarrow> curTerm rf < curTerm rf' \<or>
     (curTerm rf' = curTerm rf \<and> (votedFor rf = -1 \<or> votedFor rf' = votedFor rf))"

lemma vote_step_refl [simp]: "vote_step rf rf"
  by (simp add: vote_step_def)

lemma vote_step_trans: "vote_step a b \<Longrightarrow> vote_step b c \<Longrightarrow> vote_step a c"
  by (auto simp: vote_step_def)

lemma vote_step_same:
  "curTerm rf' = curTerm rf \<Longrightarrow> votedFor rf' = votedFor rf \<Longrightarrow> vote_step rf rf'"
  by (simp add: vote_step_def)

lemma vote_step_stepDown: "curTerm rf < t \<Longrightarrow> vote_step rf (stepDownLocked e t rf)"
  by (simp add: vote_step_def)

text \<open>The candidate's log is at least as up to date as the voter's.\<close>

definition up_to_date :: "RequestVoteArgs \<Rightarrow> 'c Raft \<Rightarrow> bool" where
  "up_to_date args rf \<longleftrightarrow> rva_LastLogTerm args > le_Term (last (rlog rf)) \<or>
     (rva_LastLogTerm args = le_Term (last (rlog rf)) \<and> rva_LastLogIndex args \<ge> lastLogIndexLocked rf)"

text \<open>The voter after it has adopted a newer term, and its decision.\<close>

definition adopt :: "env \<Rightarrow> int \<Rightarrow> 'c Raft \<Rightarrow> 'c Raft" where
  "adopt e t rf = (if t > curTerm rf then stepDownLocked e t rf else rf)"

definition grants :: "RequestVoteArgs \<Rightarrow> 'c Raft \<Rightarrow> bool" where
  "grants args rf \<longleftrightarrow> curTerm rf \<le> rva_ElectionTerm args \<and>
     (curTerm rf = rva_ElectionTerm args \<longrightarrow> votedFor rf = -1 \<or> votedFor rf = rva_CandidateID args) \<and>
     up_to_date args rf"

lemma adopt_sel [simp]:
  "npeers (adopt e t rf) = npeers rf" "me (adopt e t rf) = me rf" "rlog (adopt e t rf) = rlog rf"
  "commitIndex (adopt e t rf) = commitIndex rf" "applyCh (adopt e t rf) = applyCh rf"
  "lastApplied (adopt e t rf) = lastApplied rf" "curTerm (adopt e t rf) = max t (curTerm rf)"
  "nextIndex (adopt e t rf) = nextIndex rf" "matchIndex (adopt e t rf) = matchIndex rf"
  "votedFor (adopt e t rf) = (if t > curTerm rf then -1 else votedFor rf)"
  "rstate (adopt e t rf) = (if t > curTerm rf then follower else rstate rf)"
  "voteCount (adopt e t rf) = (if t > curTerm rf then 0 else voteCount rf)"
  by (simp_all add: adopt_def)

lemma raft_ok_adopt: "raft_ok rf \<Longrightarrow> raft_ok (adopt e t rf)"
  by (simp add: adopt_def raft_ok_stepDown)

lemma RequestVote_eq:
  assumes "rlog rf \<noteq> []"
  shows "RequestVote e args rf =
    (if rva_ElectionTerm args < curTerm rf
     then Some (rf, \<lparr>rvr_ElectionTerm = curTerm rf, rvr_Vote = False\<rparr>)
     else if grants args rf
     then Some (persist (adopt e (rva_ElectionTerm args) rf\<lparr>votedFor := rva_CandidateID args\<rparr>),
            \<lparr>rvr_ElectionTerm = rva_ElectionTerm args, rvr_Vote = True\<rparr>)
     else Some (adopt e (rva_ElectionTerm args) rf,
            \<lparr>rvr_ElectionTerm = curTerm rf, rvr_Vote = False\<rparr>))"
proof -
  let ?rf = "adopt e (rva_ElectionTerm args) rf"
  have "lastLogTermLocked ?rf = Some (le_Term (last (rlog rf)))"
    using lastLogTerm_total [of ?rf] assms by simp
  moreover have "lastLogIndexLocked ?rf = lastLogIndexLocked rf"
    by (simp add: lastLogIndexLocked_def)
  ultimately show ?thesis
    by (auto simp: RequestVote_def Let_def grants_def up_to_date_def
        simp flip: adopt_def [of e "rva_ElectionTerm args" rf])
qed

lemma RequestVote_total:
  assumes "raft_ok rf" and "0 \<le> rva_CandidateID args" and "rva_CandidateID args < npeers rf"
  shows "\<exists>rf' reply. RequestVote e args rf = Some (rf', reply) \<and> raft_ok rf'"
proof -
  let ?rf = "adopt e (rva_ElectionTerm args) rf"
  have ok: "raft_ok ?rf" using assms(1) by (rule raft_ok_adopt)
  then have "raft_ok (persist (?rf\<lparr>votedFor := rva_CandidateID args\<rparr>))"
    using assms(2,3) by (simp add: raft_ok_def applied_ok_def leader_ok_def timeout_ok_def)
  with ok assms(1) show ?thesis
    by (simp add: RequestVote_eq raft_okD(3))
qed

lemma RequestVote_frame:
  assumes "RequestVote e args rf = Some (rf', reply)" and "rlog rf \<noteq> []"
  shows "npeers rf' = npeers rf" "me rf' = me rf" "rlog rf' = rlog rf"
    "commitIndex rf' = commitIndex rf" "applyCh rf' = applyCh rf" "lastApplied rf' = lastApplied rf"
    "nextIndex rf' = nextIndex rf" "matchIndex rf' = matchIndex rf"
    "curTerm rf' = max (rva_ElectionTerm args) (curTerm rf)"
    "rstate rf' = (if rva_ElectionTerm args > curTerm rf then follower else rstate rf)"
    "voteCount rf' = (if rva_ElectionTerm args > curTerm rf then 0 else voteCount rf)"
    "rvr_Vote reply \<longleftrightarrow> grants args rf"
    "rvr_Vote reply \<Longrightarrow> votedFor rf' = rva_CandidateID args"
    "rvr_Vote reply \<Longrightarrow> curTerm rf' = rva_ElectionTerm args"
    "rvr_Vote reply \<Longrightarrow> rvr_ElectionTerm reply = rva_ElectionTerm args"
    "vote_step rf rf'"
proof -
  show "npeers rf' = npeers rf" "me rf' = me rf" "rlog rf' = rlog rf"
    "commitIndex rf' = commitIndex rf" "applyCh rf' = applyCh rf" "lastApplied rf' = lastApplied rf"
    "nextIndex rf' = nextIndex rf" "matchIndex rf' = matchIndex rf"
    "curTerm rf' = max (rva_ElectionTerm args) (curTerm rf)"
    "rstate rf' = (if rva_ElectionTerm args > curTerm rf then follower else rstate rf)"
    "voteCount rf' = (if rva_ElectionTerm args > curTerm rf then 0 else voteCount rf)"
    using assms by (auto simp: RequestVote_eq split: if_splits)
  show "rvr_Vote reply \<longleftrightarrow> grants args rf"
    using assms by (auto simp: RequestVote_eq grants_def split: if_splits)
  show "rvr_Vote reply \<Longrightarrow> votedFor rf' = rva_CandidateID args"
    "rvr_Vote reply \<Longrightarrow> curTerm rf' = rva_ElectionTerm args"
    "rvr_Vote reply \<Longrightarrow> rvr_ElectionTerm reply = rva_ElectionTerm args"
    using assms by (auto simp: RequestVote_eq grants_def split: if_splits)
  show "vote_step rf rf'"
    using assms by (auto simp: RequestVote_eq grants_def vote_step_def split: if_splits)
qed

section \<open>Elections\<close>

lemma raft_ok_candidate:
  assumes "raft_ok rf"
  shows "raft_ok (updateLastHeartbeatLocked e (persist (resetElectionTimeoutLocked e rf
    \<lparr>curTerm := curTerm rf + 1, rstate := candidate, votedFor := me rf, voteCount := 1\<rparr>)))"
proof -
  have "timeout_ok (resetElectionTimeoutLocked e rf
    \<lparr>curTerm := curTerm rf + 1, rstate := candidate, votedFor := me rf, voteCount := 1\<rparr>)"
    using timeout_ok_reset [of e rf] by (simp add: timeout_ok_def)
  then show ?thesis
    using assms by (auto simp: raft_ok_def applied_ok_def persisted_def)
qed

text \<open>
  An election starts a new term with a vote for oneself, and asks every other server with
  the position of the last log entry. A server without peers wins at once.
\<close>

lemma StartElection_total:
  assumes "raft_ok rf"
  shows "\<exists>rf' gs. StartElection e rf = Some (rf', gs) \<and> raft_ok rf' \<and>
    curTerm rf' = curTerm rf + 1 \<and> votedFor rf' = me rf \<and> rlog rf' = rlog rf \<and>
    me rf' = me rf \<and> npeers rf' = npeers rf \<and> commitIndex rf' = commitIndex rf \<and>
    applyCh rf' = applyCh rf \<and> lastApplied rf' = lastApplied rf \<and> voteCount rf' = 1 \<and>
    (if 1 > npeers rf div 2 then rstate rf' = leader \<and> gs = [Repl (others rf) (curTerm rf')]
     else rstate rf' = candidate \<and>
       gs = map (\<lambda>p. VoteCall p \<lparr>rva_ElectionTerm = curTerm rf + 1, rva_CandidateID = me rf,
           rva_LastLogIndex = lastLogIndexLocked rf,
           rva_LastLogTerm = le_Term (last (rlog rf))\<rparr> (npeers rf) (curTerm rf + 1)) (others rf))"
proof -
  let ?r = "resetElectionTimeoutLocked e rf
    \<lparr>curTerm := curTerm rf + 1, rstate := candidate, votedFor := me rf, voteCount := 1\<rparr>"
  let ?rf = "updateLastHeartbeatLocked e (persist ?r)"
  have ok: "raft_ok ?rf" by (rule raft_ok_candidate [OF assms])
  have lt: "lastLogTermLocked ?r = Some (le_Term (last (rlog rf)))"
    using lastLogTerm_total [of ?r] raft_okD(3) [OF assms] by simp
  have li: "lastLogIndexLocked ?r = lastLogIndexLocked rf" by (simp add: lastLogIndexLocked_def)
  have oth: "others ?rf = others rf" by (rule others_cong) simp_all
  show ?thesis
  proof (cases "1 > npeers rf div 2")
    case True
    then show ?thesis
      using becomeLeader_total [OF ok] oth lt by (auto simp: StartElection_def Let_def)
  next
    case False
    then show ?thesis
      using ok oth lt li by (auto simp: StartElection_def Let_def)
  qed
qed

lemma VoteReturn_total:
  assumes "raft_ok rf"
  shows "\<exists>rf' gs. VoteReturn e reply nPeers t rf = Some (rf', gs) \<and> raft_ok rf'"
proof -
  have ok: "raft_ok (rf\<lparr>voteCount := voteCount rf + 1\<rparr>)"
    using assms by (simp add: raft_ok_voteCount)
  show ?thesis
    using becomeLeader_total [OF ok] assms ok
    by (auto simp: VoteReturn_def Let_def intro: raft_ok_stepDown)
qed

text \<open>
  What a goroutine of an election does with a reply. A reply of a newer term deposes, a
  refusal is ignored, and a granted vote counts towards the server's \<^emph>\<open>current\<close> tally
  even when the election it belongs to is over.
\<close>

lemma VoteReturn_cases:
  assumes "VoteReturn e reply nPeers t rf = Some (rf', gs)" and "raft_ok rf"
  obtains (deposed) "rvr_ElectionTerm reply > curTerm rf" "gs = []"
      "rf' = stepDownLocked e (rvr_ElectionTerm reply) rf"
  | (ignored) "rvr_ElectionTerm reply \<le> curTerm rf" "\<not> rvr_Vote reply" "gs = []" "rf' = rf"
  | (counted) "rvr_ElectionTerm reply \<le> curTerm rf" "rvr_Vote reply" "gs = []"
      "rf' = rf\<lparr>voteCount := voteCount rf + 1\<rparr>"
      "\<not> (voteCount rf + 1 > nPeers div 2 \<and> rstate rf = candidate \<and> curTerm rf = t)"
  | (won) "rvr_ElectionTerm reply \<le> curTerm rf" "rvr_Vote reply"
      "voteCount rf + 1 > nPeers div 2" "rstate rf = candidate" "curTerm rf = t"
      "rstate rf' = leader" "curTerm rf' = curTerm rf" "votedFor rf' = votedFor rf"
      "rlog rf' = rlog rf" "me rf' = me rf" "npeers rf' = npeers rf"
      "commitIndex rf' = commitIndex rf" "applyCh rf' = applyCh rf" "lastApplied rf' = lastApplied rf"
      "gs = [Repl (others rf) (curTerm rf), BeginBeat]"
proof -
  have ok: "raft_ok (rf\<lparr>voteCount := voteCount rf + 1\<rparr>)"
    using assms by (simp add: raft_ok_voteCount)
  have "others (rf\<lparr>voteCount := voteCount rf + 1\<rparr>) = others rf" by (rule others_cong) simp_all
  then show thesis
    using becomeLeader_total [OF ok] assms(1) that
    by (auto simp: VoteReturn_def Let_def split: if_splits)
qed

section \<open>Heartbeats\<close>

lemma raft_ok_Heartbeat:
  assumes "raft_ok rf"
  shows "raft_ok (fst (Heartbeat e args rf))"
proof (cases "hba_Term args < curTerm rf")
  case True
  then show ?thesis using assms by (simp add: Heartbeat_def)
next
  case False
  then show ?thesis
    using assms
    by (auto simp: Heartbeat_def Let_def raft_ok_def applied_ok_def timeout_ok_def persisted_def
        intro: order_trans)
qed

lemma Heartbeat_sel:
  assumes "Heartbeat e args rf = (rf', reply)"
  shows "npeers rf' = npeers rf" "me rf' = me rf" "rlog rf' = rlog rf"
    "commitIndex rf' = commitIndex rf" "applyCh rf' = applyCh rf" "lastApplied rf' = lastApplied rf"
    "curTerm rf' = max (hba_Term args) (curTerm rf)"
    "hbr_Status reply \<longleftrightarrow> curTerm rf \<le> hba_Term args"
    "hbr_Term reply = curTerm rf'"
    "vote_step rf rf'"
    "curTerm rf \<le> hba_Term args \<Longrightarrow> rstate rf' = follower"
    "hba_Term args < curTerm rf \<Longrightarrow> rf' = rf"
  using assms by (auto simp: Heartbeat_def Let_def vote_step_def split: if_splits)

lemma raft_ok_StartHeartbeat: "raft_ok rf \<Longrightarrow> raft_ok (fst (StartHeartbeat e rf))"
  by (simp add: StartHeartbeat_def Let_def raft_ok_heartbeat_clock)

lemma StartHeartbeat_eq:
  "StartHeartbeat e rf = (updateLastHeartbeatLocked e rf,
     map (\<lambda>p. BeatCall p \<lparr>hba_LeaderID = me rf, hba_Term = curTerm rf, hba_Entry = 0\<rparr> (curTerm rf))
       (others rf))"
proof -
  have "others (updateLastHeartbeatLocked e rf) = others rf" by (rule others_cong) simp_all
  then show ?thesis by (simp add: StartHeartbeat_def Let_def)
qed

lemma raft_ok_BeatReturn: "raft_ok rf \<Longrightarrow> raft_ok (fst (BeatReturn e p reply t rf))"
  by (simp add: BeatReturn_def raft_ok_stepDown)

lemma life_act_cases:
  assumes "life_act e sn rf = Some (rf', gs)"
  obtains (election) "StartElection e rf = Some (rf', gs)" | (idle) "rf' = rf" "gs = []"
    | (beat) "StartHeartbeat e rf = (rf', gs)"
proof -
  have "StartElection e rf = Some (rf', gs) \<or> (rf' = rf \<and> gs = []) \<or> StartHeartbeat e rf = (rf', gs)"
    using assms
    by (cases "sn_state sn"; cases "now e - sn_lastHeartbeat sn > sn_timeout sn")
      (simp_all add: life_act_def)
  then show thesis using that by blast
qed

lemma life_act_total:
  assumes "raft_ok rf"
  shows "\<exists>rf' gs. life_act e sn rf = Some (rf', gs) \<and> raft_ok rf'"
  using StartElection_total [OF assms, of e] raft_ok_StartHeartbeat [OF assms, of e] assms
  by (auto simp: life_act_def prod_eq_iff split: role.splits)

end
