(* ===== verification/Raft_Replication.thy ===== *)
theory Raft_Replication
  imports Raft_Election
begin

text \<open>
  Log replication (\<^verbatim>\<open>src/raft/raft.go\<close>): the handler \<^verbatim>\<open>AppendEntries\<close> with the merge
  \<^verbatim>\<open>syncLocked\<close>, the two critical sections of the loop of \<^verbatim>\<open>replicateTo\<close> (before and
  after the call), the commit rule \<^verbatim>\<open>tryAdvanceCommitLocked\<close>, \<^verbatim>\<open>Start\<close> and one round
  of the \<^verbatim>\<open>applier\<close>.
\<close>

section \<open>AppendEntries\<close>

text \<open>The skip loop of \<^verbatim>\<open>syncLocked\<close>: the first positions that do not match by term.\<close>

function sync_skip :: "'c LogEntry list \<Rightarrow> 'c LogEntry list \<Rightarrow> int \<Rightarrow> int \<Rightarrow> int \<times> int" where
  "sync_skip l entries i j =
     (if i < go_len l \<and> j < go_len entries \<and>
         le_Term (l ! nat i) = le_Term (entries ! nat j)
      then sync_skip l entries (i + 1) (j + 1)
      else (i, j))"
  by pat_completeness auto
termination
  by (relation "measure (\<lambda>(l, entries, i, j). nat (go_len l - i))") auto

declare sync_skip.simps [simp del]

definition syncLocked :: "int \<Rightarrow> 'c LogEntry list \<Rightarrow> 'c Raft \<Rightarrow> 'c Raft result" where
  "syncLocked startIndex entries rf =
     (if go_len entries = 0 then Some rf
      else
        let startIndex = (if startIndex < 0 then 0 else startIndex);
            startIndex = (if startIndex > go_len (rlog rf) then go_len (rlog rf) else startIndex);
            (i, j) = sync_skip (rlog rf) entries startIndex 0
        in do {
          kept \<leftarrow> go_upto (rlog rf) i;
          if j < go_len entries
          then do {
            suffix \<leftarrow> go_from entries j;
            Some (rf\<lparr>rlog := kept @ suffix\<rparr>)
          }
          else Some (rf\<lparr>rlog := kept\<rparr>)
        })"

text \<open>The search of \<^verbatim>\<open>AppendEntries\<close> for the first index of the conflicting term.\<close>

function conflict_first :: "'c Raft \<Rightarrow> int \<Rightarrow> int \<Rightarrow> int" where
  "conflict_first rf ct i =
     (if i > 0 \<and> termAtLocked (i - 1) rf = ct then conflict_first rf ct (i - 1) else i)"
  by pat_completeness auto
termination
  by (relation "measure (\<lambda>(rf, ct, i). nat i)") auto

declare conflict_first.simps [simp del]

definition AppendEntries ::
  "env \<Rightarrow> 'c AppendEntriesArgs \<Rightarrow> 'c Raft \<Rightarrow> ('c Raft \<times> AppendEntriesReply) result" where
  "AppendEntries e args rf =
     (let reply = \<lparr>aer_Term = curTerm rf, aer_Success = False,
                   aer_ConflictTerm = 0, aer_ConflictIndex = 0\<rparr>
      in if aea_Term args < curTerm rf then Some (rf, reply)
      else
        let rf = (if aea_Term args > curTerm rf then stepDownLocked e (aea_Term args) rf
                  else if rstate rf \<noteq> follower then rf\<lparr>rstate := follower\<rparr> else rf);
            rf = updateLastHeartbeatLocked e rf
        in if aea_PrevLogIndex args > lastLogIndexLocked rf
        then Some (rf, reply\<lparr>aer_ConflictTerm := -1,
                             aer_ConflictIndex := lastLogIndexLocked rf + 1\<rparr>)
        else if aea_PrevLogIndex args \<ge> 0 \<and>
                termAtLocked (aea_PrevLogIndex args) rf \<noteq> aea_PrevLogTerm args
        then let ct = termAtLocked (aea_PrevLogIndex args) rf
          in Some (rf, reply\<lparr>aer_ConflictTerm := ct,
                             aer_ConflictIndex := conflict_first rf ct (aea_PrevLogIndex args)\<rparr>)
        else do {
          rf \<leftarrow> syncLocked (aea_PrevLogIndex args + 1) (aea_Entries args) rf;
          let reply = reply\<lparr>aer_Success := True, aer_Term := curTerm rf\<rparr>;
          let rf = persist rf;
          let rf = (if aea_LeaderCommit args > commitIndex rf
                    then let mx = lastLogIndexLocked rf;
                             mx = (if aea_LeaderCommit args < mx then aea_LeaderCommit args else mx)
                         in rf\<lparr>commitIndex := mx\<rparr>
                    else rf);
          Some (rf, reply)
        })"

section \<open>Committing\<close>

text \<open>The inner loop of \<^verbatim>\<open>tryAdvanceCommitLocked\<close> over the peers.\<close>

fun count_match :: "'c Raft \<Rightarrow> int \<Rightarrow> int list \<Rightarrow> int \<Rightarrow> int result" where
  "count_match rf N [] count = Some count"
| "count_match rf N (i # is) count =
     (if i \<noteq> me rf
      then do {
        m \<leftarrow> go_index (matchIndex rf) i;
        count_match rf N is (if m \<ge> N then count + 1 else count)
      }
      else count_match rf N is count)"

function commit_loop :: "'c Raft \<Rightarrow> int \<Rightarrow> 'c Raft result" where
  "commit_loop rf N =
     (if N > commitIndex rf
      then do {
        entry \<leftarrow> go_index (rlog rf) N;
        if le_Term entry \<noteq> curTerm rf then commit_loop rf (N - 1)
        else do {
          count \<leftarrow> count_match rf N (go_range (npeers rf)) 1;
          if count > npeers rf div 2 then Some (rf\<lparr>commitIndex := N\<rparr>)
          else commit_loop rf (N - 1)
        }
      }
      else Some rf)"
  by pat_completeness auto
termination
  by (relation "measure (\<lambda>(rf, N). nat (N - commitIndex rf))") auto

declare commit_loop.simps [simp del]

definition tryAdvanceCommitLocked :: "'c Raft \<Rightarrow> ('c Raft \<times> 'c gort list) result" where
  "tryAdvanceCommitLocked rf =
     (let old = commitIndex rf
      in do {
        rf \<leftarrow> commit_loop rf (lastLogIndexLocked rf);
        if commitIndex rf > old
        then Some (rf, map (\<lambda>p. Repl [p] (curTerm rf)) (others rf))
        else Some (rf, [])
      })"

section \<open>replicateTo\<close>

text \<open>
  The first critical section of the loop: \<^const>\<open>None\<close> as the second component when the
  server is no longer the leader of \<open>leaderTerm\<close> and the method returns.
\<close>

definition replicate_send ::
  "int \<Rightarrow> int \<Rightarrow> 'c Raft \<Rightarrow> ('c Raft \<times> 'c AppendEntriesArgs option) result" where
  "replicate_send peer leaderTerm rf =
     (if rstate rf \<noteq> leader \<or> curTerm rf \<noteq> leaderTerm then Some (rf, None)
      else do {
        nxt \<leftarrow> go_index (nextIndex rf) peer;
        (nxt, rf) \<leftarrow> (if nxt < 1
          then do {
            nextI \<leftarrow> go_update (nextIndex rf) peer 1;
            Some (1, rf\<lparr>nextIndex := nextI\<rparr>)
          }
          else Some (nxt, rf));
        let prevIdx = nxt - 1;
        let prevTerm = termAtLocked prevIdx rf;
        entries \<leftarrow> go_from (rlog rf) nxt;
        Some (rf, Some \<lparr>aea_Term = curTerm rf, aea_LeaderID = me rf,
          aea_PrevLogIndex = prevIdx, aea_PrevLogTerm = prevTerm,
          aea_Entries = entries, aea_LeaderCommit = commitIndex rf\<rparr>)
      })"

text \<open>The search for the leader's last entry of the conflicting term, downwards from \<open>i\<close>.\<close>

function conflict_last :: "'c Raft \<Rightarrow> int \<Rightarrow> int \<Rightarrow> int result" where
  "conflict_last rf ct i =
     (if i \<ge> 1
      then do {
        entry \<leftarrow> go_index (rlog rf) i;
        if le_Term entry = ct then Some i
        else if le_Term entry < ct then Some (-1)
        else conflict_last rf ct (i - 1)
      }
      else Some (-1))"
  by pat_completeness auto
termination
  by (relation "measure (\<lambda>(rf, ct, i). nat i)") auto

declare conflict_last.simps [simp del]

text \<open>
  The second critical section, with the reply. The boolean says whether the loop goes
  round again.
\<close>

definition replicate_return ::
  "env \<Rightarrow> int \<Rightarrow> int \<Rightarrow> 'c AppendEntriesArgs \<Rightarrow> AppendEntriesReply \<Rightarrow> 'c Raft \<Rightarrow>
     ('c Raft \<times> bool \<times> 'c gort list) result" where
  "replicate_return e peer leaderTerm args reply rf =
     (if aer_Term reply > curTerm rf
      then Some (stepDownLocked e (aer_Term reply) rf, False, [])
      else if curTerm rf \<noteq> leaderTerm \<or> rstate rf \<noteq> leader then Some (rf, False, [])
      else if aer_Success reply then
        let matched = aea_PrevLogIndex args + go_len (aea_Entries args)
        in do {
          m \<leftarrow> go_index (matchIndex rf) peer;
          rf \<leftarrow> (if matched > m
            then do {
              matchI \<leftarrow> go_update (matchIndex rf) peer matched;
              nextI \<leftarrow> go_update (nextIndex rf) peer (matched + 1);
              Some (rf\<lparr>matchIndex := matchI, nextIndex := nextI\<rparr>)
            }
            else Some rf);
          (rf, gs) \<leftarrow> tryAdvanceCommitLocked rf;
          Some (rf, False, gs)
        }
      else do {
        nxt \<leftarrow> (if aer_ConflictTerm reply = -1 then Some (aer_ConflictIndex reply)
          else do {
            last \<leftarrow> conflict_last rf (aer_ConflictTerm reply) (lastLogIndexLocked rf);
            Some (if last \<noteq> -1 then last + 1 else aer_ConflictIndex reply)
          });
        nextI \<leftarrow> go_update (nextIndex rf) peer nxt;
        let rf = rf\<lparr>nextIndex := nextI\<rparr>;
        nxt \<leftarrow> go_index (nextIndex rf) peer;
        rf \<leftarrow> (if nxt < 1
          then do {
            nextI \<leftarrow> go_update (nextIndex rf) peer 1;
            Some (rf\<lparr>nextIndex := nextI\<rparr>)
          }
          else Some rf);
        Some (rf, True, [])
      })"

section \<open>Start and the applier\<close>

definition Start ::
  "'c option \<Rightarrow> 'c Raft \<Rightarrow> ('c Raft \<times> (int \<times> int \<times> bool) \<times> 'c gort list) result" where
  "Start command rf =
     (if rstate rf \<noteq> leader then Some (rf, (-1, curTerm rf, False), [])
      else
        let entry = \<lparr>le_Term = curTerm rf, le_Command = command\<rparr>;
            rf = rf\<lparr>rlog := rlog rf @ [entry]\<rparr>;
            index = go_len (rlog rf) - 1;
            t = curTerm rf;
            rf = persist rf
        in do {
          matchI \<leftarrow> go_update (matchIndex rf) (me rf) index;
          nextI \<leftarrow> go_update (nextIndex rf) (me rf) (index + 1);
          let rf = rf\<lparr>matchIndex := matchI, nextIndex := nextI\<rparr>;
          Some (rf, (index, t, True), map (\<lambda>p. Repl [p] t) (others rf))
        })"

text \<open>
  One turn of the inner loop of \<^verbatim>\<open>applier\<close>; the boolean is False where the loop breaks.
\<close>

definition apply_one :: "'c Raft \<Rightarrow> ('c Raft \<times> bool) result" where
  "apply_one rf =
     (if lastApplied rf \<ge> commitIndex rf then Some (rf, False)
      else
        let nxt = lastApplied rf + 1
        in if nxt \<ge> go_len (rlog rf) then Some (rf, False)
        else
          let rf = rf\<lparr>lastApplied := nxt\<rparr>; idx = lastApplied rf
          in do {
            entry \<leftarrow> go_index (rlog rf) idx;
            let msg = \<lparr>am_Index = idx, am_Command = le_Command entry,
                       am_UseSnapshot = False, am_Snapshot = []\<rparr>;
            Some (rf\<lparr>applyCh := applyCh rf @ [msg]\<rparr>, True)
          })"


section \<open>Merging a suffix into a log\<close>

text \<open>How many entries at the front of two lists agree by term.\<close>

fun matched_len :: "'c LogEntry list \<Rightarrow> 'c LogEntry list \<Rightarrow> nat" where
  "matched_len (x # xs) (y # ys) = (if le_Term x = le_Term y then Suc (matched_len xs ys) else 0)"
| "matched_len _ _ = 0"

lemma matched_len_le: "matched_len xs ys \<le> length xs" "matched_len xs ys \<le> length ys"
  by (induction xs ys rule: matched_len.induct) auto

lemma matched_len_terms:
  "map le_Term (take (matched_len xs ys) xs) = map le_Term (take (matched_len xs ys) ys)"
  by (induction xs ys rule: matched_len.induct) auto

lemma matched_len_full: "map le_Term xs = map le_Term ys \<Longrightarrow> matched_len xs ys = length ys"
  by (induction xs ys rule: matched_len.induct) auto

lemma sync_skip_eq:
  assumes "0 \<le> i" and "0 \<le> j"
  shows "sync_skip l es i j =
    (i + int (matched_len (drop (nat i) l) (drop (nat j) es)),
     j + int (matched_len (drop (nat i) l) (drop (nat j) es)))"
  using assms
proof (induction l es i j rule: sync_skip.induct)
  case (1 l es i j)
  let ?c = "i < go_len l \<and> j < go_len es \<and> le_Term (l ! nat i) = le_Term (es ! nat j)"
  have nl: "nat i < length l" if "i < go_len l" using that 1(2) by (simp add: go_len_def)
  have nj: "nat j < length es" if "j < go_len es" using that 1(3) by (simp add: go_len_def)
  show ?case
  proof (cases ?c)
    case True
    then have "drop (nat i) l = l ! nat i # drop (nat (i + 1)) l"
      and "drop (nat j) es = es ! nat j # drop (nat (j + 1)) es"
      using 1(2,3) nl nj by (simp_all add: Cons_nth_drop_Suc nat_add_distrib)
    with True 1 show ?thesis by (simp add: sync_skip.simps [of l es i j])
  next
    case False
    have "matched_len (drop (nat i) l) (drop (nat j) es) = 0"
    proof (cases "i < go_len l \<and> j < go_len es")
      case True
      then have "drop (nat i) l = l ! nat i # drop (Suc (nat i)) l"
        and "drop (nat j) es = es ! nat j # drop (Suc (nat j)) es"
        using nl nj by (simp_all add: Cons_nth_drop_Suc)
      with True False show ?thesis by simp
    next
      case F: False
      then have "drop (nat i) l = [] \<or> drop (nat j) es = []"
        by (auto simp: go_len_def)
      then show ?thesis by auto
    qed
    moreover have "sync_skip l es i j = (i, j)"
      by (simp only: sync_skip.simps [of l es i j] False if_False)
    ultimately show ?thesis by simp
  qed
qed

text \<open>
  The merge as a function on logs: keep the first \<open>p\<close> entries and those that match by term,
  then continue with the rest of the new entries. Everything after the last matching
  entry of the old log is dropped, even when all new entries matched.
\<close>

definition merge_log :: "nat \<Rightarrow> 'c LogEntry list \<Rightarrow> 'c LogEntry list \<Rightarrow> 'c LogEntry list" where
  "merge_log p es l =
     (if es = [] then l
      else take (p + matched_len (drop p l) es) l @ drop (matched_len (drop p l) es) es)"

lemma syncLocked_eq:
  assumes "0 \<le> s" and "s \<le> go_len (rlog rf)"
  shows "syncLocked s es rf = Some (rf\<lparr>rlog := merge_log (nat s) es (rlog rf)\<rparr>)"
proof (cases "es = []")
  case True
  then show ?thesis by (simp add: syncLocked_def merge_log_def)
next
  case False
  let ?k = "matched_len (drop (nat s) (rlog rf)) es"
  have k: "?k \<le> length (rlog rf) - nat s" "?k \<le> length es"
    using matched_len_le [of "drop (nat s) (rlog rf)" es] by simp_all
  have skip: "sync_skip (rlog rf) es s 0 = (s + int ?k, int ?k)"
    using sync_skip_eq [of s 0 "rlog rf" es] assms by simp
  have le: "s + int ?k \<le> go_len (rlog rf)"
    using k(1) assms by (simp add: go_len_def)
  have take: "go_upto (rlog rf) (s + int ?k) = Some (take (nat s + ?k) (rlog rf))"
    using le assms by (simp add: go_upto_in nat_add_distrib)
  have "go_from es (int ?k) = Some (drop ?k es)"
    using k(2) by (simp add: go_from_in go_len_def)
  moreover have "drop ?k es = []" if "\<not> int ?k < go_len es"
    using that by (simp add: go_len_def)
  ultimately show ?thesis
    using False assms skip take go_len_pos [of es] by (auto simp: syncLocked_def Let_def merge_log_def)
qed

lemma merge_log_terms:
  assumes "es \<noteq> []" and "p \<le> length l"
  shows "map le_Term (merge_log p es l) = map le_Term (take p l) @ map le_Term es"
proof -
  let ?k = "matched_len (drop p l) es"
  have "map le_Term (take (p + ?k) l) = map le_Term (take p l) @ map le_Term (take ?k (drop p l))"
    by (simp add: take_add)
  also have "map le_Term (take ?k (drop p l)) = map le_Term (take ?k es)"
    by (rule matched_len_terms)
  finally have "map le_Term (take (p + ?k) l) @ map le_Term (drop ?k es) =
      map le_Term (take p l) @ map le_Term (take ?k es @ drop ?k es)"
    by (simp only: append_assoc map_append)
  then show ?thesis
    using assms(1) by (simp add: merge_log_def)
qed

lemma merge_log_length:
  "es \<noteq> [] \<Longrightarrow> p \<le> length l \<Longrightarrow> length (merge_log p es l) = p + length es"
  using arg_cong [OF merge_log_terms [of es p l], of length] by simp

lemma merge_log_prefix: "k \<le> p \<Longrightarrow> p \<le> length l \<Longrightarrow> take k (merge_log p es l) = take k l"
  by (auto simp: merge_log_def min_def)

lemma merge_log_set: "set (merge_log p es l) \<subseteq> set l \<union> set es"
  by (auto simp: merge_log_def dest: in_set_takeD in_set_dropD)

text \<open>
  Where entries of equal index and term are equal, the merge installs the new suffix.
\<close>

lemma matched_len_equal:
  assumes "\<And>k. k < length xs \<Longrightarrow> k < length ys \<Longrightarrow> le_Term (xs ! k) = le_Term (ys ! k) \<Longrightarrow> xs ! k = ys ! k"
  shows "take (matched_len xs ys) xs = take (matched_len xs ys) ys"
proof (intro nth_equalityI)
  let ?k = "matched_len xs ys"
  show "length (take ?k xs) = length (take ?k ys)"
    using matched_len_le [of xs ys] by simp
  fix i assume "i < length (take ?k xs)"
  then have i: "i < ?k" "i < length xs" "i < length ys"
    using matched_len_le [of xs ys] by simp_all
  have "map le_Term (take ?k xs) ! i = map le_Term (take ?k ys) ! i"
    using matched_len_terms [of xs ys] by metis
  then have "le_Term (xs ! i) = le_Term (ys ! i)" using i by simp
  then show "take ?k xs ! i = take ?k ys ! i" using i assms by simp
qed

lemma merge_log_installs:
  assumes "es \<noteq> []" and "p \<le> length l"
    and "\<And>k. p + k < length l \<Longrightarrow> k < length es \<Longrightarrow>
      le_Term (l ! (p + k)) = le_Term (es ! k) \<Longrightarrow> l ! (p + k) = es ! k"
  shows "merge_log p es l = take p l @ es"
proof -
  let ?k = "matched_len (drop p l) es"
  have "take ?k (drop p l) = take ?k es"
    using assms(2,3) by (intro matched_len_equal) auto
  then show ?thesis using assms(1) by (simp add: merge_log_def take_add)
qed

lemma log_ok_merge:
  assumes "log_ok l" and "0 < p" and "p \<le> length l"
    and "sorted (map le_Term (l ! (p - 1) # es))"
  shows "log_ok (merge_log p es l)"
proof (cases "es = []")
  case True
  with assms show ?thesis by (simp add: merge_log_def)
next
  case False
  have ok: "log_ok (take p l)" using assms(1,2) by (rule log_ok_take)
  have last: "last (take p l) = l ! (p - 1)"
    using assms(2,3) by (subst last_conv_nth) auto
  have le: "le_Term x \<le> le_Term y" if "x \<in> set (take p l)" "y \<in> set es" for x y
  proof -
    from that(1) obtain k where k: "k < p" "x = l ! k"
      using assms(3) by (auto simp: in_set_conv_nth)
    then have "le_Term x \<le> le_Term (l ! (p - 1))"
      using log_ok_nth_mono [OF assms(1), of k "p - 1"] assms(2,3) by simp
    then show ?thesis using assms(4) that(2) by auto
  qed
  have "sorted (map le_Term (merge_log p es l))"
    using ok assms(4) le by (auto simp: merge_log_terms [OF False assms(3)] log_ok_def sorted_append)
  moreover have "hd (merge_log p es l) = hd l"
  proof -
    have "take 1 (merge_log p es l) = take 1 l"
      using assms(2,3) by (intro merge_log_prefix) auto
    then show ?thesis
      using assms(1,2,3) merge_log_length [OF False assms(3)]
      by (cases l; cases "merge_log p es l") (auto simp: log_ok_def)
  qed
  moreover have "merge_log p es l \<noteq> []"
    using merge_log_length [OF False assms(3)] False by auto
  ultimately show ?thesis using assms(1) by (simp add: log_ok_def)
qed


section \<open>The handler AppendEntries\<close>

text \<open>The follower after the term check: it adopts the term and is a follower.\<close>

definition demote :: "env \<Rightarrow> int \<Rightarrow> 'c Raft \<Rightarrow> 'c Raft" where
  "demote e t rf = updateLastHeartbeatLocked e
     (if t > curTerm rf then stepDownLocked e t rf
      else if rstate rf \<noteq> follower then rf\<lparr>rstate := follower\<rparr> else rf)"

lemma demote_sel [simp]:
  "npeers (demote e t rf) = npeers rf" "me (demote e t rf) = me rf" "rlog (demote e t rf) = rlog rf"
  "commitIndex (demote e t rf) = commitIndex rf" "applyCh (demote e t rf) = applyCh rf"
  "lastApplied (demote e t rf) = lastApplied rf" "curTerm (demote e t rf) = max t (curTerm rf)"
  "votedFor (demote e t rf) = (if t > curTerm rf then -1 else votedFor rf)"
  "rstate (demote e t rf) = follower"
  "lastLogIndexLocked (demote e t rf) = lastLogIndexLocked rf"
  "termAtLocked i (demote e t rf) = termAtLocked i rf"
  by (simp_all add: demote_def lastLogIndexLocked_def termAtLocked_def)

lemma raft_ok_demote: "raft_ok rf \<Longrightarrow> raft_ok (demote e t rf)"
proof -
  assume ok: "raft_ok rf"
  then have "raft_ok (rf\<lparr>rstate := follower\<rparr>)"
    by (simp add: raft_ok_def applied_ok_def timeout_ok_def persisted_def)
  with ok show ?thesis
    by (simp add: demote_def raft_ok_stepDown raft_ok_heartbeat_clock)
qed

lemma conflict_first_demote [simp]: "conflict_first (demote e t rf) ct i = conflict_first rf ct i"
proof (induction rf ct i rule: conflict_first.induct)
  case (1 rf ct i)
  then show ?case
    by (simp add: conflict_first.simps [of "demote e t rf" ct i] conflict_first.simps [of rf ct i])
qed

lemma conflict_first_bounds: "0 \<le> i \<Longrightarrow> 0 \<le> conflict_first rf ct i \<and> conflict_first rf ct i \<le> i"
proof (induction rf ct i rule: conflict_first.induct)
  case (1 rf ct i)
  show ?case
  proof (cases "i > 0 \<and> termAtLocked (i - 1) rf = ct")
    case True
    with 1 show ?thesis by (simp add: conflict_first.simps [of rf ct i])
  next
    case False
    with 1(2) show ?thesis by (auto simp: conflict_first.simps [of rf ct i])
  qed
qed

text \<open>
  All indices from the one found up to the one searched from have the conflicting term, and
  the index before it, if any, has another term.
\<close>

lemma conflict_first_least:
  "termAtLocked i rf = ct \<Longrightarrow> conflict_first rf ct i \<le> k \<Longrightarrow> k \<le> i \<Longrightarrow> termAtLocked k rf = ct"
proof (induction rf ct i rule: conflict_first.induct)
  case (1 rf ct i)
  show ?case
  proof (cases "i > 0 \<and> termAtLocked (i - 1) rf = ct")
    case True
    then have eq: "conflict_first rf ct i = conflict_first rf ct (i - 1)"
      by (simp add: conflict_first.simps [of rf ct i])
    show ?thesis
    proof (cases "k = i")
      case False
      with True eq 1 show ?thesis by simp
    qed (use 1(2) in simp)
  next
    case False
    then have "conflict_first rf ct i = i" by (auto simp: conflict_first.simps [of rf ct i])
    with 1 show ?thesis by simp
  qed
qed

lemma conflict_first_stop:
  "conflict_first rf ct i > 0 \<Longrightarrow> termAtLocked (conflict_first rf ct i - 1) rf \<noteq> ct"
proof (induction rf ct i rule: conflict_first.induct)
  case (1 rf ct i)
  then show ?case by (auto simp: conflict_first.simps [of rf ct i] split: if_splits)
qed

text \<open>The outcome of the consistency check.\<close>

definition consistent :: "'c AppendEntriesArgs \<Rightarrow> 'c Raft \<Rightarrow> bool" where
  "consistent args rf \<longleftrightarrow> aea_PrevLogIndex args < go_len (rlog rf) \<and>
     termAtLocked (aea_PrevLogIndex args) rf = aea_PrevLogTerm args"

text \<open>The state after a successful call.\<close>

definition appended :: "env \<Rightarrow> 'c AppendEntriesArgs \<Rightarrow> 'c Raft \<Rightarrow> 'c Raft" where
  "appended e args rf =
     (let l = merge_log (nat (aea_PrevLogIndex args + 1)) (aea_Entries args) (rlog rf);
          rf' = persist (demote e (aea_Term args) rf\<lparr>rlog := l\<rparr>)
      in if aea_LeaderCommit args > commitIndex rf
         then rf'\<lparr>commitIndex := min (aea_LeaderCommit args) (go_len l - 1)\<rparr> else rf')"

text \<open>The four outcomes of a call whose previous index is not negative.\<close>

lemma AppendEntries_eq:
  assumes "0 \<le> aea_PrevLogIndex args"
  shows "AppendEntries e args rf =
    (if aea_Term args < curTerm rf
     then Some (rf, \<lparr>aer_Term = curTerm rf, aer_Success = False, aer_ConflictTerm = 0,
                     aer_ConflictIndex = 0\<rparr>)
     else if go_len (rlog rf) \<le> aea_PrevLogIndex args
     then Some (demote e (aea_Term args) rf, \<lparr>aer_Term = curTerm rf, aer_Success = False,
                  aer_ConflictTerm = -1, aer_ConflictIndex = go_len (rlog rf)\<rparr>)
     else if consistent args rf
     then Some (appended e args rf, \<lparr>aer_Term = aea_Term args, aer_Success = True,
                  aer_ConflictTerm = 0, aer_ConflictIndex = 0\<rparr>)
     else Some (demote e (aea_Term args) rf, \<lparr>aer_Term = curTerm rf, aer_Success = False,
                  aer_ConflictTerm = termAtLocked (aea_PrevLogIndex args) rf,
                  aer_ConflictIndex = conflict_first rf (termAtLocked (aea_PrevLogIndex args) rf)
                    (aea_PrevLogIndex args)\<rparr>))"
proof -
  let ?d = "demote e (aea_Term args) rf"
  let ?p = "aea_PrevLogIndex args"
  have fold: "updateLastHeartbeatLocked e
     (if curTerm rf < aea_Term args then stepDownLocked e (aea_Term args) rf
      else if rstate rf \<noteq> follower then rf\<lparr>rstate := follower\<rparr> else rf) = ?d"
    by (simp add: demote_def)
  have sync: "syncLocked (?p + 1) (aea_Entries args) ?d =
      Some (?d\<lparr>rlog := merge_log (nat (?p + 1)) (aea_Entries args) (rlog rf)\<rparr>)"
    if "?p < go_len (rlog rf)"
    using that assms syncLocked_eq [of "?p + 1" ?d "aea_Entries args"] by simp
  consider "aea_Term args < curTerm rf"
    | "curTerm rf \<le> aea_Term args" "go_len (rlog rf) \<le> ?p"
    | "curTerm rf \<le> aea_Term args" "?p < go_len (rlog rf)" "consistent args rf"
    | "curTerm rf \<le> aea_Term args" "?p < go_len (rlog rf)" "\<not> consistent args rf"
    by linarith
  then show ?thesis
  proof cases
    case 1
    then show ?thesis by (simp add: AppendEntries_def Let_def)
  next
    case 2
    then show ?thesis
      unfolding AppendEntries_def Let_def fold by (simp add: lastLogIndexLocked_def)
  next
    case 3
    then show ?thesis
      unfolding AppendEntries_def Let_def fold
      by (auto simp: sync consistent_def appended_def Let_def lastLogIndexLocked_def min_def)
  next
    case 4
    then show ?thesis
      unfolding AppendEntries_def Let_def fold
      using assms by (simp add: consistent_def lastLogIndexLocked_def)
  qed
qed

text \<open>
  What every request in flight satisfies: its entries continue the entry at the previous
  index with terms that do not decrease and do not exceed the sender's term.
\<close>

definition args_ok :: "'c AppendEntriesArgs \<Rightarrow> bool" where
  "args_ok args \<longleftrightarrow> 0 \<le> aea_PrevLogIndex args \<and>
     sorted (aea_PrevLogTerm args # map le_Term (aea_Entries args)) \<and>
     aea_PrevLogTerm args \<le> aea_Term args \<and> (\<forall>x \<in> set (aea_Entries args). le_Term x \<le> aea_Term args)"

lemma appended_sel [simp]:
  "npeers (appended e args rf) = npeers rf" "me (appended e args rf) = me rf"
  "rlog (appended e args rf) =
     merge_log (nat (aea_PrevLogIndex args + 1)) (aea_Entries args) (rlog rf)"
  "applyCh (appended e args rf) = applyCh rf" "lastApplied (appended e args rf) = lastApplied rf"
  "curTerm (appended e args rf) = max (aea_Term args) (curTerm rf)"
  "votedFor (appended e args rf) = (if aea_Term args > curTerm rf then -1 else votedFor rf)"
  "rstate (appended e args rf) = follower"
  "electionTimeout (appended e args rf) = electionTimeout (demote e (aea_Term args) rf)"
  "commitIndex (appended e args rf) = (if aea_LeaderCommit args > commitIndex rf
     then min (aea_LeaderCommit args) (go_len (rlog (appended e args rf)) - 1) else commitIndex rf)"
  by (simp_all add: appended_def Let_def)

lemma persisted_appended: "persisted (appended e args rf)"
  by (simp add: persisted_def appended_def Let_def)

lemma log_ok_appended:
  assumes "log_ok (rlog rf)" and "args_ok args" and "consistent args rf"
  shows "log_ok (rlog (appended e args rf))"
proof -
  let ?p = "aea_PrevLogIndex args"
  have p: "0 \<le> ?p" "?p < go_len (rlog rf)" "nat (?p + 1) = Suc (nat ?p)"
    using assms(2,3) by (auto simp: args_ok_def consistent_def)
  then have "le_Term (rlog rf ! nat ?p) = aea_PrevLogTerm args"
    using assms(1,3) by (simp add: consistent_def termAt_in)
  then show ?thesis
    using assms(1,2) p
    by (auto simp: args_ok_def go_len_def intro!: log_ok_merge)
qed

lemma raft_ok_appended:
  assumes "raft_ok rf" and "args_ok args" and "consistent args rf" and "curTerm rf \<le> aea_Term args"
  shows "raft_ok (appended e args rf)"
proof -
  let ?l = "rlog (appended e args rf)"
  have l: "log_ok ?l" using assms(1-3) by (intro log_ok_appended raft_okD(5))
  then have "0 < go_len ?l" by (simp add: go_len_pos log_ok_def)
  moreover have "timeout_ok (appended e args rf)"
    using raft_ok_demote [OF assms(1), of e "aea_Term args"] by (simp add: raft_ok_def timeout_ok_def)
  moreover have "le_Term x \<le> aea_Term args" if "x \<in> set ?l" for x
  proof -
    from that have "x \<in> set (rlog rf) \<union> set (aea_Entries args)"
      using subsetD [OF merge_log_set] by fastforce
    then show ?thesis using assms by (auto simp: raft_ok_def args_ok_def)
  qed
  ultimately show ?thesis
    using assms(1,4) l persisted_appended [of e args rf]
    by (auto simp: raft_ok_def applied_ok_def)
qed

lemma AppendEntries_total:
  assumes "raft_ok rf" and "args_ok args"
  shows "\<exists>rf' reply. AppendEntries e args rf = Some (rf', reply) \<and> raft_ok rf' \<and>
    aer_ConflictIndex reply \<le> aea_PrevLogIndex args"
  using assms conflict_first_bounds [of "aea_PrevLogIndex args" rf]
  by (auto simp: AppendEntries_eq args_ok_def raft_ok_demote intro!: raft_ok_appended)

lemma AppendEntries_frame:
  assumes "AppendEntries e args rf = Some (rf', reply)" and "0 \<le> aea_PrevLogIndex args"
  shows "npeers rf' = npeers rf" "me rf' = me rf" "applyCh rf' = applyCh rf"
    "lastApplied rf' = lastApplied rf" "curTerm rf' = max (aea_Term args) (curTerm rf)"
    "vote_step rf rf'"
    "aea_Term args < curTerm rf \<Longrightarrow> rf' = rf"
    "curTerm rf \<le> aea_Term args \<Longrightarrow> rstate rf' = follower"
    "aer_Success reply \<longleftrightarrow> curTerm rf \<le> aea_Term args \<and> consistent args rf"
    "\<not> aer_Success reply \<Longrightarrow> rlog rf' = rlog rf \<and> commitIndex rf' = commitIndex rf"
    "aer_Success reply \<Longrightarrow> rf' = appended e args rf"
    "aer_Success reply \<Longrightarrow> aer_Term reply = aea_Term args"
    "\<not> aer_Success reply \<Longrightarrow> aer_Term reply = curTerm rf"
  using assms(1)
  by (auto simp: AppendEntries_eq [OF assms(2)] vote_step_def consistent_def split: if_splits)


section \<open>The commit rule\<close>

text \<open>The servers known to hold the leader's entry at index \<open>N\<close>.\<close>

definition holders :: "'c Raft \<Rightarrow> int \<Rightarrow> int set" where
  "holders rf N = {i. i = me rf \<or> (in_range (matchIndex rf) i \<and> matchIndex rf ! nat i \<ge> N)}"

text \<open>An index may be committed: an entry of the leader's own term on a majority.\<close>

definition commit_ready :: "'c Raft \<Rightarrow> int \<Rightarrow> bool" where
  "commit_ready rf N \<longleftrightarrow> in_range (rlog rf) N \<and> le_Term (rlog rf ! nat N) = curTerm rf \<and>
     majority (npeers rf) (holders rf N)"

lemma count_match_eq:
  assumes "\<forall>i \<in> set is. in_range (matchIndex rf) i"
  shows "count_match rf N is c =
    Some (c + int (length (filter (\<lambda>i. i \<noteq> me rf \<and> matchIndex rf ! nat i \<ge> N) is)))"
  using assms by (induction "is" arbitrary: c) (auto simp: go_index_in)

lemma count_match_majority:
  assumes "go_len (matchIndex rf) = npeers rf" and "0 \<le> me rf" and "me rf < npeers rf"
  shows "\<exists>c. count_match rf N (go_range (npeers rf)) 1 = Some c \<and>
    (npeers rf div 2 < c \<longleftrightarrow> majority (npeers rf) (holders rf N))"
proof -
  let ?P = "\<lambda>i. i \<noteq> me rf \<and> matchIndex rf ! nat i \<ge> N"
  let ?xs = "filter ?P (go_range (npeers rf))"
  have rng: "\<forall>i \<in> set (go_range (npeers rf)). in_range (matchIndex rf) i"
    using assms(1) by (simp add: in_range_def)
  have "holders rf N \<inter> {0..<npeers rf} = insert (me rf) (set ?xs)"
    using assms by (auto simp: holders_def in_range_def)
  moreover have "card (insert (me rf) (set ?xs)) = Suc (card (set ?xs))"
    by (rule card_insert_disjoint [OF List.finite_set]) simp
  moreover have "card (set ?xs) = length ?xs" by (rule distinct_card) simp
  ultimately have "card (holders rf N \<inter> {0..<npeers rf}) = Suc (length ?xs)" by argo
  then show ?thesis
    using count_match_eq [OF rng, of N 1] assms(2,3) by (auto simp: majority_def)
qed

text \<open>
  The loop returns, and sets the commit index to the greatest index above the old one that
  may be committed; it leaves the state alone if there is none.
\<close>

lemma commit_loop_spec:
  assumes "go_len (matchIndex rf) = npeers rf" and "0 \<le> me rf" and "me rf < npeers rf"
    and "0 \<le> commitIndex rf" and "N < go_len (rlog rf)"
  shows "\<exists>c. commit_loop rf N = Some (rf\<lparr>commitIndex := c\<rparr>) \<and>
    (c = commitIndex rf \<or> commitIndex rf < c \<and> c \<le> N \<and> commit_ready rf c) \<and>
    (\<forall>k. c < k \<and> k \<le> N \<longrightarrow> \<not> commit_ready rf k)"
  using assms
proof (induction rf N rule: commit_loop.induct)
  case (1 rf N)
  note prems = 1(3-7)
  show ?case
  proof (cases "N > commitIndex rf")
    case False
    then have "commit_loop rf N = Some (rf\<lparr>commitIndex := commitIndex rf\<rparr>)"
      by (simp add: commit_loop.simps [of rf N])
    moreover have "\<forall>k. commitIndex rf < k \<and> k \<le> N \<longrightarrow> \<not> commit_ready rf k" using False by auto
    ultimately show ?thesis by blast
  next
    case True
    then have rng: "in_range (rlog rf) N" using prems by (simp add: in_range_def)
    let ?e = "rlog rf ! nat N"
    obtain cnt where cnt: "count_match rf N (go_range (npeers rf)) 1 = Some cnt"
      "npeers rf div 2 < cnt \<longleftrightarrow> majority (npeers rf) (holders rf N)"
      using count_match_majority [OF prems(1-3)] by blast
    show ?thesis
    proof (cases "commit_ready rf N")
      case ready: True
      then have "commit_loop rf N = Some (rf\<lparr>commitIndex := N\<rparr>)"
        using True rng cnt by (simp add: commit_loop.simps [of rf N] go_index_in commit_ready_def)
      then show ?thesis using ready True by (intro exI [of _ N]) auto
    next
      case notready: False
      then have eq: "commit_loop rf N = commit_loop rf (N - 1)"
        using True rng cnt by (auto simp: commit_loop.simps [of rf N] go_index_in commit_ready_def)
      have "\<exists>c. commit_loop rf (N - 1) = Some (rf\<lparr>commitIndex := c\<rparr>) \<and>
        (c = commitIndex rf \<or> commitIndex rf < c \<and> c \<le> N - 1 \<and> commit_ready rf c) \<and>
        (\<forall>k. c < k \<and> k \<le> N - 1 \<longrightarrow> \<not> commit_ready rf k)"
      proof (cases "le_Term ?e = curTerm rf")
        case False
        show ?thesis
          by (rule 1(1) [of ?e]) (use True rng False prems in \<open>auto simp: go_index_in\<close>)
      next
        case same: True
        show ?thesis
          by (rule 1(2) [of ?e cnt])
            (use True rng same prems cnt notready in \<open>auto simp: go_index_in commit_ready_def\<close>)
      qed
      then obtain c where c: "commit_loop rf (N - 1) = Some (rf\<lparr>commitIndex := c\<rparr>)"
        "c = commitIndex rf \<or> commitIndex rf < c \<and> c \<le> N - 1 \<and> commit_ready rf c"
        "\<forall>k. c < k \<and> k \<le> N - 1 \<longrightarrow> \<not> commit_ready rf k" by blast
      have "\<not> commit_ready rf k" if "c < k" "k \<le> N" for k
        using that c(3) notready by (cases "k = N") auto
      with c eq show ?thesis by (intro exI [of _ c]) auto
    qed
  qed
qed

lemma tryAdvance_total:
  assumes "raft_ok rf" and "leader_ok rf"
  obtains c gs where "tryAdvanceCommitLocked rf = Some (rf\<lparr>commitIndex := c\<rparr>, gs)"
    "c = commitIndex rf \<or> commitIndex rf < c \<and> c < go_len (rlog rf) \<and> commit_ready rf c"
    "\<And>k. c < k \<Longrightarrow> k < go_len (rlog rf) \<Longrightarrow> \<not> commit_ready rf k"
    "gs = (if c > commitIndex rf then map (\<lambda>p. Repl [p] (curTerm rf)) (others rf) else [])"
proof -
  have "0 \<le> commitIndex rf" using raft_okD(8) [OF assms(1)] by (simp add: applied_ok_def)
  then obtain c where c: "commit_loop rf (lastLogIndexLocked rf) = Some (rf\<lparr>commitIndex := c\<rparr>)"
    "c = commitIndex rf \<or> commitIndex rf < c \<and> c \<le> lastLogIndexLocked rf \<and> commit_ready rf c"
    "\<forall>k. c < k \<and> k \<le> lastLogIndexLocked rf \<longrightarrow> \<not> commit_ready rf k"
    using commit_loop_spec [of rf "lastLogIndexLocked rf"] assms(2) raft_okD(1,2) [OF assms(1)]
    by (auto simp: leader_ok_def lastLogIndexLocked_def)
  have "others (rf\<lparr>commitIndex := c\<rparr>) = others rf" by (rule others_cong) simp_all
  then have "tryAdvanceCommitLocked rf = Some (rf\<lparr>commitIndex := c\<rparr>,
      if c > commitIndex rf then map (\<lambda>p. Repl [p] (curTerm rf)) (others rf) else [])"
    using c(1) by (simp add: tryAdvanceCommitLocked_def Let_def)
  with c show thesis by (intro that) (auto simp: lastLogIndexLocked_def)
qed

section \<open>Sending and receiving in replicateTo\<close>

lemma leader_ok_nth:
  assumes "leader_ok rf" and "0 \<le> p" and "p < npeers rf"
  shows "in_range (nextIndex rf) p" "in_range (matchIndex rf) p"
    "1 \<le> nextIndex rf ! nat p" "nextIndex rf ! nat p \<le> go_len (rlog rf)"
    "0 \<le> matchIndex rf ! nat p" "matchIndex rf ! nat p < go_len (rlog rf)"
proof -
  show r: "in_range (nextIndex rf) p" "in_range (matchIndex rf) p"
    using assms by (auto simp: leader_ok_def in_range_def)
  then have "nextIndex rf ! nat p \<in> set (nextIndex rf)" "matchIndex rf ! nat p \<in> set (matchIndex rf)"
    by (auto simp: in_range_nat)
  then show "1 \<le> nextIndex rf ! nat p" "nextIndex rf ! nat p \<le> go_len (rlog rf)"
    "0 \<le> matchIndex rf ! nat p" "matchIndex rf ! nat p < go_len (rlog rf)"
    using assms(1) by (auto simp: leader_ok_def)
qed

text \<open>The request a leader sends to a peer: its log from the peer's next index on.\<close>

definition request :: "int \<Rightarrow> 'c Raft \<Rightarrow> 'c AppendEntriesArgs" where
  "request p rf = \<lparr>aea_Term = curTerm rf, aea_LeaderID = me rf,
     aea_PrevLogIndex = nextIndex rf ! nat p - 1,
     aea_PrevLogTerm = le_Term (rlog rf ! nat (nextIndex rf ! nat p - 1)),
     aea_Entries = drop (nat (nextIndex rf ! nat p)) (rlog rf),
     aea_LeaderCommit = commitIndex rf\<rparr>"

lemma replicate_send_eq:
  assumes "raft_ok rf" and "0 \<le> p" and "p < npeers rf"
  shows "replicate_send p t rf = Some (rf,
    if rstate rf = leader \<and> curTerm rf = t then Some (request p rf) else None)"
proof (cases "rstate rf = leader \<and> curTerm rf = t")
  case True
  then have "leader_ok rf" using assms(1) by (simp add: raft_ok_def)
  note n = leader_ok_nth [OF this assms(2,3)]
  have "termAtLocked (nextIndex rf ! nat p - 1) rf = le_Term (rlog rf ! nat (nextIndex rf ! nat p - 1))"
    using n raft_okD(5) [OF assms(1)] by (intro termAt_in) auto
  with True n show ?thesis
    by (simp add: replicate_send_def go_index_in go_from_in request_def Let_def)
qed (auto simp: replicate_send_def)

lemma request_ok:
  assumes "raft_ok rf" and "leader_ok rf" and "0 \<le> p" and "p < npeers rf"
  shows "args_ok (request p rf)"
    "aea_PrevLogIndex (request p rf) + go_len (aea_Entries (request p rf)) = go_len (rlog rf) - 1"
proof -
  let ?n = "nextIndex rf ! nat p"
  note n = leader_ok_nth [OF assms(2-4)]
  have nn: "nat (?n - 1) < length (rlog rf)" "Suc (nat (?n - 1)) = nat ?n"
    using n by (auto simp: go_len_def)
  have "drop (nat (?n - 1)) (rlog rf) = rlog rf ! nat (?n - 1) # drop (nat ?n) (rlog rf)"
    using Cons_nth_drop_Suc [OF nn(1)] nn(2) by simp
  moreover have "sorted (drop (nat (?n - 1)) (map le_Term (rlog rf)))"
    using raft_okD(5) [OF assms(1)] by (simp add: log_ok_def sorted_wrt_drop)
  ultimately have "sorted (le_Term (rlog rf ! nat (?n - 1)) # map le_Term (drop (nat ?n) (rlog rf)))"
    by (simp add: drop_map)
  moreover have "rlog rf ! nat (?n - 1) \<in> set (rlog rf)" using nn(1) by simp
  ultimately show "args_ok (request p rf)"
    using assms(1) n by (auto simp: args_ok_def request_def raft_ok_def dest: in_set_dropD)
  show "aea_PrevLogIndex (request p rf) + go_len (aea_Entries (request p rf)) = go_len (rlog rf) - 1"
    using n by (simp add: request_def go_len_def)
qed

text \<open>
  The backward search returns, with the leader's last index of the conflicting term or
  \<open>-1\<close>; since the terms of the log do not decrease, stopping at a smaller term loses
  nothing.
\<close>

lemma conflict_last_spec:
  assumes "log_ok (rlog rf)" and "i < go_len (rlog rf)"
  shows "\<exists>r. conflict_last rf ct i = Some r \<and>
    (r = -1 \<and> (\<forall>k. 1 \<le> k \<and> k \<le> i \<longrightarrow> le_Term (rlog rf ! nat k) \<noteq> ct) \<or>
     1 \<le> r \<and> r \<le> i \<and> le_Term (rlog rf ! nat r) = ct \<and>
       (\<forall>k. r < k \<and> k \<le> i \<longrightarrow> le_Term (rlog rf ! nat k) \<noteq> ct))"
  using assms
proof (induction rf ct i rule: conflict_last.induct)
  case (1 rf ct i)
  show ?case
  proof (cases "i \<ge> 1")
    case False
    then show ?thesis by (simp add: conflict_last.simps [of rf ct i])
  next
    case True
    then have rng: "in_range (rlog rf) i" using 1(3) by (simp add: in_range_def)
    have step: "conflict_last rf ct i = (if le_Term (rlog rf ! nat i) = ct then Some i
        else if le_Term (rlog rf ! nat i) < ct then Some (-1) else conflict_last rf ct (i - 1))"
      using True rng by (simp add: conflict_last.simps [of rf ct i] go_index_in)
    consider (eq) "le_Term (rlog rf ! nat i) = ct" | (lt) "le_Term (rlog rf ! nat i) < ct"
      | (gt) "le_Term (rlog rf ! nat i) > ct" by linarith
    then show ?thesis
    proof cases
      case eq
      with step True show ?thesis by auto
    next
      case lt
      have "le_Term (rlog rf ! nat k) \<noteq> ct" if "1 \<le> k" "k \<le> i" for k
        using log_ok_nth_mono [OF 1(2), of "nat k" "nat i"] rng that lt
        by (auto simp: in_range_nat nat_mono)
      with step lt show ?thesis by auto
    next
      case gt
      then have eq: "conflict_last rf ct i = conflict_last rf ct (i - 1)" using step by auto
      obtain r where r: "conflict_last rf ct (i - 1) = Some r"
        "r = -1 \<and> (\<forall>k. 1 \<le> k \<and> k \<le> i - 1 \<longrightarrow> le_Term (rlog rf ! nat k) \<noteq> ct) \<or>
         1 \<le> r \<and> r \<le> i - 1 \<and> le_Term (rlog rf ! nat r) = ct \<and>
           (\<forall>k. r < k \<and> k \<le> i - 1 \<longrightarrow> le_Term (rlog rf ! nat k) \<noteq> ct)"
        using 1(1) [of "rlog rf ! nat i"] 1(2,3) True rng gt by (auto simp: go_index_in)
      have "le_Term (rlog rf ! nat k) \<noteq> ct" if "k \<le> i" "k \<le> i - 1 \<longrightarrow> le_Term (rlog rf ! nat k) \<noteq> ct" for k
        using that gt by (cases "k = i") auto
      with r eq show ?thesis by (intro exI [of _ r]) auto
    qed
  qed
qed


text \<open>
  What a request in flight guarantees to its sender as long as the sender leads the term it
  was sent for: the entries it carries end inside the log.
\<close>

definition sent_ok :: "int \<Rightarrow> 'c AppendEntriesArgs \<Rightarrow> 'c Raft \<Rightarrow> bool" where
  "sent_ok t args rf \<longleftrightarrow> (rstate rf = leader \<and> curTerm rf = t \<longrightarrow>
     aea_PrevLogIndex args + go_len (aea_Entries args) < go_len (rlog rf))"

definition reply_ok :: "'c AppendEntriesArgs \<Rightarrow> AppendEntriesReply \<Rightarrow> bool" where
  "reply_ok args reply \<longleftrightarrow> aer_ConflictIndex reply \<le> aea_PrevLogIndex args"

lemma set_update_mem: "x \<in> set (xs[i := v]) \<Longrightarrow> x = v \<or> x \<in> set xs"
  using subsetD [OF set_update_subset_insert] by fastforce

text \<open>The leader after a reply: success advances the peer's indices \dots\<close>

definition advanced :: "int \<Rightarrow> 'c AppendEntriesArgs \<Rightarrow> 'c Raft \<Rightarrow> 'c Raft" where
  "advanced p args rf =
     (let m = aea_PrevLogIndex args + go_len (aea_Entries args)
      in if m > matchIndex rf ! nat p
         then rf\<lparr>matchIndex := (matchIndex rf)[nat p := m], nextIndex := (nextIndex rf)[nat p := m + 1]\<rparr>
         else rf)"

text \<open>\dots and a failure moves the peer's next index.\<close>

definition backed :: "int \<Rightarrow> int \<Rightarrow> 'c Raft \<Rightarrow> 'c Raft" where
  "backed p x rf = rf\<lparr>nextIndex := (nextIndex rf)[nat p := max 1 x]\<rparr>"

lemma raft_ok_indices:
  assumes "raft_ok rf" and "leader_ok (rf\<lparr>matchIndex := mi, nextIndex := ni\<rparr>)"
  shows "raft_ok (rf\<lparr>matchIndex := mi, nextIndex := ni\<rparr>)"
  using assms by (simp add: raft_ok_def applied_ok_def timeout_ok_def persisted_def)

lemma advanced_ok:
  assumes "raft_ok rf" and "leader_ok rf" and "0 \<le> p" and "p < npeers rf"
    and "0 \<le> aea_PrevLogIndex args"
    and "aea_PrevLogIndex args + go_len (aea_Entries args) < go_len (rlog rf)"
  shows "raft_ok (advanced p args rf)" "leader_ok (advanced p args rf)"
proof -
  have l: "leader_ok (advanced p args rf)"
    using assms(2-6) by (auto simp: advanced_def Let_def leader_ok_def dest!: set_update_mem)
  show "leader_ok (advanced p args rf)" by (rule l)
  show "raft_ok (advanced p args rf)"
    using assms(1) l by (auto simp: advanced_def Let_def intro: raft_ok_indices)
qed

lemma backed_ok:
  assumes "raft_ok rf" and "leader_ok rf" and "x \<le> go_len (rlog rf)"
  shows "raft_ok (backed p x rf)"
proof -
  have "0 < go_len (rlog rf)" using raft_okD(3) [OF assms(1)] by (simp add: go_len_pos)
  then have "leader_ok (rf\<lparr>matchIndex := matchIndex rf, nextIndex := (nextIndex rf)[nat p := max 1 x]\<rparr>)"
    using assms(2,3) by (auto simp: leader_ok_def dest!: set_update_mem)
  from raft_ok_indices [OF assms(1) this] show ?thesis by (simp add: backed_def)
qed

text \<open>Where the search puts the next index after a failure.\<close>

definition backtrack :: "AppendEntriesReply \<Rightarrow> 'c Raft \<Rightarrow> int" where
  "backtrack reply rf =
     (if aer_ConflictTerm reply = -1 then aer_ConflictIndex reply
      else case conflict_last rf (aer_ConflictTerm reply) (lastLogIndexLocked rf) of
        None \<Rightarrow> 0
      | Some k \<Rightarrow> if k \<noteq> -1 then k + 1 else aer_ConflictIndex reply)"

lemma backtrack_bound:
  assumes "raft_ok rf" and "aer_ConflictIndex reply \<le> go_len (rlog rf)"
  shows "backtrack reply rf \<le> go_len (rlog rf)"
  using assms conflict_last_spec [of rf "lastLogIndexLocked rf" "aer_ConflictTerm reply"]
    raft_okD(5) [OF assms(1)]
  by (auto simp: backtrack_def lastLogIndexLocked_def)

lemma replicate_return_fail:
  assumes "raft_ok rf" and "rstate rf = leader" and "curTerm rf = t" and "0 \<le> p" and "p < npeers rf"
    and "\<not> aer_Success reply" and "aer_Term reply \<le> curTerm rf"
  shows "replicate_return e p t args reply rf = Some (backed p (backtrack reply rf) rf, True, [])"
proof -
  have "leader_ok rf" using assms(1,2) by (simp add: raft_ok_def)
  then have r: "in_range (nextIndex rf) p" using assms(4,5) by (rule leader_ok_nth)
  then have r': "in_range ((nextIndex rf)[nat p := x]) p" for x by (simp add: in_range_def)
  have n: "nat p < length (nextIndex rf)" using r by (simp add: in_range_nat)
  obtain la where "conflict_last rf (aer_ConflictTerm reply) (lastLogIndexLocked rf) = Some la"
    using conflict_last_spec [of rf "lastLogIndexLocked rf" "aer_ConflictTerm reply"]
      raft_okD(5) [OF assms(1)] by (auto simp: lastLogIndexLocked_def)
  then show ?thesis
    using assms r r' n
    by (auto simp: replicate_return_def backtrack_def backed_def go_update_in go_index_in max_def Let_def)
qed

lemma replicate_return_success:
  assumes "raft_ok rf" and "rstate rf = leader" and "curTerm rf = t" and "0 \<le> p" and "p < npeers rf"
    and "aer_Success reply" and "aer_Term reply \<le> curTerm rf"
    and "0 \<le> aea_PrevLogIndex args" and "sent_ok t args rf"
  obtains c gs where
    "replicate_return e p t args reply rf = Some (advanced p args rf\<lparr>commitIndex := c\<rparr>, False, gs)"
    "tryAdvanceCommitLocked (advanced p args rf) = Some (advanced p args rf\<lparr>commitIndex := c\<rparr>, gs)"
    "c = commitIndex rf \<or> commitIndex rf < c \<and> c < go_len (rlog rf) \<and> commit_ready (advanced p args rf) c"
    "gs = (if c > commitIndex rf then map (\<lambda>p. Repl [p] t) (others rf) else [])"
proof -
  let ?a = "advanced p args rf"
  have l: "leader_ok rf" using assms(1,2) by (simp add: raft_ok_def)
  have ok: "raft_ok ?a" "leader_ok ?a"
    using assms l by (auto simp: sent_ok_def intro: advanced_ok)
  have sel: "commitIndex ?a = commitIndex rf" "rlog ?a = rlog rf" "curTerm ?a = curTerm rf"
    "npeers ?a = npeers rf" "me ?a = me rf"
    by (simp_all add: advanced_def Let_def)
  obtain c gs where c: "tryAdvanceCommitLocked ?a = Some (?a\<lparr>commitIndex := c\<rparr>, gs)"
    "c = commitIndex ?a \<or> commitIndex ?a < c \<and> c < go_len (rlog ?a) \<and> commit_ready ?a c"
    "gs = (if c > commitIndex ?a then map (\<lambda>p. Repl [p] (curTerm ?a)) (others ?a) else [])"
    by (rule tryAdvance_total [OF ok]) blast
  have "replicate_return e p t args reply rf = Some (?a\<lparr>commitIndex := c\<rparr>, False, gs)"
    using assms leader_ok_nth(1,2) [OF l assms(4,5)] c(1)
    by (auto simp: replicate_return_def Let_def go_index_in go_update_in advanced_def)
  then show thesis
    using c sel assms(3) others_cong [of ?a rf] by (intro that) auto
qed

lemma raft_ok_commit: "raft_ok rf \<Longrightarrow> 0 \<le> c \<Longrightarrow> raft_ok (rf\<lparr>commitIndex := c\<rparr>)"
  by (simp add: raft_ok_def applied_ok_def timeout_ok_def persisted_def leader_ok_def)

lemma replicate_return_total:
  assumes "raft_ok rf" and "0 \<le> p" and "p < npeers rf" and "args_ok args" and "reply_ok args reply"
    and "sent_ok t args rf"
  shows "\<exists>rf' again gs. replicate_return e p t args reply rf = Some (rf', again, gs) \<and> raft_ok rf' \<and>
    (aer_Term reply > curTerm rf \<and> rf' = stepDownLocked e (aer_Term reply) rf \<or>
     curTerm rf' = curTerm rf \<and> rstate rf' = rstate rf \<and> rlog rf' = rlog rf \<and> votedFor rf' = votedFor rf \<and>
     voteCount rf' = voteCount rf \<and> commitIndex rf \<le> commitIndex rf') \<and>
    me rf' = me rf \<and> npeers rf' = npeers rf \<and> rlog rf' = rlog rf \<and> applyCh rf' = applyCh rf \<and>
    lastApplied rf' = lastApplied rf \<and>
    (\<forall>g \<in> set gs. \<exists>q. g = Repl [q] t \<and> 0 \<le> q \<and> q < npeers rf)"
proof -
  consider (newer) "aer_Term reply > curTerm rf"
    | (stale) "aer_Term reply \<le> curTerm rf" "curTerm rf \<noteq> t \<or> rstate rf \<noteq> leader"
    | (succ) "aer_Term reply \<le> curTerm rf" "curTerm rf = t" "rstate rf = leader" "aer_Success reply"
    | (fail) "aer_Term reply \<le> curTerm rf" "curTerm rf = t" "rstate rf = leader" "\<not> aer_Success reply"
    by linarith
  then show ?thesis
  proof cases
    case newer
    then show ?thesis using assms(1) by (auto simp: replicate_return_def intro: raft_ok_stepDown)
  next
    case stale
    then show ?thesis using assms(1) by (auto simp: replicate_return_def)
  next
    case succ
    have l: "leader_ok rf" using assms(1) succ by (simp add: raft_ok_def)
    have p0: "0 \<le> aea_PrevLogIndex args" using assms(4) by (simp add: args_ok_def)
    obtain c gs where c: "replicate_return e p t args reply rf =
        Some (advanced p args rf\<lparr>commitIndex := c\<rparr>, False, gs)"
      "c = commitIndex rf \<or> commitIndex rf < c \<and> c < go_len (rlog rf) \<and> commit_ready (advanced p args rf) c"
      "gs = (if c > commitIndex rf then map (\<lambda>p. Repl [p] t) (others rf) else [])"
      using replicate_return_success [OF assms(1) succ(3,2) assms(2,3) succ(4,1) p0 assms(6)] by metis
    have "raft_ok (advanced p args rf)"
      using assms succ l p0 by (intro advanced_ok) (auto simp: sent_ok_def)
    moreover have "0 \<le> c" using c(2) raft_okD(8) [OF assms(1)] by (auto simp: applied_ok_def)
    ultimately have "raft_ok (advanced p args rf\<lparr>commitIndex := c\<rparr>)" by (rule raft_ok_commit)
    with c show ?thesis by (auto simp: advanced_def Let_def)
  next
    case fail
    have l: "leader_ok rf" using assms(1) fail by (simp add: raft_ok_def)
    have "aea_PrevLogIndex args + go_len (aea_Entries args) < go_len (rlog rf)"
      using assms(6) fail(2,3) by (simp add: sent_ok_def)
    then have "aer_ConflictIndex reply \<le> go_len (rlog rf)"
      using assms(5) go_len_nonneg [of "aea_Entries args"] unfolding reply_ok_def by linarith
    then have "raft_ok (backed p (backtrack reply rf) rf)"
      using assms(1) l by (intro backed_ok backtrack_bound)
    then show ?thesis
      using replicate_return_fail [OF assms(1) fail(3,2) assms(2,3) fail(4,1)]
      by (auto simp: backed_def)
  qed
qed

section \<open>Start and the applier\<close>

lemma Start_total:
  assumes "raft_ok rf"
  shows "\<exists>rf' res gs. Start cmd rf = Some (rf', res, gs) \<and> raft_ok rf' \<and>
    curTerm rf' = curTerm rf \<and> votedFor rf' = votedFor rf \<and> rstate rf' = rstate rf \<and>
    voteCount rf' = voteCount rf \<and> me rf' = me rf \<and> npeers rf' = npeers rf \<and>
    commitIndex rf' = commitIndex rf \<and> applyCh rf' = applyCh rf \<and> lastApplied rf' = lastApplied rf \<and>
    (if rstate rf = leader
     then rlog rf' = rlog rf @ [\<lparr>le_Term = curTerm rf, le_Command = cmd\<rparr>] \<and>
       res = (go_len (rlog rf), curTerm rf, True) \<and> gs = map (\<lambda>p. Repl [p] (curTerm rf)) (others rf)
     else rf' = rf \<and> res = (-1, curTerm rf, False) \<and> gs = [])"
proof (cases "rstate rf = leader")
  case False
  then show ?thesis using assms by (simp add: Start_def)
next
  case True
  then have l: "leader_ok rf" using assms by (simp add: raft_ok_def)
  let ?e = "\<lparr>le_Term = curTerm rf, le_Command = cmd\<rparr>"
  let ?p = "persist (rf\<lparr>rlog := rlog rf @ [?e]\<rparr>)"
  let ?rf = "?p\<lparr>matchIndex := (matchIndex rf)[nat (me rf) := go_len (rlog rf)],
    nextIndex := (nextIndex rf)[nat (me rf) := go_len (rlog rf) + 1]\<rparr>"
  have r: "in_range (matchIndex rf) (me rf)" "in_range (nextIndex rf) (me rf)"
    using leader_ok_nth(1,2) [OF l raft_okD(1,2) [OF assms]] by auto
  have "others ?rf = others rf" by (rule others_cong) simp_all
  then have eq: "Start cmd rf = Some (?rf, (go_len (rlog rf), curTerm rf, True),
      map (\<lambda>p. Repl [p] (curTerm rf)) (others rf))"
    using True r by (simp add: Start_def Let_def go_update_in)
  have "raft_ok ?p"
    using assms l by (auto simp: raft_ok_def applied_ok_def timeout_ok_def leader_ok_def intro: log_ok_snoc)
  moreover have "leader_ok ?rf" using l by (auto simp: leader_ok_def dest!: set_update_mem)
  ultimately have "raft_ok ?rf" by (rule raft_ok_indices)
  with eq True show ?thesis by simp
qed

lemma apply_one_total:
  assumes "raft_ok rf"
  shows "\<exists>rf' b. apply_one rf = Some (rf', b) \<and> raft_ok rf' \<and>
    curTerm rf' = curTerm rf \<and> votedFor rf' = votedFor rf \<and> rstate rf' = rstate rf \<and>
    voteCount rf' = voteCount rf \<and> me rf' = me rf \<and> npeers rf' = npeers rf \<and> rlog rf' = rlog rf \<and>
    commitIndex rf' = commitIndex rf \<and>
    (if b then lastApplied rf < commitIndex rf \<and> lastApplied rf + 1 < go_len (rlog rf) \<and>
         lastApplied rf' = lastApplied rf + 1 \<and>
         applyCh rf' = applyCh rf @ [\<lparr>am_Index = lastApplied rf + 1,
           am_Command = le_Command (rlog rf ! nat (lastApplied rf + 1)),
           am_UseSnapshot = False, am_Snapshot = []\<rparr>]
     else rf' = rf \<and> (commitIndex rf \<le> lastApplied rf \<or> go_len (rlog rf) \<le> lastApplied rf + 1))"
proof (cases "lastApplied rf < commitIndex rf \<and> lastApplied rf + 1 < go_len (rlog rf)")
  case False
  then show ?thesis using assms by (auto simp: apply_one_def Let_def)
next
  case True
  have a: "applied_ok rf" using assms by (rule raft_okD)
  let ?k = "lastApplied rf + 1"
  let ?rf = "rf\<lparr>lastApplied := ?k, applyCh := applyCh rf @ [\<lparr>am_Index = ?k,
    am_Command = le_Command (rlog rf ! nat ?k), am_UseSnapshot = False, am_Snapshot = []\<rparr>]\<rparr>"
  have "in_range (rlog rf) ?k" using a True by (auto simp: in_range_def applied_ok_def)
  then have eq: "apply_one rf = Some (?rf, True)"
    using True by (simp add: apply_one_def Let_def go_index_in)
  have "[1..?k] = [1..lastApplied rf] @ [?k]"
    using a upto_rec2 [of 1 ?k] by (simp add: applied_ok_def)
  then have "applied_ok ?rf" using a by (simp add: applied_ok_def)
  then have "raft_ok ?rf"
    using assms by (simp add: raft_ok_def timeout_ok_def persisted_def leader_ok_def)
  with eq True show ?thesis by (intro exI [of _ ?rf] exI [of _ True]) simp
qed

end
