(* ===== verification/Raft_Cluster.thy ===== *)
theory Raft_Cluster
  imports Raft_Replication "HOL-Library.Multiset" "HOL-Library.Sublist"
begin

text \<open>
  A cluster of Raft servers and the network between them. A step is one critical section
  of one goroutine, one handler run for a call in flight, or a call that fails: the
  interleavings of the program, with calls that are delayed, reordered and lost as
  \<^verbatim>\<open>labrpc\<close> does, and each call handled at most once, possibly after its caller was told
  that it failed. A server may be restarted from its
  persister at any time; the goroutines of the old instance stop, but calls they have
  already sent may still be handled.
\<close>

section \<open>State\<close>

record 'c task =
  owner :: nat
  alive :: bool
  body :: "'c gort"

text \<open>
  \<open>lives\<close> holds what the \<^verbatim>\<open>life\<close> loop of each server read last. \<open>votes\<close> is a history
  variable: the triples of voter, term and candidate of all votes given. \<open>panicked\<close>
  records that some critical section panicked.
\<close>

record 'c cluster =
  servers :: "'c Raft list"
  lives :: "snap option list"
  tasks :: "'c task list"
  votes :: "(int \<times> int \<times> int) list"
  panicked :: bool

datatype 'c event =
    LifeRead nat
  | LifeAct nat env
  | Deliver nat env
  | Fail nat
  | Late nat
  | Run nat env
  | Client nat "'c option"
  | Apply nat
  | Restart nat env

definition boot :: "nat \<Rightarrow> (nat \<Rightarrow> env) \<Rightarrow> 'c cluster" where
  "boot n e = \<lparr>servers = map (\<lambda>i. Make (e i) (int n) (int i) MakePersister) [0..<n],
     lives = replicate n None, tasks = [], votes = [], panicked = False\<rparr>"

section \<open>Steps\<close>

definition remove_nth :: "nat \<Rightarrow> 'a list \<Rightarrow> 'a list" where
  "remove_nth k xs = take k xs @ drop (Suc k) xs"

definition put :: "nat \<Rightarrow> 'c Raft \<Rightarrow> 'c cluster \<Rightarrow> 'c cluster" where
  "put i rf s = s\<lparr>servers := (servers s)[i := rf]\<rparr>"

definition spawn :: "nat \<Rightarrow> 'c gort list \<Rightarrow> 'c cluster \<Rightarrow> 'c cluster" where
  "spawn i gs s = s\<lparr>tasks := tasks s @ map (\<lambda>g. \<lparr>owner = i, alive = True, body = g\<rparr>) gs\<rparr>"

definition drop_task :: "nat \<Rightarrow> 'c cluster \<Rightarrow> 'c cluster" where
  "drop_task k s = s\<lparr>tasks := remove_nth k (tasks s)\<rparr>"

text \<open>The goroutine \<open>k\<close> goes on as \<open>g\<close>.\<close>

definition goto_task :: "nat \<Rightarrow> 'c gort \<Rightarrow> 'c cluster \<Rightarrow> 'c cluster" where
  "goto_task k g s = s\<lparr>tasks := remove_nth k (tasks s) @ [(tasks s ! k)\<lparr>body := g\<rparr>]\<rparr>"

definition vote :: "int \<Rightarrow> int \<Rightarrow> int \<Rightarrow> 'c cluster \<Rightarrow> 'c cluster" where
  "vote v t c s = s\<lparr>votes := (v, t, c) # votes s\<rparr>"

text \<open>Use the result of a critical section; a panic stops everything.\<close>

definition attempt :: "'r result \<Rightarrow> 'c cluster \<Rightarrow> ('r \<Rightarrow> 'c cluster) \<Rightarrow> 'c cluster" where
  "attempt r s f = (case r of None \<Rightarrow> s\<lparr>panicked := True\<rparr> | Some x \<Rightarrow> f x)"

text \<open>A server has a vote for itself recorded when it starts an election.\<close>

definition self_vote :: "'c Raft \<Rightarrow> 'c Raft \<Rightarrow> 'c cluster \<Rightarrow> 'c cluster" where
  "self_vote rf rf' s = (if curTerm rf' = curTerm rf then s else vote (me rf') (curTerm rf') (me rf') s)"

text \<open>A call in flight reaches its callee, which runs the handler.\<close>

fun deliver :: "nat \<Rightarrow> env \<Rightarrow> 'c gort \<Rightarrow> 'c cluster \<Rightarrow> 'c cluster option" where
  "deliver k e (VoteCall p args n t) s =
     Some (attempt (RequestVote e args (servers s ! nat p)) s (\<lambda>(rf, reply).
       (if rvr_Vote reply then vote p (rva_ElectionTerm args) (rva_CandidateID args) else (\<lambda>s. s))
         (goto_task k (VoteDone p reply n t) (put (nat p) rf s))))"
| "deliver k e (BeatCall p args t) s =
     (let (rf, reply) = Heartbeat e args (servers s ! nat p)
      in Some (goto_task k (BeatDone p reply t) (put (nat p) rf s)))"
| "deliver k e (ReplCall (p # ps) t args) s =
     Some (attempt (AppendEntries e args (servers s ! nat p)) s (\<lambda>(rf, reply).
       goto_task k (ReplDone (p # ps) t args reply) (put (nat p) rf s)))"
| "deliver k e _ s = None"

text \<open>
  A call fails: the request or its reply is lost. The goroutine of an election ends, the
  one of a heartbeat goes on with a zero reply, and \<^verbatim>\<open>replicateTo\<close> returns.
\<close>

fun fail_call :: "nat \<Rightarrow> 'c gort \<Rightarrow> 'c cluster \<Rightarrow> 'c cluster option" where
  "fail_call k (VoteCall p args n t) s = Some (drop_task k s)"
| "fail_call k (VoteDone p reply n t) s = Some (drop_task k s)"
| "fail_call k (BeatCall p args t) s = Some (goto_task k (BeatDone p zeroHeartbeatReply t) s)"
| "fail_call k (BeatDone p reply t) s = Some (goto_task k (BeatDone p zeroHeartbeatReply t) s)"
| "fail_call k (ReplCall (p # ps) t args) s = Some (goto_task k (Repl ps t) s)"
| "fail_call k (ReplDone (p # ps) t args reply) s = Some (goto_task k (Repl ps t) s)"
| "fail_call k _ s = None"

text \<open>A goroutine of server \<open>i\<close> takes the mutex and runs its next critical section.\<close>

fun run_task :: "nat \<Rightarrow> nat \<Rightarrow> env \<Rightarrow> 'c gort \<Rightarrow> 'c cluster \<Rightarrow> 'c cluster option" where
  "run_task k i e (VoteDone p reply n t) s =
     Some (attempt (VoteReturn e reply n t (servers s ! i)) s (\<lambda>(rf, gs).
       spawn i gs (drop_task k (put i rf s))))"
| "run_task k i e BeginBeat s =
     (let (rf, gs) = StartHeartbeat e (servers s ! i)
      in Some (spawn i gs (drop_task k (put i rf s))))"
| "run_task k i e (BeatDone p reply t) s =
     (let (rf, gs) = BeatReturn e p reply t (servers s ! i)
      in Some (spawn i gs (drop_task k (put i rf s))))"
| "run_task k i e (Repl [] t) s = Some (drop_task k s)"
| "run_task k i e (Repl (p # ps) t) s =
     Some (attempt (replicate_send p t (servers s ! i)) s (\<lambda>(rf, out).
       goto_task k (case out of None \<Rightarrow> Repl ps t | Some args \<Rightarrow> ReplCall (p # ps) t args) (put i rf s)))"
| "run_task k i e (ReplDone (p # ps) t args reply) s =
     Some (attempt (replicate_return e p t args reply (servers s ! i)) s (\<lambda>(rf, again, gs).
       spawn i gs (goto_task k (if again then Repl (p # ps) t else Repl ps t) (put i rf s))))"
| "run_task k i e _ s = None"

fun cstep :: "'c event \<Rightarrow> 'c cluster \<Rightarrow> 'c cluster option" where
  "cstep (LifeRead i) s =
     (if i < length (servers s)
      then Some (s\<lparr>lives := (lives s)[i := Some (life_read (servers s ! i))]\<rparr>) else None)"
| "cstep (LifeAct i e) s =
     (if i < length (servers s)
      then (case lives s ! i of
          None \<Rightarrow> None
        | Some sn \<Rightarrow> Some (attempt (life_act e sn (servers s ! i)) s (\<lambda>(rf, gs).
            spawn i gs (self_vote (servers s ! i) rf (put i rf s\<lparr>lives := (lives s)[i := None]\<rparr>)))))
      else None)"
| "cstep (Deliver k e) s = (if k < length (tasks s) then deliver k e (body (tasks s ! k)) s else None)"
| "cstep (Fail k) s = (if k < length (tasks s) then fail_call k (body (tasks s ! k)) s else None)"
| "cstep (Late k) s =
     (if k < length (tasks s)
      then fail_call k (body (tasks s ! k)) (s\<lparr>tasks := tasks s @ [(tasks s ! k)\<lparr>alive := False\<rparr>]\<rparr>)
      else None)"
| "cstep (Run k e) s =
     (if k < length (tasks s) \<and> alive (tasks s ! k)
      then run_task k (owner (tasks s ! k)) e (body (tasks s ! k)) s else None)"
| "cstep (Client i cmd) s =
     (if i < length (servers s)
      then Some (attempt (Start cmd (servers s ! i)) s (\<lambda>(rf, res, gs). spawn i gs (put i rf s)))
      else None)"
| "cstep (Apply i) s =
     (if i < length (servers s)
      then Some (attempt (apply_one (servers s ! i)) s (\<lambda>(rf, b). put i rf s))
      else None)"
| "cstep (Restart i e) s =
     (if i < length (servers s)
      then Some (put i (Make e (npeers (servers s ! i)) (int i) (Copy (persister (servers s ! i)))) s
        \<lparr>lives := (lives s)[i := None],
         tasks := map (\<lambda>t. if owner t = i then t\<lparr>alive := False\<rparr> else t) (tasks s)\<rparr>)
      else None)"

definition is_boot :: "'c cluster \<Rightarrow> bool" where
  "is_boot s \<longleftrightarrow> (\<exists>n e. 0 < n \<and> s = boot n e)"

definition cluster_step :: "'c cluster \<Rightarrow> 'c cluster \<Rightarrow> bool" where
  "cluster_step s t \<longleftrightarrow> (\<exists>ev. cstep ev s = Some t)"

section \<open>Timely replies\<close>

text \<open>
  A reply is handled in time: a granted vote is counted in the term it was given for, and a
  heartbeat reply of a newer term than the heartbeat's is newer than the server's too.
\<close>

fun timely_body :: "'c Raft \<Rightarrow> 'c gort \<Rightarrow> bool" where
  "timely_body rf (VoteDone p reply n t) = (rvr_Vote reply \<longrightarrow> curTerm rf = t)"
| "timely_body rf (BeatDone p reply t) = (hbr_Term reply \<le> t \<or> curTerm rf < hbr_Term reply)"
| "timely_body rf _ = True"

fun timely :: "'c event \<Rightarrow> 'c cluster \<Rightarrow> bool" where
  "timely (Run k e) s = timely_body (servers s ! owner (tasks s ! k)) (body (tasks s ! k))"
| "timely _ s = True"

definition tstep :: "'c event \<Rightarrow> 'c cluster \<Rightarrow> 'c cluster option" where
  "tstep ev s = (if timely ev s then cstep ev s else None)"

definition timely_step :: "'c cluster \<Rightarrow> 'c cluster \<Rightarrow> bool" where
  "timely_step s t \<longleftrightarrow> (\<exists>ev. tstep ev s = Some t)"


section \<open>How one server may change in a step\<close>

text \<open>
  The term never decreases; within a term a server never becomes a candidate again, and a
  leader only appends to its log.
\<close>

definition srv_step :: "'c Raft \<Rightarrow> 'c Raft \<Rightarrow> bool" where
  "srv_step rf rf' \<longleftrightarrow> me rf' = me rf \<and> npeers rf' = npeers rf \<and> curTerm rf \<le> curTerm rf' \<and>
     (curTerm rf' = curTerm rf \<longrightarrow>
        (rstate rf' = candidate \<longrightarrow> rstate rf = candidate) \<and>
        (rstate rf' = leader \<longrightarrow> rstate rf = candidate \<or>
           (rstate rf = leader \<and> prefix (rlog rf) (rlog rf'))))"

lemma srv_step_refl [simp]: "srv_step rf rf"
  by (simp add: srv_step_def)

lemma srv_step_stepDown: "srv_step rf (stepDownLocked e t rf)"
  by (simp add: srv_step_def)

lemma srv_step_clock: "srv_step rf (updateLastHeartbeatLocked e rf)"
  by (simp add: srv_step_def)

lemma RequestVote_step:
  "RequestVote e args rf = Some (rf', reply) \<Longrightarrow> rlog rf \<noteq> [] \<Longrightarrow> srv_step rf rf'"
  by (frule (1) RequestVote_frame(1), frule (1) RequestVote_frame(2),
      frule (1) RequestVote_frame(3), frule (1) RequestVote_frame(9),
      frule (1) RequestVote_frame(10)) (auto simp: srv_step_def max_def)

lemma Heartbeat_step: "Heartbeat e args rf = (rf', reply) \<Longrightarrow> srv_step rf rf'"
  by (frule Heartbeat_sel(1), frule Heartbeat_sel(2), frule Heartbeat_sel(7),
      cases "curTerm rf \<le> hba_Term args")
    (auto simp: srv_step_def dest: Heartbeat_sel(11,12))

lemma AppendEntries_step:
  assumes "AppendEntries e args rf = Some (rf', reply)" and "0 \<le> aea_PrevLogIndex args"
  shows "srv_step rf rf'"
  using AppendEntries_frame(1,2,5,7,8) [OF assms]
  by (cases "aea_Term args < curTerm rf") (auto simp: srv_step_def)

lemma StartElection_step:
  "raft_ok rf \<Longrightarrow> StartElection e rf = Some (rf', gs) \<Longrightarrow> srv_step rf rf'"
  using StartElection_total [of rf e] by (auto simp: srv_step_def)

lemma life_act_step:
  "raft_ok rf \<Longrightarrow> life_act e sn rf = Some (rf', gs) \<Longrightarrow> srv_step rf rf'"
  by (elim life_act_cases) (auto intro: StartElection_step simp: StartHeartbeat_eq srv_step_clock)

lemma VoteReturn_step:
  assumes "raft_ok rf" and "VoteReturn e reply n t rf = Some (rf', gs)"
  shows "srv_step rf rf'"
  using assms(2,1) by (cases rule: VoteReturn_cases) (auto simp: srv_step_def)

lemma BeatReturn_step: "srv_step rf (fst (BeatReturn e p reply t rf))"
  by (simp add: BeatReturn_def srv_step_stepDown)

lemma Start_step: "raft_ok rf \<Longrightarrow> Start cmd rf = Some (rf', res, gs) \<Longrightarrow> srv_step rf rf'"
  using Start_total [of rf cmd] by (auto simp: srv_step_def split: if_splits)

section \<open>The invariant of the cluster\<close>

definition repl_inv :: "int \<Rightarrow> 'c AppendEntriesArgs \<Rightarrow> 'c Raft \<Rightarrow> bool" where
  "repl_inv t args rf \<longleftrightarrow> t \<le> curTerm rf \<and> (t = curTerm rf \<longrightarrow> rstate rf \<noteq> candidate) \<and> sent_ok t args rf"

lemma repl_inv_step: "srv_step rf rf' \<Longrightarrow> repl_inv t args rf \<Longrightarrow> repl_inv t args rf'"
  by (auto simp: srv_step_def repl_inv_def sent_ok_def go_len_def dest!: prefix_length_le)

text \<open>
  What a goroutine of server \<open>i\<close> among \<open>n\<close> remembers fits the state \<open>rf\<close> of that server;
  the part that ties it to the current state is only claimed for live goroutines.
\<close>

fun body_ok :: "nat \<Rightarrow> nat \<Rightarrow> bool \<Rightarrow> 'c Raft \<Rightarrow> 'c gort \<Rightarrow> bool" where
  "body_ok n i al rf (VoteCall p args m t) =
     (0 \<le> p \<and> p < int n \<and> p \<noteq> int i \<and> m = int n \<and> rva_CandidateID args = int i \<and>
      rva_ElectionTerm args = t \<and> (al \<longrightarrow> t \<le> curTerm rf))"
| "body_ok n i al rf (VoteDone p reply m t) =
     (0 \<le> p \<and> p < int n \<and> p \<noteq> int i \<and> m = int n \<and> (al \<longrightarrow> t \<le> curTerm rf))"
| "body_ok n i al rf BeginBeat = True"
| "body_ok n i al rf (BeatCall p args t) = (0 \<le> p \<and> p < int n)"
| "body_ok n i al rf (BeatDone p reply t) = (0 \<le> p \<and> p < int n)"
| "body_ok n i al rf (Repl ps t) = (\<forall>p \<in> set ps. 0 \<le> p \<and> p < int n)"
| "body_ok n i al rf (ReplCall ps t args) =
     (ps \<noteq> [] \<and> (\<forall>p \<in> set ps. 0 \<le> p \<and> p < int n) \<and> args_ok args \<and> aea_Term args = t \<and>
      (al \<longrightarrow> repl_inv t args rf))"
| "body_ok n i al rf (ReplDone ps t args reply) =
     (ps \<noteq> [] \<and> (\<forall>p \<in> set ps. 0 \<le> p \<and> p < int n) \<and> args_ok args \<and> reply_ok args reply \<and>
      aea_Term args = t \<and> (al \<longrightarrow> repl_inv t args rf))"

definition task_ok :: "'c Raft list \<Rightarrow> 'c task \<Rightarrow> bool" where
  "task_ok rs tk \<longleftrightarrow> owner tk < length rs \<and>
     body_ok (length rs) (owner tk) (alive tk) (rs ! owner tk) (body tk)"

definition server_ok :: "nat \<Rightarrow> nat \<Rightarrow> 'c Raft \<Rightarrow> bool" where
  "server_ok n i rf \<longleftrightarrow> raft_ok rf \<and> me rf = int i \<and> npeers rf = int n"

definition cluster_ok :: "'c cluster \<Rightarrow> bool" where
  "cluster_ok s \<longleftrightarrow> length (lives s) = length (servers s) \<and>
     (\<forall>i < length (servers s). server_ok (length (servers s)) i (servers s ! i)) \<and>
     (\<forall>tk \<in> set (tasks s). task_ok (servers s) tk) \<and> \<not> panicked s"

lemma body_ok_step: "srv_step rf rf' \<Longrightarrow> body_ok n i al rf b \<Longrightarrow> body_ok n i al rf' b"
  by (cases b) (auto simp: repl_inv_step, auto simp: srv_step_def)

lemma body_ok_dead: "body_ok n i al rf b \<Longrightarrow> body_ok n i False rf' b"
  by (cases b) auto

lemma cluster_okD:
  assumes "cluster_ok s" and "i < length (servers s)"
  shows "raft_ok (servers s ! i)" "me (servers s ! i) = int i"
    "npeers (servers s ! i) = int (length (servers s))" "rlog (servers s ! i) \<noteq> []"
  using assms raft_okD(3) by (auto simp: cluster_ok_def server_ok_def)

lemma cluster_ok_task: "cluster_ok s \<Longrightarrow> tk \<in> set (tasks s) \<Longrightarrow> task_ok (servers s) tk"
  by (simp add: cluster_ok_def)

lemma task_ok_update:
  assumes "task_ok rs tk" and "i < length rs" and "srv_step (rs ! i) rf"
  shows "task_ok (rs[i := rf]) tk"
  using assms body_ok_step [OF assms(3)] by (cases "owner tk = i") (auto simp: task_ok_def)

text \<open>The effect of a step of the cluster on the servers.\<close>

definition servers_step :: "'c cluster \<Rightarrow> 'c cluster \<Rightarrow> bool" where
  "servers_step s s' \<longleftrightarrow> length (servers s') = length (servers s) \<and>
     (\<forall>i < length (servers s). srv_step (servers s ! i) (servers s' ! i))"

lemma servers_step_same: "servers s' = servers s \<Longrightarrow> servers_step s s'"
  by (simp add: servers_step_def)

lemma servers_step_put:
  "servers s' = (servers s)[i := rf] \<Longrightarrow> srv_step (servers s ! i) rf \<Longrightarrow> servers_step s s'"
  by (cases "i < length (servers s)") (auto simp: servers_step_def nth_list_update list_update_beyond)

section \<open>The building blocks of a step\<close>

lemma block_sel [simp]:
  "servers (put i rf s) = (servers s)[i := rf]" "lives (put i rf s) = lives s"
  "tasks (put i rf s) = tasks s" "votes (put i rf s) = votes s" "panicked (put i rf s) = panicked s"
  "servers (spawn i gs s) = servers s" "lives (spawn i gs s) = lives s"
  "tasks (spawn i gs s) = tasks s @ map (\<lambda>g. \<lparr>owner = i, alive = True, body = g\<rparr>) gs"
  "votes (spawn i gs s) = votes s" "panicked (spawn i gs s) = panicked s"
  "servers (drop_task k s) = servers s" "lives (drop_task k s) = lives s"
  "tasks (drop_task k s) = remove_nth k (tasks s)" "votes (drop_task k s) = votes s"
  "panicked (drop_task k s) = panicked s"
  "servers (goto_task k g s) = servers s" "lives (goto_task k g s) = lives s"
  "tasks (goto_task k g s) = remove_nth k (tasks s) @ [(tasks s ! k)\<lparr>body := g\<rparr>]"
  "votes (goto_task k g s) = votes s" "panicked (goto_task k g s) = panicked s"
  "servers (vote v t c s) = servers s" "lives (vote v t c s) = lives s"
  "tasks (vote v t c s) = tasks s" "votes (vote v t c s) = (v, t, c) # votes s"
  "panicked (vote v t c s) = panicked s"
  by (simp_all add: put_def spawn_def drop_task_def goto_task_def vote_def)

lemma spawn_Nil [simp]: "spawn i [] s = s"
  by (simp add: spawn_def)

lemma self_vote_sel [simp]:
  "servers (self_vote rf rf' s) = servers s" "lives (self_vote rf rf' s) = lives s"
  "tasks (self_vote rf rf' s) = tasks s" "panicked (self_vote rf rf' s) = panicked s"
  by (simp_all add: self_vote_def)

lemma set_remove_nth: "set (remove_nth k xs) \<subseteq> set xs"
  by (auto simp: remove_nth_def dest: in_set_takeD in_set_dropD)

lemma cluster_ok_put:
  assumes "cluster_ok s" and "i < length (servers s)" and "raft_ok rf" and "srv_step (servers s ! i) rf"
  shows "cluster_ok (put i rf s)"
  using assms cluster_okD [OF assms(1,2)]
  by (auto simp: cluster_ok_def server_ok_def nth_list_update srv_step_def
      intro!: task_ok_update [OF _ assms(2,4)])

lemma cluster_ok_spawn:
  assumes "cluster_ok s" and "i < length (servers s)"
    and "\<forall>g \<in> set gs. body_ok (length (servers s)) i True (servers s ! i) g"
  shows "cluster_ok (spawn i gs s)"
  using assms by (auto simp: cluster_ok_def task_ok_def)

lemma cluster_ok_drop: "cluster_ok s \<Longrightarrow> cluster_ok (drop_task k s)"
  using set_remove_nth [of k "tasks s"] by (auto simp: cluster_ok_def)

lemma cluster_ok_goto:
  assumes "cluster_ok s" and "k < length (tasks s)"
    and "body_ok (length (servers s)) (owner (tasks s ! k)) (alive (tasks s ! k))
      (servers s ! owner (tasks s ! k)) g"
  shows "cluster_ok (goto_task k g s)"
proof -
  have "task_ok (servers s) (tasks s ! k)" using assms(1,2) by (simp add: cluster_ok_def)
  then have "task_ok (servers s) ((tasks s ! k)\<lparr>body := g\<rparr>)" using assms(3) by (simp add: task_ok_def)
  then show ?thesis using assms(1) set_remove_nth [of k "tasks s"] by (auto simp: cluster_ok_def)
qed

lemma cluster_ok_vote [simp]: "cluster_ok (vote v t c s) = cluster_ok s"
  by (simp add: cluster_ok_def)

lemma cluster_ok_self_vote [simp]: "cluster_ok (self_vote rf rf' s) = cluster_ok s"
  by (simp add: self_vote_def)

lemma cluster_ok_lives: "cluster_ok s \<Longrightarrow> cluster_ok (s\<lparr>lives := (lives s)[i := sn]\<rparr>)"
  by (simp add: cluster_ok_def)

section \<open>Every step keeps the invariant and no critical section panics\<close>

lemma raft_ok_Make:
  assumes "i < n"
  shows "raft_ok (Make e (int n) (int i) MakePersister)"
proof -
  have "timeout_ok (Make e (int n) (int i) MakePersister)"
    using timeout_ok_reset [of e] by (simp add: Make_def readPersist_def raft_slot.load_make Let_def)
  then show ?thesis
    using assms
    by (simp add: raft_ok_def Make_def readPersist_def raft_slot.load_make Let_def
        applied_ok_def persisted_def timeout_ok_def)
qed

lemma cluster_ok_boot: "0 < n \<Longrightarrow> cluster_ok (boot n e)"
proof -
  have "me (Make (e i) (int n) (int i) MakePersister) = int i"
    "npeers (Make (e i) (int n) (int i) MakePersister) = int n" for i
    by (simp_all add: Make_def readPersist_def raft_slot.load_make Let_def)
  then show ?thesis by (auto simp: boot_def cluster_ok_def server_ok_def raft_ok_Make)
qed

lemma deliver_ok:
  assumes ok: "cluster_ok s" and k: "k < length (tasks s)"
    and d: "deliver k e (body (tasks s ! k)) s = Some s'"
  shows "cluster_ok s' \<and> servers_step s s'"
proof -
  let ?tk = "tasks s ! k" and ?n = "length (servers s)"
  have tk: "task_ok (servers s) ?tk" using ok k by (simp add: cluster_ok_def)
  then have own: "owner ?tk < ?n" by (simp add: task_ok_def)
  note b = tk [unfolded task_ok_def, THEN conjunct2]
  have put_goto: "cluster_ok s' \<and> servers_step s s'"
    if s': "s' = goto_task k g (put (nat p) rf s) \<or> s' = vote v t c (goto_task k g (put (nat p) rf s))"
      and p: "0 \<le> p" "p < int ?n" and rf: "raft_ok rf" "srv_step (servers s ! nat p) rf"
      and g: "\<And>rf'. srv_step (servers s ! owner ?tk) rf' \<Longrightarrow> body_ok ?n (owner ?tk) (alive ?tk) rf' g"
    for p rf g v t c
  proof -
    have np: "nat p < ?n" using p by simp
    have "cluster_ok (put (nat p) rf s)" using cluster_ok_put [OF ok np rf] .
    moreover have "srv_step (servers s ! owner ?tk) ((servers s)[nat p := rf] ! owner ?tk)"
      using rf(2) np own by (auto simp: nth_list_update)
    ultimately have "cluster_ok (goto_task k g (put (nat p) rf s))" using k g by (intro cluster_ok_goto) auto
    then show ?thesis using s' rf(2) by (auto intro: servers_step_put)
  qed
  show ?thesis
  proof (cases "body ?tk")
    case (VoteCall p args m t)
    with b have p: "0 \<le> p" "p < int ?n" "rva_CandidateID args = int (owner ?tk)"
      "p \<noteq> int (owner ?tk)" "m = int ?n" "alive ?tk \<longrightarrow> t \<le> curTerm (servers s ! owner ?tk)" by auto
    then have np: "nat p < ?n" by simp
    note srv = cluster_okD [OF ok np]
    obtain rf reply where r: "RequestVote e args (servers s ! nat p) = Some (rf, reply)" "raft_ok rf"
      using RequestVote_total [OF srv(1), of args e] p srv(3) own by auto
    have "s' = goto_task k (VoteDone p reply m t) (put (nat p) rf s) \<or>
        s' = vote p (rva_ElectionTerm args) (rva_CandidateID args) (goto_task k (VoteDone p reply m t) (put (nat p) rf s))"
      using d VoteCall r(1) by (auto simp: attempt_def)
    then show ?thesis
      by (rule put_goto [OF _ p(1,2) r(2) RequestVote_step [OF r(1) srv(4)]])
        (use p in \<open>auto simp: srv_step_def\<close>)
  next
    case (BeatCall p args t)
    with b have p: "0 \<le> p" "p < int ?n" by auto
    then have np: "nat p < ?n" by simp
    obtain rf reply where r: "Heartbeat e args (servers s ! nat p) = (rf, reply)" by fastforce
    have "raft_ok rf" using raft_ok_Heartbeat [OF cluster_okD(1) [OF ok np], of e args] r by simp
    then show ?thesis
      using d BeatCall r p by (intro put_goto [OF _ p _ Heartbeat_step [OF r]]) auto
  next
    case (ReplCall ps t args)
    with b obtain p ps' where ps: "ps = p # ps'" by (cases ps) auto
    with b ReplCall have p: "0 \<le> p" "p < int ?n" "\<forall>q \<in> set ps'. 0 \<le> q \<and> q < int ?n" and a: "args_ok args"
      and t: "aea_Term args = t" and inv: "alive ?tk \<longrightarrow> repl_inv t args (servers s ! owner ?tk)"
      by auto
    then have np: "nat p < ?n" and p0: "0 \<le> aea_PrevLogIndex args" by (simp_all add: args_ok_def)
    obtain rf reply where r: "AppendEntries e args (servers s ! nat p) = Some (rf, reply)" "raft_ok rf"
      "reply_ok args reply"
      using AppendEntries_total [OF cluster_okD(1) [OF ok np] a, of e] by (auto simp: reply_ok_def)
    have "s' = goto_task k (ReplDone ps t args reply) (put (nat p) rf s)"
      using d ReplCall ps r(1) by (simp add: attempt_def)
    then show ?thesis
      using p r a t inv ps
      by (intro put_goto [OF _ p(1,2) r(2) AppendEntries_step [OF r(1) p0]]) (auto simp: repl_inv_step)
  qed (use d in auto)
qed

lemma fail_ok:
  assumes ok: "cluster_ok s" and k: "k < length (tasks s)"
    and d: "fail_call k (body (tasks s ! k)) s = Some s'"
  shows "cluster_ok s' \<and> servers_step s s'"
proof -
  let ?tk = "tasks s ! k"
  have "task_ok (servers s) ?tk" using ok k by (simp add: cluster_ok_def)
  then have "body_ok (length (servers s)) (owner ?tk) (alive ?tk) (servers s ! owner ?tk) (body ?tk)"
    by (simp add: task_ok_def)
  then show ?thesis
    using d k ok by (cases "(k, body ?tk, s)" rule: fail_call.cases)
      (auto intro!: cluster_ok_goto cluster_ok_drop servers_step_same)
qed

text \<open>A call that failed for its caller stays in flight, to be handled later.\<close>

lemma Late_ok:
  assumes ok: "cluster_ok s" and d: "cstep (Late k) s = Some s'"
  shows "cluster_ok s' \<and> servers_step s s'"
proof -
  let ?s = "s\<lparr>tasks := tasks s @ [(tasks s ! k)\<lparr>alive := False\<rparr>]\<rparr>"
  have k: "k < length (tasks s)" and f: "fail_call k (body (tasks s ! k)) ?s = Some s'"
    using d by (auto split: if_splits)
  have "task_ok (servers s) (tasks s ! k)" using ok k by (simp add: cluster_ok_def)
  then have "task_ok (servers s) ((tasks s ! k)\<lparr>alive := False\<rparr>)"
    using body_ok_dead by (auto simp: task_ok_def)
  then have "cluster_ok ?s" using ok by (auto simp: cluster_ok_def)
  moreover have "k < length (tasks ?s)" "fail_call k (body (tasks ?s ! k)) ?s = Some s'"
    using k f by (simp_all add: nth_append)
  ultimately have "cluster_ok s' \<and> servers_step ?s s'" by (rule fail_ok)
  then show ?thesis by (simp add: servers_step_def)
qed

text \<open>A goroutine that ran ends, or goes on as \<open>g\<close>.\<close>

lemma run_put_drop:
  assumes ok: "cluster_ok s" and i: "i < length (servers s)"
    and "raft_ok rf" "srv_step (servers s ! i) rf" "\<forall>g \<in> set gs. body_ok (length (servers s)) i True rf g"
  shows "cluster_ok (spawn i gs (drop_task k (put i rf s))) \<and> servers_step s (spawn i gs (drop_task k (put i rf s)))"
  using assms by (auto intro!: cluster_ok_spawn cluster_ok_drop cluster_ok_put [OF ok i] intro: servers_step_put)

lemma run_put_goto:
  fixes s :: "'c cluster" and k :: nat
  defines "i \<equiv> owner (tasks s ! k)"
  assumes ok: "cluster_ok s" and i: "i < length (servers s)" and "k < length (tasks s)" and "alive (tasks s ! k)"
    and "raft_ok rf" "srv_step (servers s ! i) rf" "body_ok (length (servers s)) i True rf g"
      "\<forall>g \<in> set gs. body_ok (length (servers s)) i True rf g"
  shows "cluster_ok (spawn i gs (goto_task k g (put i rf s))) \<and> servers_step s (spawn i gs (goto_task k g (put i rf s)))"
  using assms(3-) unfolding i_def
  by (auto intro!: cluster_ok_spawn cluster_ok_goto cluster_ok_put [OF ok i [unfolded i_def]] intro: servers_step_put)

lemma alive_body:
  assumes "cluster_ok s" and "k < length (tasks s)" and "alive (tasks s ! k)"
  shows "owner (tasks s ! k) < length (servers s)"
    "body_ok (length (servers s)) (owner (tasks s ! k)) True (servers s ! owner (tasks s ! k)) (body (tasks s ! k))"
  using assms cluster_ok_task [OF assms(1), of "tasks s ! k"] by (simp_all add: task_ok_def)

text \<open>What \<open>replicateTo\<close> sends is as the model expects it.\<close>

lemma send_body_ok:
  assumes ok: "raft_ok rf" and p: "0 \<le> p" "p < npeers rf" and n: "npeers rf = int n" and ps: "\<forall>q \<in> set ps. 0 \<le> q \<and> q < int n"
  shows "body_ok n i True rf (case if rstate rf = leader \<and> curTerm rf = t then Some (request p rf) else None of
    None \<Rightarrow> Repl ps t | Some args \<Rightarrow> ReplCall (p # ps) t args)"
proof (cases "rstate rf = leader \<and> curTerm rf = t")
  case True
  then have l: "leader_ok rf" using ok by (simp add: raft_ok_def)
  then show ?thesis
    using True p n ps request_ok [OF ok l p] by (simp add: repl_inv_def sent_ok_def) (simp add: request_def)
qed (use p ps n in auto)

lemma run_send_ok:
  assumes ok: "cluster_ok s" and k: "k < length (tasks s)" and al: "alive (tasks s ! k)" and bd: "body (tasks s ! k) = Repl (p # ps) t"
    and d: "run_task k (owner (tasks s ! k)) e (body (tasks s ! k)) s = Some s'"
  shows "cluster_ok s' \<and> servers_step s s'"
proof -
  let ?i = "owner (tasks s ! k)" let ?rf = "servers s ! ?i"
  note own = alive_body [OF ok k al] note srv = cluster_okD [OF ok own(1)]
  have p: "0 \<le> p" "p < npeers ?rf" "\<forall>q \<in> set ps. 0 \<le> q \<and> q < int (length (servers s))" using own(2) bd srv(3) by auto
  let ?g = "case if rstate ?rf = leader \<and> curTerm ?rf = t then Some (request p ?rf) else None of
    None \<Rightarrow> Repl ps t | Some args \<Rightarrow> ReplCall (p # ps) t args"
  have "s' = spawn ?i [] (goto_task k ?g (put ?i ?rf s))"
    using d bd replicate_send_eq [OF srv(1) p(1,2), of t] by (simp add: attempt_def)
  then show ?thesis
    using run_put_goto [OF ok own(1) k al srv(1) srv_step_refl send_body_ok [OF srv(1) p(1,2) srv(3) p(3)], of "[]"] by simp
qed

lemma run_return_ok:
  assumes ok: "cluster_ok s" and k: "k < length (tasks s)" and al: "alive (tasks s ! k)" and bd: "body (tasks s ! k) = ReplDone ps t args reply"
    and d: "run_task k (owner (tasks s ! k)) e (body (tasks s ! k)) s = Some s'"
  shows "cluster_ok s' \<and> servers_step s s'"
proof -
  let ?i = "owner (tasks s ! k)" let ?rf = "servers s ! ?i"
  note own = alive_body [OF ok k al] note srv = cluster_okD [OF ok own(1)]
  obtain p ps' where ps: "ps = p # ps'" using own(2) bd by (cases ps) auto
  then have p: "0 \<le> p" "p < npeers ?rf" "\<forall>q \<in> set ps'. 0 \<le> q \<and> q < int (length (servers s))"
    and a: "args_ok args" "reply_ok args reply" "sent_ok t args ?rf"
    using own(2) bd srv(3) by (auto simp: repl_inv_def)
  obtain rf again gs where r: "replicate_return e p t args reply ?rf = Some (rf, again, gs)"
    "raft_ok rf" "srv_step ?rf rf" "\<forall>g \<in> set gs. \<exists>q. g = Repl [q] t \<and> 0 \<le> q \<and> q < npeers ?rf"
    using replicate_return_total [OF srv(1) p(1,2) a, of e] by (auto simp: srv_step_def)
  have "s' = spawn ?i gs (goto_task k (if again then Repl (p # ps') t else Repl ps' t) (put ?i rf s))"
    using d bd ps r(1) by (simp add: attempt_def)
  then show ?thesis using p r srv(3) by (simp only:) (rule run_put_goto [OF ok own(1) k al r(2,3)], auto)
qed

lemma run_ok:
  assumes ok: "cluster_ok s" and k: "k < length (tasks s)" and al: "alive (tasks s ! k)"
    and d: "run_task k (owner (tasks s ! k)) e (body (tasks s ! k)) s = Some s'"
  shows "cluster_ok s' \<and> servers_step s s'"
proof -
  let ?i = "owner (tasks s ! k)" let ?rf = "servers s ! ?i"
  note own = alive_body [OF ok k al] note srv = cluster_okD [OF ok own(1)]
  note put_drop = run_put_drop [OF ok own(1)]
  show ?thesis
  proof (cases "body (tasks s ! k)")
    case (VoteDone p reply m t)
    obtain rf gs where r: "VoteReturn e reply m t ?rf = Some (rf, gs)" "raft_ok rf"
      using VoteReturn_total [OF srv(1)] by blast
    have "\<forall>g \<in> set gs. body_ok (length (servers s)) ?i True rf g"
      using r(1) srv by (cases rule: VoteReturn_cases) auto
    then show ?thesis
      using d VoteDone r put_drop [OF r(2) VoteReturn_step [OF srv(1) r(1)], of gs k] by (simp add: attempt_def)
  next
    case BeginBeat
    then show ?thesis
      using d put_drop [OF raft_ok_heartbeat_clock [OF srv(1)] srv_step_clock, of "snd (StartHeartbeat e ?rf)" _ k] srv(2,3)
      by (auto simp: StartHeartbeat_eq)
  next
    case (BeatDone p reply t)
    then show ?thesis
      using d put_drop [OF raft_ok_BeatReturn [OF srv(1)] BeatReturn_step, of "[Repl [p] t]" e p reply t k] own(2)
      by (simp add: BeatReturn_def)
  next
    case (Repl ps t)
    then show ?thesis
      using d ok run_send_ok [OF ok k al _ d] by (cases ps) (auto intro: cluster_ok_drop servers_step_same)
  next
    case (ReplDone ps t args reply)
    then show ?thesis using run_return_ok [OF ok k al _ d] by blast
  qed (use d in auto)
qed

lemma LifeAct_ok:
  assumes ok: "cluster_ok s" and d: "cstep (LifeAct i e) s = Some s'"
  shows "cluster_ok s' \<and> servers_step s s'"
proof -
  have i: "i < length (servers s)" using d by (auto split: if_splits)
  obtain sn where sn: "lives s ! i = Some sn" using d by (auto split: if_splits option.splits)
  note srv = cluster_okD [OF ok i]
  let ?rf = "servers s ! i" and ?n = "length (servers s)"
  obtain rf gs where r: "life_act e sn ?rf = Some (rf, gs)" "raft_ok rf"
    using life_act_total [OF srv(1)] by blast
  have step: "srv_step ?rf rf" by (rule life_act_step [OF srv(1) r(1)])
  have gs: "\<forall>g \<in> set gs. body_ok ?n i True rf g"
    using r(1)
  proof (cases rule: life_act_cases)
    case election
    then show ?thesis
      using StartElection_total [OF srv(1), of e] srv(2,3) by (auto split: if_splits)
  next
    case beat
    then show ?thesis using srv(2,3) by (auto simp: StartHeartbeat_eq)
  qed simp
  have "cluster_ok (put i rf s)" using cluster_ok_put [OF ok i r(2) step] .
  then have "cluster_ok (put i rf s\<lparr>lives := (lives s)[i := None]\<rparr>)"
    using cluster_ok_lives [of "put i rf s"] by simp
  then show ?thesis
    using d i sn r(1) gs step by (auto simp: attempt_def intro!: cluster_ok_spawn intro: servers_step_put)
qed

lemma Client_ok:
  assumes ok: "cluster_ok s" and d: "cstep (Client i cmd) s = Some s'"
  shows "cluster_ok s' \<and> servers_step s s'"
proof -
  have i: "i < length (servers s)" using d by (auto split: if_splits)
  note srv = cluster_okD [OF ok i]
  obtain rf res gs where r: "Start cmd (servers s ! i) = Some (rf, res, gs)" "raft_ok rf"
    "gs = [] \<or> gs = map (\<lambda>p. Repl [p] (curTerm (servers s ! i))) (others (servers s ! i))"
    using Start_total [OF srv(1), of cmd] by (auto split: if_splits)
  have "\<forall>g \<in> set gs. body_ok (length (servers s)) i True rf g"
    using r(3) srv(2,3) by auto
  then show ?thesis
    using d i r(1) cluster_ok_put [OF ok i r(2) Start_step [OF srv(1) r(1)]]
      Start_step [OF srv(1) r(1)]
    by (auto simp: attempt_def intro!: cluster_ok_spawn intro: servers_step_put)
qed

lemma Apply_ok:
  assumes ok: "cluster_ok s" and d: "cstep (Apply i) s = Some s'"
  shows "cluster_ok s' \<and> servers_step s s'"
proof -
  have i: "i < length (servers s)" using d by (auto split: if_splits)
  obtain rf b where r: "apply_one (servers s ! i) = Some (rf, b)" "raft_ok rf" "srv_step (servers s ! i) rf"
    using apply_one_total [OF cluster_okD(1) [OF ok i]] by (auto simp: srv_step_def)
  then show ?thesis
    using d i cluster_ok_put [OF ok i r(2,3)] by (auto simp: attempt_def intro: servers_step_put)
qed

text \<open>A restarted server has the term, vote and log it had.\<close>

lemma restart_sel:
  assumes "raft_ok rf"
  shows "curTerm (Make e n i (Copy (persister rf))) = curTerm rf"
    "votedFor (Make e n i (Copy (persister rf))) = votedFor rf"
    "rlog (Make e n i (Copy (persister rf))) = rlog rf"
    "rstate (Make e n i (Copy (persister rf))) = follower"
    "me (Make e n i (Copy (persister rf))) = i"
    "npeers (Make e n i (Copy (persister rf))) = n"
    "persisted (Make e n i (Copy (persister rf)))"
    "timeout_ok (Make e n i (Copy (persister rf)))"
    "applied_ok (Make e n i (Copy (persister rf)))"
proof -
  note p = raft_okD(6,3) [OF assms]
  show res: "curTerm (Make e n i (Copy (persister rf))) = curTerm rf"
    "votedFor (Make e n i (Copy (persister rf))) = votedFor rf"
    "rlog (Make e n i (Copy (persister rf))) = rlog rf"
    using Make_restores [OF p] by simp_all
  show "rstate (Make e n i (Copy (persister rf))) = follower"
    "me (Make e n i (Copy (persister rf))) = i" "npeers (Make e n i (Copy (persister rf))) = n"
    "applied_ok (Make e n i (Copy (persister rf)))"
    by (auto simp: Make_def readPersist_def Let_def applied_ok_def split: option.splits)
  have "persister (Make e n i (Copy (persister rf))) = Copy (persister rf)"
    by (auto simp: Make_def readPersist_def Let_def split: option.splits)
  then show "persisted (Make e n i (Copy (persister rf)))"
    using p(1) res by (simp add: persisted_def raft_slot.load_copy)
  have "electionTimeout (Make e n i (Copy (persister rf))) =
      electionTimeout (resetElectionTimeoutLocked e rf)"
    by (auto simp: Make_def readPersist_def Let_def resetElectionTimeoutLocked_def
        updateLastHeartbeatLocked_def split: option.splits)
  then show "timeout_ok (Make e n i (Copy (persister rf)))"
    using timeout_ok_reset [of e rf] by (simp add: timeout_ok_def)
qed

lemma raft_ok_restart:
  "raft_ok rf \<Longrightarrow> raft_ok (Make e (npeers rf) (me rf) (Copy (persister rf)))"
  using restart_sel [of rf e "npeers rf" "me rf"] by (simp add: raft_ok_def)

lemma Restart_ok:
  assumes ok: "cluster_ok s" and d: "cstep (Restart i e) s = Some s'"
  shows "cluster_ok s' \<and> servers_step s s'"
proof -
  have i: "i < length (servers s)" using d by (auto split: if_splits)
  note srv = cluster_okD [OF ok i]
  let ?rf = "servers s ! i" and ?new = "Make e (npeers (servers s ! i)) (int i) (Copy (persister (servers s ! i)))"
  have new: "server_ok (length (servers s)) i ?new"
    using raft_ok_restart [OF srv(1), of e] restart_sel(5,6) [OF srv(1)] srv(2,3)
    by (simp add: server_ok_def)
  have tk: "task_ok ((servers s)[i := ?new]) (if owner t = i then t\<lparr>alive := False\<rparr> else t)"
    if "t \<in> set (tasks s)" for t
    using cluster_ok_task [OF ok that] i body_ok_dead
    by (cases "owner t = i") (fastforce simp: task_ok_def)+
  have s': "servers s' = (servers s)[i := ?new]" "lives s' = (lives s)[i := None]" "panicked s' = panicked s"
    "tasks s' = map (\<lambda>t. if owner t = i then t\<lparr>alive := False\<rparr> else t) (tasks s)"
    using d i by auto
  have "task_ok (servers s') t" if "t \<in> set (tasks s')" for t
    using that tk unfolding s' set_map by (elim imageE) (simp only:)
  then have "cluster_ok s'"
    using ok new i unfolding cluster_ok_def s' by (auto simp: nth_list_update)
  moreover have "srv_step ?rf ?new"
    using restart_sel(1,4-6) [OF srv(1)] srv(2,3) by (simp add: srv_step_def)
  ultimately show ?thesis using s'(1) by (blast intro: servers_step_put)
qed

lemma cstep_ok:
  assumes "cluster_ok s" and "cstep ev s = Some s'"
  shows "cluster_ok s' \<and> servers_step s s'"
proof (cases ev)
  case (LifeRead i)
  then show ?thesis using assms by (auto simp: cluster_ok_lives servers_step_same split: if_splits)
next
  case (LifeAct i e)
  then show ?thesis using assms LifeAct_ok by blast
next
  case (Deliver k e)
  then show ?thesis using assms deliver_ok by (simp split: if_splits)
next
  case (Fail k)
  then show ?thesis using assms fail_ok by (simp split: if_splits)
next
  case (Late k)
  then show ?thesis using assms Late_ok by blast
next
  case (Run k e)
  then show ?thesis using assms run_ok by (simp split: if_splits)
next
  case (Client i cmd)
  then show ?thesis using assms Client_ok by blast
next
  case (Apply i)
  then show ?thesis using assms Apply_ok by blast
next
  case (Restart i e)
  then show ?thesis using assms Restart_ok by blast
qed

lemmas cluster_ok_cstep = cstep_ok [THEN conjunct1]
lemmas servers_step_cstep = cstep_ok [THEN conjunct2]

interpretation cluster: invariant_system is_boot cluster_step cluster_ok
proof unfold_locales
  show "cluster_ok s" if "is_boot s" for s :: "'c cluster"
    using that by (auto simp: is_boot_def intro: cluster_ok_boot)
  show "cluster_ok t" if "cluster_step s t" "cluster_ok s" for s t :: "'c cluster"
    using that by (auto simp: cluster_step_def intro: cluster_ok_cstep)
qed

end
