(* ===== verification/Raft_Safety.thy ===== *)
theory Raft_Safety
  imports Raft_Cluster
begin

text \<open>
  Election safety: in runs in which replies are handled in time, no two servers lead the
  same term. The invariant relates the votes ever given, the tally of every candidate and
  the vote replies still in flight.
\<close>

section \<open>Votes in flight\<close>

text \<open>The live election goroutines, by candidate, voter and term.\<close>

definition vkey :: "'c task \<Rightarrow> (nat \<times> int \<times> int) list" where
  "vkey tk = (if alive tk then
     (case body tk of
        VoteCall p args n t \<Rightarrow> [(owner tk, p, t)]
      | VoteDone p reply n t \<Rightarrow> [(owner tk, p, t)]
      | _ \<Rightarrow> [])
     else [])"

definition vkeys :: "'c task list \<Rightarrow> (nat \<times> int \<times> int) list" where
  "vkeys ts = concat (map vkey ts)"

text \<open>The votes that live goroutines have been granted but have not counted yet.\<close>

definition gkey :: "'c task \<Rightarrow> (int \<times> int \<times> int) list" where
  "gkey tk = (if alive tk then
     (case body tk of
        VoteDone p reply n t \<Rightarrow> if rvr_Vote reply then [(p, t, int (owner tk))] else []
      | _ \<Rightarrow> [])
     else [])"

definition gkeys :: "'c task list \<Rightarrow> (int \<times> int \<times> int) list" where
  "gkeys ts = concat (map gkey ts)"

lemma gkey_VoteDone [simp]:
  "gkey (tk\<lparr>body := VoteDone p reply n t\<rparr>) =
     (if alive tk \<and> rvr_Vote reply then [(p, t, int (owner tk))] else [])"
  by (simp add: gkey_def)

lemma keys_append [simp]:
  "vkeys (xs @ ys) = vkeys xs @ vkeys ys" "gkeys (xs @ ys) = gkeys xs @ gkeys ys"
  "vkeys [] = []" "gkeys [] = []" "vkeys [t] = vkey t" "gkeys [t] = gkey t"
  by (simp_all add: vkeys_def gkeys_def)

lemma keys_remove_nth:
  assumes "k < length ts"
  shows "mset (vkeys ts) = mset (vkey (ts ! k)) + mset (vkeys (remove_nth k ts))"
    "set (gkeys ts) = set (gkey (ts ! k)) \<union> set (gkeys (remove_nth k ts))"
proof -
  have "vkeys (take k ts @ ts ! k # drop (Suc k) ts) =
      vkeys (take k ts) @ vkey (ts ! k) @ vkeys (drop (Suc k) ts)"
    by (simp add: vkeys_def)
  then show "mset (vkeys ts) = mset (vkey (ts ! k)) + mset (vkeys (remove_nth k ts))"
    using id_take_nth_drop [OF assms] by (simp add: remove_nth_def)
  have "gkeys (take k ts @ ts ! k # drop (Suc k) ts) =
      gkeys (take k ts) @ gkey (ts ! k) @ gkeys (drop (Suc k) ts)"
    by (simp add: gkeys_def)
  then show "set (gkeys ts) = set (gkey (ts ! k)) \<union> set (gkeys (remove_nth k ts))"
    using id_take_nth_drop [OF assms] by (auto simp: remove_nth_def)
qed

lemma distinct_submset:
  assumes "mset xs \<subseteq># mset ys" and "distinct ys"
  shows "distinct xs"
proof -
  have "count (mset xs) a = (if a \<in> set xs then 1 else 0)" for a
  proof -
    have "count (mset xs) a \<le> count (mset ys) a" using assms(1) by (rule mset_subset_eq_count)
    also have "\<dots> \<le> 1" using assms(2) by (simp add: distinct_count_atmost_1)
    finally have le: "count (mset xs) a \<le> 1" .
    show ?thesis
    proof (cases "a \<in> set xs")
      case True
      then have "0 < count (mset xs) a" by (simp only: count_greater_zero_iff set_mset_mset)
      then have "count (mset xs) a = 1" using le by linarith
      then show ?thesis using True by (simp only: if_True)
    next
      case False
      then show ?thesis by (simp add: not_in_iff)
    qed
  qed
  then show ?thesis by (simp add: distinct_count_atmost_1)
qed

text \<open>Goroutines that have nothing to do with votes.\<close>

fun no_vote :: "'c gort \<Rightarrow> bool" where
  "no_vote (VoteCall p args n t) = False"
| "no_vote (VoteDone p reply n t) = False"
| "no_vote _ = True"

lemma no_vote_keys [simp]: "no_vote (body tk) \<Longrightarrow> vkey tk = []" "no_vote (body tk) \<Longrightarrow> gkey tk = []"
  by (cases "body tk"; simp add: vkey_def gkey_def)+

lemma no_vote_spawn:
  assumes "\<forall>g \<in> set gs. no_vote g"
  shows "vkeys (map (\<lambda>g. \<lparr>owner = i, alive = True, body = g\<rparr>) gs) = []"
    "gkeys (map (\<lambda>g. \<lparr>owner = i, alive = True, body = g\<rparr>) gs) = []"
  using assms by (induction gs) (auto simp: vkeys_def gkeys_def)

section \<open>The invariant\<close>

text \<open>The voters of a server in its current term, and those it has counted already.\<close>

definition backers :: "'c cluster \<Rightarrow> nat \<Rightarrow> int set" where
  "backers s c = {v. (v, curTerm (servers s ! c), int c) \<in> set (votes s)}"

definition counted :: "'c cluster \<Rightarrow> nat \<Rightarrow> int set" where
  "counted s c = {v \<in> backers s c. (c, v, curTerm (servers s ! c)) \<notin> set (vkeys (tasks s))}"

definition votes_ok :: "'c cluster \<Rightarrow> bool" where
  "votes_ok s \<longleftrightarrow>
     (\<forall>v t c. (v, t, c) \<in> set (votes s) \<longrightarrow>
        0 \<le> v \<and> v < int (length (servers s)) \<and> 0 \<le> c \<and> t \<le> curTerm (servers s ! nat v) \<and>
        (t = curTerm (servers s ! nat v) \<longrightarrow> votedFor (servers s ! nat v) = c)) \<and>
     (\<forall>v t c c'. (v, t, c) \<in> set (votes s) \<and> (v, t, c') \<in> set (votes s) \<longrightarrow> c = c')"

definition election_ok :: "'c cluster \<Rightarrow> bool" where
  "election_ok s \<longleftrightarrow> votes_ok s \<and> set (gkeys (tasks s)) \<subseteq> set (votes s) \<and>
     distinct (vkeys (tasks s)) \<and>
     (\<forall>c < length (servers s). rstate (servers s ! c) = candidate \<longrightarrow>
        voteCount (servers s ! c) \<le> int (card (counted s c))) \<and>
     (\<forall>c < length (servers s). rstate (servers s ! c) = leader \<longrightarrow>
        majority (int (length (servers s))) (backers s c))"

lemma votes_okD:
  assumes "votes_ok s" and "(v, t, c) \<in> set (votes s)"
  shows "0 \<le> v" "v < int (length (servers s))" "0 \<le> c" "t \<le> curTerm (servers s ! nat v)"
    "t = curTerm (servers s ! nat v) \<Longrightarrow> votedFor (servers s ! nat v) = c"
  using assms by (auto simp: votes_ok_def)

lemma backers_range: "votes_ok s \<Longrightarrow> backers s c \<subseteq> {0..<int (length (servers s))}"
  by (auto simp: backers_def dest: votes_okD)

lemma finite_backers: "votes_ok s \<Longrightarrow> finite (backers s c)"
  using backers_range finite_subset by blast

lemma counted_subset: "counted s c \<subseteq> backers s c"
  by (auto simp: counted_def)

text \<open>Leaders of one term have majorities of voters, which meet.\<close>

lemma election_ok_unique:
  assumes "election_ok s" and "c < length (servers s)" and "d < length (servers s)"
    and "rstate (servers s ! c) = leader" and "rstate (servers s ! d) = leader"
    and "curTerm (servers s ! c) = curTerm (servers s ! d)"
  shows "c = d"
proof -
  let ?t = "curTerm (servers s ! c)"
  have "int c = int d"
  proof (rule maj.unique_choice [where R = "\<lambda>v x. (v, ?t, x) \<in> set (votes s)"])
    show "majority (int (length (servers s))) {v. (v, ?t, int c) \<in> set (votes s)}"
      "majority (int (length (servers s))) {v. (v, ?t, int d) \<in> set (votes s)}"
      using assms by (auto simp: election_ok_def backers_def)
    show "x = y" if "(v, ?t, x) \<in> set (votes s)" "(v, ?t, y) \<in> set (votes s)" for v x y
      using assms(1) that by (auto simp: election_ok_def votes_ok_def)
  qed
  then show ?thesis by simp
qed

section \<open>Steps that elect nobody\<close>

text \<open>A change of one server that starts no candidacy, wins nothing and keeps its vote.\<close>

definition quiet :: "'c Raft \<Rightarrow> 'c Raft \<Rightarrow> bool" where
  "quiet rf rf' \<longleftrightarrow> vote_step rf rf' \<and>
     (rstate rf' = candidate \<longrightarrow> rstate rf = candidate \<and> curTerm rf' = curTerm rf \<and>
        voteCount rf' = voteCount rf) \<and>
     (rstate rf' = leader \<longrightarrow> rstate rf = leader \<and> curTerm rf' = curTerm rf)"

lemma quiet_refl [simp]: "quiet rf rf"
  by (simp add: quiet_def)

lemma quiet_stepDown: "curTerm rf < t \<Longrightarrow> quiet rf (stepDownLocked e t rf)"
  by (simp add: quiet_def vote_step_stepDown)

lemma votes_ok_put:
  assumes "votes_ok s" and "servers s' = (servers s)[i := rf]" and "votes s' = votes s"
    and "vote_step (servers s ! i) rf"
  shows "votes_ok s'"
proof (cases "i < length (servers s)")
  case False
  then have "servers s' = servers s" using assms(2) by (simp add: list_update_beyond)
  then show ?thesis using assms(1,3) by (simp add: votes_ok_def)
next
  case True
  have *: "t \<le> curTerm rf \<and> (t = curTerm rf \<longrightarrow> votedFor rf = c)"
    if "(v, t, c) \<in> set (votes s)" "nat v = i" for v t c
    using votes_okD [OF assms(1) that(1)] that(2) assms(4)
    by (cases "t = curTerm rf") (auto simp: vote_step_def)
  show ?thesis
    unfolding votes_ok_def assms(2,3)
  proof (intro conjI allI impI)
    fix v t c
    assume vt: "(v, t, c) \<in> set (votes s)"
    note d = votes_okD [OF assms(1) vt]
    show "0 \<le> v" "0 \<le> c" "v < int (length ((servers s)[i := rf]))" using d by simp_all
    show "t \<le> curTerm ((servers s)[i := rf] ! nat v)"
      using d(4) * [OF vt] True by (cases "nat v = i") auto
    show "votedFor ((servers s)[i := rf] ! nat v) = c" if "t = curTerm ((servers s)[i := rf] ! nat v)"
      using d(5) * [OF vt] True that by (cases "nat v = i") auto
  next
    fix v t c c'
    assume "(v, t, c) \<in> set (votes s) \<and> (v, t, c') \<in> set (votes s)"
    then show "c = c'" using assms(1) by (auto simp: votes_ok_def)
  qed
qed

lemma quiet_vote: "quiet rf rf' \<Longrightarrow> vote_step rf rf'"
  by (simp add: quiet_def)

text \<open>A vote is recorded.\<close>

lemma votes_ok_more:
  assumes ok: "votes_ok s" and srv: "servers s' = servers s" and vt: "votes s' = (v, t, c) # votes s"
    and v: "0 \<le> v" "v < int (length (servers s))" "0 \<le> c"
    and cur: "curTerm (servers s ! nat v) = t" "votedFor (servers s ! nat v) = c"
    and uniq: "\<And>x. (v, t, x) \<in> set (votes s) \<Longrightarrow> x = c"
  shows "votes_ok s'"
  unfolding votes_ok_def srv vt
proof (intro conjI allI impI)
  fix w u x
  assume "(w, u, x) \<in> set ((v, t, c) # votes s)"
  then have *: "(w = v \<and> u = t \<and> x = c) \<or> (w, u, x) \<in> set (votes s)" by auto
  then show "0 \<le> w" "w < int (length (servers s))" "0 \<le> x" "u \<le> curTerm (servers s ! nat w)"
    using v cur votes_okD [OF ok, of w u x] by auto
  show "votedFor (servers s ! nat w) = x" if "u = curTerm (servers s ! nat w)"
    using * that cur votes_okD(5) [OF ok, of w u x] by auto
next
  fix w u x y
  assume "(w, u, x) \<in> set ((v, t, c) # votes s) \<and> (w, u, y) \<in> set ((v, t, c) # votes s)"
  then show "x = y" using uniq ok by (auto simp: votes_ok_def)
qed

text \<open>
  The frame lemma: one server changes quietly, votes may be added, and election goroutines
  may only disappear.
\<close>

lemma election_ok_grow:
  assumes ok: "election_ok s" and v': "votes_ok s'"
    and srv: "servers s' = (servers s)[i := rf]" and vt: "set (votes s) \<subseteq> set (votes s')"
    and q: "quiet (servers s ! i) rf"
    and keys: "mset (vkeys (tasks s')) \<subseteq># mset (vkeys (tasks s))"
    and grants: "set (gkeys (tasks s')) \<subseteq> set (votes s')"
  shows "election_ok s'"
proof -
  have n: "length (servers s') = length (servers s)" using srv by simp
  have sub: "set (vkeys (tasks s')) \<subseteq> set (vkeys (tasks s))"
    using set_mset_mono [OF keys] by simp
  have dist: "distinct (vkeys (tasks s'))"
    using ok distinct_submset [OF keys] by (simp add: election_ok_def)
  have bk: "backers s c \<subseteq> backers s' c"
    if "curTerm (servers s' ! c) = curTerm (servers s ! c)" for c
    using that vt by (auto simp: backers_def)
  have cntd: "counted s c \<subseteq> counted s' c"
    if "curTerm (servers s' ! c) = curTerm (servers s ! c)" for c
    using that sub bk [OF that] by (auto simp: counted_def)
  have same: "servers s' ! c = servers s ! c \<or> (c = i \<and> servers s' ! c = rf)" if "c < length (servers s)" for c
    using that srv by (cases "i = c") auto
  have cand: "voteCount (servers s' ! c) \<le> int (card (counted s' c))"
    if "c < length (servers s)" "rstate (servers s' ! c) = candidate" for c
  proof -
    have *: "rstate (servers s ! c) = candidate" "curTerm (servers s' ! c) = curTerm (servers s ! c)"
      "voteCount (servers s' ! c) = voteCount (servers s ! c)"
      using same [OF that(1)] that(2) q by (auto simp: quiet_def)
    have "card (counted s c) \<le> card (counted s' c)"
      using cntd [OF *(2)] finite_subset [OF counted_subset finite_backers [OF v']] by (rule card_mono [rotated])
    then show ?thesis using ok that(1) * by (force simp: election_ok_def)
  qed
  have lead: "majority (int (length (servers s'))) (backers s' c)"
    if "c < length (servers s)" "rstate (servers s' ! c) = leader" for c
  proof -
    have *: "rstate (servers s ! c) = leader" "curTerm (servers s' ! c) = curTerm (servers s ! c)"
      using same [OF that(1)] that(2) q by (auto simp: quiet_def)
    then have "majority (int (length (servers s'))) (backers s c)"
      using ok that(1) n by (simp add: election_ok_def)
    then show ?thesis using bk [OF *(2)] by (rule maj.quorum_up)
  qed
  then show ?thesis using v' dist cand grants n by (simp add: election_ok_def)
qed

lemma election_ok_frame:
  assumes "election_ok s" and "servers s' = (servers s)[i := rf]" and "votes s' = votes s"
    and "quiet (servers s ! i) rf" and "mset (vkeys (tasks s')) \<subseteq># mset (vkeys (tasks s))"
    and "set (gkeys (tasks s')) \<subseteq> set (gkeys (tasks s))"
  shows "election_ok s'"
proof (rule election_ok_grow [OF assms(1) _ assms(2) _ assms(4,5)])
  show "votes_ok s'"
    using votes_ok_put [OF _ assms(2,3)] assms(1,4) by (simp add: election_ok_def quiet_def)
  show "set (votes s) \<subseteq> set (votes s')" using assms(3) by simp
  show "set (gkeys (tasks s')) \<subseteq> set (votes s')"
    using assms(1,3,6) by (auto simp: election_ok_def)
qed

lemma election_ok_put: "election_ok s \<Longrightarrow> quiet (servers s ! i) rf \<Longrightarrow> election_ok (put i rf s)"
  by (rule election_ok_frame [of s _ i rf]) simp_all

lemma election_ok_same:
  assumes "election_ok s" and "servers s' = servers s" and "votes s' = votes s"
    and "mset (vkeys (tasks s')) \<subseteq># mset (vkeys (tasks s))"
    and "set (gkeys (tasks s')) \<subseteq> set (gkeys (tasks s))"
  shows "election_ok s'"
  using assms by (intro election_ok_frame [of s s' 0 "servers s ! 0"]) simp_all

lemma election_ok_spawn:
  "election_ok s \<Longrightarrow> \<forall>g \<in> set gs. no_vote g \<Longrightarrow> election_ok (spawn i gs s)"
  by (rule election_ok_same [of s]) (simp_all add: no_vote_spawn)

lemma election_ok_drop: "election_ok s \<Longrightarrow> k < length (tasks s) \<Longrightarrow> election_ok (drop_task k s)"
  by (rule election_ok_same [of s]) (auto simp: keys_remove_nth [of k "tasks s"])

lemma election_ok_goto:
  assumes "election_ok s" and "k < length (tasks s)" and "no_vote g"
  shows "election_ok (goto_task k g s)"
  using assms by (intro election_ok_same [OF assms(1)]) (auto simp: keys_remove_nth [OF assms(2)])

section \<open>Quiet critical sections\<close>

lemma quiet_AppendEntries:
  assumes "AppendEntries e args rf = Some (rf', reply)" and "0 \<le> aea_PrevLogIndex args"
  shows "quiet rf rf'"
  using AppendEntries_frame(6,7,8) [OF assms]
  by (cases "aea_Term args < curTerm rf") (auto simp: quiet_def)

lemma quiet_Heartbeat:
  assumes "Heartbeat e args rf = (rf', reply)"
  shows "quiet rf rf'"
  using Heartbeat_sel(10-12) [OF assms]
  by (cases "hba_Term args < curTerm rf") (auto simp: quiet_def)

lemma quiet_RequestVote:
  assumes "RequestVote e args rf = Some (rf', reply)" and "rlog rf \<noteq> []"
  shows "quiet rf rf'"
  using RequestVote_frame(9,10,11,16) [OF assms]
  by (cases "rva_ElectionTerm args > curTerm rf") (auto simp: quiet_def)

lemma quiet_clock: "quiet rf (updateLastHeartbeatLocked e rf)"
  by (simp add: quiet_def vote_step_def)

lemma quiet_replicate_return:
  assumes "raft_ok rf" and "0 \<le> p" and "p < npeers rf" and "args_ok args" and "reply_ok args reply"
    and "sent_ok t args rf" and "replicate_return e p t args reply rf = Some (rf', again, gs)"
  shows "quiet rf rf'"
  using replicate_return_total [OF assms(1-6), of e] assms(7)
  by (auto simp: quiet_stepDown) (simp add: quiet_def vote_step_def)

lemma quiet_Start: "raft_ok rf \<Longrightarrow> Start cmd rf = Some (rf', res, gs) \<Longrightarrow> quiet rf rf'"
  using Start_total [of rf cmd] by (auto simp: quiet_def vote_step_def split: if_splits)

lemma quiet_apply: "raft_ok rf \<Longrightarrow> apply_one rf = Some (rf', b) \<Longrightarrow> quiet rf rf'"
  using apply_one_total [of rf] by (auto simp: quiet_def vote_step_def split: if_splits)

lemma quiet_restart: "raft_ok rf \<Longrightarrow> quiet rf (Make e n i (Copy (persister rf)))"
  using restart_sel [of rf e n i] by (simp add: quiet_def vote_step_def)


section \<open>Elections\<close>

lemma keys_owner:
  assumes "cluster_ok s" and "(i, p, t) \<in> set (vkeys (tasks s))"
  shows "i < length (servers s)" "t \<le> curTerm (servers s ! i)" "p \<noteq> int i"
proof -
  obtain tk where tk: "tk \<in> set (tasks s)" "(i, p, t) \<in> set (vkey tk)"
    using assms(2) by (auto simp: vkeys_def)
  have "task_ok (servers s) tk" using assms(1) tk(1) by (rule cluster_ok_task)
  then show "i < length (servers s)" "t \<le> curTerm (servers s ! i)" "p \<noteq> int i"
    using tk(2) by (auto simp: vkey_def task_ok_def split: gort.splits if_splits)
qed

text \<open>A server that starts an election in a new term, with its own vote.\<close>

lemma election_ok_start:
  assumes ok: "election_ok s" and c: "cluster_ok s" and i: "i < length (servers s)"
    and rf: "curTerm rf = curTerm (servers s ! i) + 1" "votedFor rf = int i" "voteCount rf = 1"
    and srv: "servers s' = (servers s)[i := rf]"
    and vt: "votes s' = (int i, curTerm rf, int i) # votes s"
    and keys: "vkeys (tasks s') = vkeys (tasks s) @ map (\<lambda>p. (i, p, curTerm rf)) ps"
      "gkeys (tasks s') = gkeys (tasks s)" "distinct ps" "int i \<notin> set ps"
    and win: "rstate rf = leader \<longrightarrow> int (length (servers s)) div 2 < 1"
  shows "election_ok s'"
proof -
  let ?n = "length (servers s)" and ?T = "curTerm rf"
  have v: "votes_ok s" using ok by (simp add: election_ok_def)
  have new: "(i, p, ?T) \<notin> set (vkeys (tasks s))" for p
    using keys_owner(2) [OF c, of i p ?T] rf(1) by auto
  have old: "t < ?T" if "(int i, t, d) \<in> set (votes s)" for t d
    using votes_okD(4) [OF v that] rf(1) by simp
  have put: "votes_ok (put i rf s)"
    using votes_ok_put [OF v, of "put i rf s" i rf] rf(1) by (simp add: vote_step_def)
  then have v': "votes_ok s'"
    by (rule votes_ok_more [where v = "int i" and t = ?T and c = "int i"])
      (use i rf(2) srv vt in \<open>auto dest: old\<close>)
  have bk: "backers s' d = backers s d" "counted s' d = counted s d" if "d \<noteq> i" for d
    using that by (auto simp: backers_def counted_def srv vt keys(1))
  have me: "int i \<in> counted s' i"
    using i new keys(4) by (auto simp: backers_def counted_def srv vt keys(1))
  then have card: "1 \<le> int (card (counted s' i))"
    using finite_subset [OF counted_subset finite_backers [OF v']] card_gt_0_iff [of "counted s' i"]
    by fastforce
  have "distinct (vkeys (tasks s'))"
    using ok keys(1,3) new by (auto simp: election_ok_def distinct_map inj_on_def)
  moreover have "set (gkeys (tasks s')) \<subseteq> set (votes s')"
    using ok keys(2) vt by (auto simp: election_ok_def)
  moreover have "voteCount (servers s' ! d) \<le> int (card (counted s' d))"
    if "d < ?n" "rstate (servers s' ! d) = candidate" for d
    using that ok card rf(3) bk srv i by (cases "d = i") (auto simp: election_ok_def)
  moreover have "majority (int ?n) (backers s' d)" if "d < ?n" "rstate (servers s' ! d) = leader" for d
  proof (cases "d = i")
    case True
    then have "rstate rf = leader" using that srv i by simp
    moreover have "backers s' i \<inter> {0..<int ?n} = backers s' i" using backers_range [OF v'] srv by auto
    moreover have "card (counted s' i) \<le> card (backers s' i)"
      by (rule card_mono [OF finite_backers [OF v'] counted_subset])
    ultimately show ?thesis using win card True by (auto simp: majority_def)
  next
    case False
    then show ?thesis using that ok bk srv by (simp add: election_ok_def)
  qed
  ultimately show ?thesis using v' srv by (simp add: election_ok_def)
qed

lemma LifeAct_election:
  assumes ok: "election_ok s" and c: "cluster_ok s" and d: "cstep (LifeAct i e) s = Some s'"
  shows "election_ok s'"
proof -
  have i: "i < length (servers s)" using d by (auto split: if_splits)
  obtain sn where sn: "lives s ! i = Some sn" using d by (auto split: if_splits option.splits)
  let ?rf = "servers s ! i"
  note srv = cluster_okD [OF c i]
  obtain rf gs where r: "life_act e sn ?rf = Some (rf, gs)"
    using life_act_total [OF srv(1)] by blast
  have s': "s' = spawn i gs (self_vote ?rf rf (put i rf s\<lparr>lives := (lives s)[i := None]\<rparr>))"
    using d i sn r by (simp add: attempt_def)
  show ?thesis
    using r
  proof (cases rule: life_act_cases)
    case election
    then have st: "curTerm rf = curTerm ?rf + 1" "votedFor rf = int i" "voteCount rf = 1" "me rf = int i"
      "if 1 > npeers ?rf div 2 then rstate rf = leader \<and> gs = [Repl (others ?rf) (curTerm rf)]
       else rstate rf = candidate \<and> (\<exists>args. gs = map (\<lambda>p. VoteCall p args (npeers ?rf) (curTerm rf)) (others ?rf))"
      using StartElection_total [OF srv(1), of e] srv(2) by (auto split: if_splits)
    define ps where "ps = (if 1 > npeers ?rf div 2 then [] else others ?rf)"
    have gs: "vkeys (map (\<lambda>g. \<lparr>owner = i, alive = True, body = g\<rparr>) gs) = map (\<lambda>p. (i, p, curTerm rf)) ps"
      "gkeys (map (\<lambda>g. \<lparr>owner = i, alive = True, body = g\<rparr>) gs) = []"
      using st(5) by (auto simp: ps_def vkeys_def gkeys_def vkey_def gkey_def comp_def split: if_splits)
    show ?thesis
    proof (rule election_ok_start [OF ok c i st(1-3), of s' ps])
      show "servers s' = (servers s)[i := rf]" using s' by simp
      show "votes s' = (int i, curTerm rf, int i) # votes s" using s' st(1,4) by (simp add: self_vote_def)
      show "vkeys (tasks s') = vkeys (tasks s) @ map (\<lambda>p. (i, p, curTerm rf)) ps"
        "gkeys (tasks s') = gkeys (tasks s)"
        using s' gs by simp_all
      show "distinct ps" "int i \<notin> set ps" using srv(2) by (auto simp: ps_def)
      show "rstate rf = leader \<longrightarrow> int (length (servers s)) div 2 < 1"
        using st(5) srv(3) by (auto split: if_splits)
    qed
  next
    case idle
    then show ?thesis
      unfolding s' by (intro election_ok_same [OF ok]) (simp_all add: self_vote_def)
  next
    case beat
    then have *: "rf = updateLastHeartbeatLocked e ?rf" "\<forall>g \<in> set gs. no_vote g"
      by (auto simp: StartHeartbeat_eq)
    then have "election_ok (put i rf s)" using ok quiet_clock by (intro election_ok_put) auto
    then have sp: "election_ok (spawn i gs (put i rf s))" using *(2) by (rule election_ok_spawn)
    show ?thesis
      unfolding s' using *(1) by (intro election_ok_same [OF sp]) (simp_all add: self_vote_def)
  qed
qed

text \<open>A server that grants its vote.\<close>

lemma deliver_election:
  assumes ok: "election_ok s" and c: "cluster_ok s" and k: "k < length (tasks s)"
    and d: "deliver k e (body (tasks s ! k)) s = Some s'"
  shows "election_ok s'"
proof -
  let ?tk = "tasks s ! k" and ?n = "length (servers s)"
  have tk: "task_ok (servers s) ?tk" using c k by (simp add: cluster_ok_def)
  then have own: "owner ?tk < ?n" and b: "body_ok ?n (owner ?tk) (alive ?tk) (servers s ! owner ?tk) (body ?tk)"
    by (simp_all add: task_ok_def)
  show ?thesis
  proof (cases "body ?tk")
    case (VoteCall p args m t)
    with b have p: "nat p < ?n" "0 \<le> p" "rva_CandidateID args = int (owner ?tk)"
      "rva_ElectionTerm args = t" by auto
    note srv = cluster_okD [OF c p(1)]
    let ?v = "servers s ! nat p"
    obtain rf reply where r: "RequestVote e args ?v = Some (rf, reply)"
      using RequestVote_total [OF srv(1), of args e] p srv(3) own by auto
    note fr = RequestVote_frame [OF r srv(4)]
    have q: "quiet ?v rf" by (rule quiet_RequestVote [OF r srv(4)])
    let ?s = "goto_task k (VoteDone p reply m t) (put (nat p) rf s)"
    have vk: "vkey (?tk\<lparr>body := VoteDone p reply m t\<rparr>) = vkey ?tk"
      using VoteCall by (simp add: vkey_def)
    have gk: "set (gkey (?tk\<lparr>body := VoteDone p reply m t\<rparr>)) \<subseteq>
        (if rvr_Vote reply then {(p, t, int (owner ?tk))} else {})"
      by auto
    have v: "votes_ok s" using ok by (simp add: election_ok_def)
    have s': "s' = (if rvr_Vote reply then vote p t (int (owner ?tk)) ?s else ?s)"
      using d VoteCall r p(3,4) by (cases "rvr_Vote reply") (simp_all add: attempt_def)
    show ?thesis
    proof (rule election_ok_grow [OF ok _ _ _ q])
      show "servers s' = (servers s)[nat p := rf]" "set (votes s) \<subseteq> set (votes s')"
        using s' by auto
      show "mset (vkeys (tasks s')) \<subseteq># mset (vkeys (tasks s))"
        using s' vk by (simp add: keys_remove_nth [OF k])
      show "set (gkeys (tasks s')) \<subseteq> set (votes s')"
        using s' gk ok keys_remove_nth(2) [OF k] by (auto simp: election_ok_def split: if_splits)
      have "x = int (owner ?tk)" if "rvr_Vote reply" "(p, t, x) \<in> set (votes s)" for x
        using votes_okD [OF v that(2)] that(1) fr(12) p(3,4) by (auto simp: grants_def)
      moreover have "votes_ok ?s" using votes_ok_put [OF v _ _ quiet_vote [OF q]] by simp
      ultimately show "votes_ok s'"
        using s' p fr(13,14) votes_ok_more [of ?s s' p t "int (owner ?tk)"]
        by (cases "rvr_Vote reply") auto
    qed
  next
    case (BeatCall p args t)
    obtain rf reply where r: "Heartbeat e args (servers s ! nat p) = (rf, reply)" by fastforce
    then have "election_ok (goto_task k (BeatDone p reply t) (put (nat p) rf s))"
      using ok k quiet_Heartbeat [OF r] by (intro election_ok_goto election_ok_put) auto
    then show ?thesis using d BeatCall r by simp
  next
    case (ReplCall ps t args)
    with b obtain p ps' where ps: "ps = p # ps'" by (cases ps) auto
    with b ReplCall have p: "nat p < ?n" and a: "args_ok args" by auto
    obtain rf reply where r: "AppendEntries e args (servers s ! nat p) = Some (rf, reply)"
      using AppendEntries_total [OF cluster_okD(1) [OF c p] a, of e] by blast
    have "quiet (servers s ! nat p) rf" using quiet_AppendEntries [OF r] a by (simp add: args_ok_def)
    then have "election_ok (goto_task k (ReplDone ps t args reply) (put (nat p) rf s))"
      using ok k by (intro election_ok_goto election_ok_put) auto
    then show ?thesis using d ReplCall ps r by (simp add: attempt_def)
  qed (use d in auto)
qed

text \<open>A candidate counts a vote, and may win.\<close>

lemma count_keys:
  assumes ok: "election_ok s" and k: "k < length (tasks s)"
    and tk: "tasks s ! k = \<lparr>owner = i, alive = True, body = VoteDone p reply m t\<rparr>" "rvr_Vote reply"
  shows "distinct (vkeys (remove_nth k (tasks s)))" "(i, p, t) \<notin> set (vkeys (remove_nth k (tasks s)))"
    "set (vkeys (tasks s)) = insert (i, p, t) (set (vkeys (remove_nth k (tasks s))))"
    "(p, t, int i) \<in> set (votes s)" "set (gkeys (remove_nth k (tasks s))) \<subseteq> set (votes s)"
proof -
  have key: "vkey (tasks s ! k) = [(i, p, t)]" "gkey (tasks s ! k) = [(p, t, int i)]"
    using tk by (simp_all add: vkey_def gkey_def)
  note rest = keys_remove_nth [OF k, unfolded key]
  have "mset (vkeys (tasks s)) = mset ((i, p, t) # vkeys (remove_nth k (tasks s)))" using rest(1) by simp
  moreover have "distinct (vkeys (tasks s))" using ok by (simp add: election_ok_def)
  ultimately have "distinct ((i, p, t) # vkeys (remove_nth k (tasks s)))"
    "set (vkeys (tasks s)) = set ((i, p, t) # vkeys (remove_nth k (tasks s)))"
    using mset_eq_imp_distinct_iff mset_eq_setD by blast+
  then show "distinct (vkeys (remove_nth k (tasks s)))" "(i, p, t) \<notin> set (vkeys (remove_nth k (tasks s)))"
    "set (vkeys (tasks s)) = insert (i, p, t) (set (vkeys (remove_nth k (tasks s))))"
    by simp_all
  show "(p, t, int i) \<in> set (votes s)" "set (gkeys (remove_nth k (tasks s))) \<subseteq> set (votes s)"
    using ok rest(2) by (auto simp: election_ok_def)
qed

text \<open>The counted voters grow with the vote that is counted.\<close>

lemma count_gain:
  assumes ok: "election_ok s" and k: "k < length (tasks s)" and v': "votes_ok s'"
    and tk: "tasks s ! k = \<lparr>owner = i, alive = True, body = VoteDone p reply m t\<rparr>" "rvr_Vote reply"
    and t: "curTerm (servers s ! i) = t" and s': "votes s' = votes s" "tasks s' = remove_nth k (tasks s)"
    and tm: "\<And>d. curTerm (servers s' ! d) = curTerm (servers s ! d)"
  shows "backers s' d = backers s d" "card (counted s d) \<le> card (counted s' d)"
    "card (counted s i) < card (counted s' i)"
proof -
  note ck = count_keys [OF ok k tk]
  show bk: "backers s' d = backers s d" for d
    unfolding backers_def tm s' by simp
  have cd: "counted s d \<subseteq> counted s' d" for d
    using ck(3) unfolding counted_def bk tm s' by auto
  have fin: "finite (counted s' d)" for d
    using finite_subset [OF counted_subset finite_backers [OF v']] .
  have "p \<in> counted s' i" "p \<notin> counted s i"
    using ck(2-4) t by (auto simp: counted_def bk tm s') (simp add: backers_def)
  then show "card (counted s i) < card (counted s' i)"
    using cd fin by (intro psubset_card_mono) auto
  show "card (counted s d) \<le> card (counted s' d)" for d
    by (rule card_mono [OF fin cd])
qed

lemma election_ok_count:
  assumes ok: "election_ok s" and k: "k < length (tasks s)" and i: "i < length (servers s)"
    and tk: "tasks s ! k = \<lparr>owner = i, alive = True, body = VoteDone p reply m t\<rparr>" "rvr_Vote reply"
    and t: "curTerm (servers s ! i) = t"
    and rf: "curTerm rf = t" "votedFor rf = votedFor (servers s ! i)"
      "rstate rf = candidate \<longrightarrow> rstate (servers s ! i) = candidate \<and> voteCount rf = voteCount (servers s ! i) + 1"
      "rstate rf = leader \<longrightarrow> rstate (servers s ! i) = leader \<or>
        rstate (servers s ! i) = candidate \<and> int (length (servers s)) div 2 < voteCount (servers s ! i) + 1"
  shows "election_ok (drop_task k (put i rf s))"
proof -
  let ?s = "drop_task k (put i rf s)" and ?n = "length (servers s)"
  have v': "votes_ok ?s"
    using votes_ok_put [of s ?s i rf] ok rf(1,2) t by (simp add: vote_step_def election_ok_def)
  have "curTerm (servers ?s ! d) = curTerm (servers s ! d)" for d
    using rf(1) t i by (cases "d = i") auto
  note gain = count_gain [OF ok k v' tk t _ _ this, simplified]
  have tally: "voteCount (servers s ! d) \<le> int (card (counted s d))"
    if "d < ?n" "rstate (servers s ! d) = candidate" for d
    using ok that by (simp add: election_ok_def)
  have cand: "voteCount (servers ?s ! d) \<le> int (card (counted ?s d))"
    if "d < ?n" "rstate (servers ?s ! d) = candidate" for d
    using that tally [of d] rf(3) gain(2) [of d] i gain(3) by (cases "d = i") auto
  have lead: "majority (int ?n) (backers ?s d)" if "d < ?n" "rstate (servers ?s ! d) = leader" for d
  proof (cases "rstate (servers s ! d) = leader")
    case True
    then show ?thesis using ok that gain(1) by (simp add: election_ok_def)
  next
    case False
    with that rf(4) i have d: "d = i" "rstate (servers s ! i) = candidate"
      "int ?n div 2 < voteCount (servers s ! i) + 1" by (cases "d = i"; simp)+
    have "int (card (counted ?s i)) \<le> int (card (backers ?s i))"
      using card_mono [OF finite_backers [OF v'] counted_subset] by simp
    then have "int ?n div 2 < int (card (backers ?s i))" using d tally [OF i] gain(3) by simp
    moreover have "backers ?s i \<inter> {0..<int ?n} = backers ?s i" using backers_range [OF v'] by auto
    ultimately show ?thesis using d(1) by (simp add: majority_def)
  qed
  show ?thesis
    using v' count_keys [OF ok k tk] cand lead by (simp add: election_ok_def)
qed

section \<open>All steps\<close>

lemma run_vote_election:
  assumes ok: "election_ok s" and c: "cluster_ok s" and k: "k < length (tasks s)" and al: "alive (tasks s ! k)"
    and bd: "body (tasks s ! k) = VoteDone p reply m t"
    and tm: "timely_body (servers s ! owner (tasks s ! k)) (body (tasks s ! k))"
    and d: "run_task k (owner (tasks s ! k)) e (body (tasks s ! k)) s = Some s'"
  shows "election_ok s'"
proof -
  let ?i = "owner (tasks s ! k)" let ?rf = "servers s ! ?i"
  note own = alive_body [OF c k al] note srv = cluster_okD [OF c own(1)]
  have m: "m = int (length (servers s))" using own(2) bd by simp
  have eq: "tasks s ! k = \<lparr>owner = ?i, alive = True, body = VoteDone p reply m t\<rparr>"
    using al bd by (cases "tasks s ! k") simp
  obtain rf gs where r: "VoteReturn e reply m t ?rf = Some (rf, gs)"
    using VoteReturn_total [OF srv(1)] by blast
  have s': "s' = spawn ?i gs (drop_task k (put ?i rf s))" using d bd r by (simp add: attempt_def)
  have put_drop: "election_ok s'" if "quiet ?rf rf" "\<forall>g \<in> set gs. no_vote g"
    unfolding s' using that k by (intro election_ok_spawn election_ok_drop election_ok_put [OF ok]) auto
  have t: "curTerm ?rf = t" if "rvr_Vote reply" using tm bd that by simp
  show ?thesis
    using r srv(1)
  proof (cases rule: VoteReturn_cases)
    case deposed
    then show ?thesis by (intro put_drop) (auto simp: quiet_stepDown)
  next
    case ignored
    then show ?thesis by (intro put_drop) auto
  next
    case counted
    then show ?thesis
      unfolding s' using election_ok_count [OF ok k own(1) eq counted(2) t [OF counted(2)], of rf] t by simp
  next
    case won
    then show ?thesis
      unfolding s' using election_ok_count [OF ok k own(1) eq won(2) t [OF won(2)], of rf] t m
      by (intro election_ok_spawn) auto
  qed
qed

lemma run_repl_election:
  assumes ok: "election_ok s" and c: "cluster_ok s" and k: "k < length (tasks s)" and al: "alive (tasks s ! k)"
    and bd: "body (tasks s ! k) = Repl ps t \<or> body (tasks s ! k) = ReplDone ps t args reply"
    and d: "run_task k (owner (tasks s ! k)) e (body (tasks s ! k)) s = Some s'"
  shows "election_ok s'"
proof -
  let ?i = "owner (tasks s ! k)" let ?rf = "servers s ! ?i"
  note own = alive_body [OF c k al] note srv = cluster_okD [OF c own(1)]
  have put_goto: "election_ok (spawn ?i gs (goto_task k g (put ?i rf s)))"
    if "quiet ?rf rf" "\<forall>g \<in> set gs. no_vote g" "no_vote g" for rf g gs
    using that k by (intro election_ok_spawn election_ok_goto election_ok_put [OF ok]) auto
  show ?thesis
  proof (cases ps)
    case Nil
    then show ?thesis using bd d own(2) ok k by (auto intro: election_ok_drop)
  next
    case (Cons p ps')
    then have p: "0 \<le> p" "p < npeers ?rf" using own(2) bd srv(3) by auto
    show ?thesis
      using bd
    proof
      assume bd: "body (tasks s ! k) = Repl ps t"
      then show ?thesis
        using d Cons replicate_send_eq [OF srv(1) p, of t] put_goto [of ?rf "[]"] by (auto simp: attempt_def)
    next
      assume bd: "body (tasks s ! k) = ReplDone ps t args reply"
      then have a: "args_ok args" "reply_ok args reply" "sent_ok t args ?rf" using own(2) Cons by (auto simp: repl_inv_def)
      obtain rf again gs where r: "replicate_return e p t args reply ?rf = Some (rf, again, gs)"
        "\<forall>g \<in> set gs. \<exists>q. g = Repl [q] t \<and> 0 \<le> q \<and> q < npeers ?rf"
        using replicate_return_total [OF srv(1) p a, of e] by auto
      have "\<forall>g \<in> set gs. no_vote g" using r(2) by auto
      then have "election_ok (spawn ?i gs (goto_task k (if again then Repl (p # ps') t else Repl ps' t) (put ?i rf s)))"
        by (intro put_goto quiet_replicate_return [OF srv(1) p a r(1)]) auto
      then show ?thesis using d bd Cons r(1) by (simp add: attempt_def)
    qed
  qed
qed

lemma run_election:
  assumes ok: "election_ok s" and c: "cluster_ok s" and k: "k < length (tasks s)"
    and al: "alive (tasks s ! k)"
    and tm: "timely_body (servers s ! owner (tasks s ! k)) (body (tasks s ! k))"
    and d: "run_task k (owner (tasks s ! k)) e (body (tasks s ! k)) s = Some s'"
  shows "election_ok s'"
proof -
  let ?i = "owner (tasks s ! k)" let ?rf = "servers s ! ?i"
  have put_drop: "election_ok (spawn ?i gs (drop_task k (put ?i rf s)))"
    if "quiet ?rf rf" "\<forall>g \<in> set gs. no_vote g" for rf gs
    using that k by (intro election_ok_spawn election_ok_drop election_ok_put [OF ok]) auto
  show ?thesis
  proof (cases "body (tasks s ! k)")
    case (VoteDone p reply m t)
    then show ?thesis using run_vote_election [OF ok c k al _ tm d] by blast
  next
    case BeginBeat
    then show ?thesis
      using d put_drop [OF quiet_clock, of "snd (StartHeartbeat e ?rf)" e] by (auto simp: StartHeartbeat_eq)
  next
    case (BeatDone p reply t)
    have "quiet ?rf (fst (BeatReturn e p reply t ?rf))"
      using tm BeatDone by (auto simp: BeatReturn_def quiet_stepDown)
    then show ?thesis
      using d BeatDone put_drop [of "fst (BeatReturn e p reply t ?rf)" "[Repl [p] t]"]
      by (simp add: BeatReturn_def)
  next
    case (Repl ps t)
    then show ?thesis using run_repl_election [OF ok c k al _ d] by blast
  next
    case (ReplDone ps t args reply)
    then show ?thesis using run_repl_election [OF ok c k al _ d] by blast
  qed (use d in auto)
qed

lemma fail_election:
  assumes "election_ok s" and "k < length (tasks s)"
    and "fail_call k (body (tasks s ! k)) s = Some s'"
  shows "election_ok s'"
  using assms by (cases "(k, body (tasks s ! k), s)" rule: fail_call.cases)
    (auto intro!: election_ok_goto election_ok_drop)

lemma Late_election:
  assumes ok: "election_ok s" and d: "cstep (Late k) s = Some s'"
  shows "election_ok s'"
proof -
  let ?tk = "(tasks s ! k)\<lparr>alive := False\<rparr>"
  let ?s = "s\<lparr>tasks := tasks s @ [?tk]\<rparr>"
  have k: "k < length (tasks s)" and f: "fail_call k (body (tasks s ! k)) ?s = Some s'"
    using d by (auto split: if_splits)
  have "vkey ?tk = []" "gkey ?tk = []" by (simp_all add: vkey_def gkey_def)
  then have "vkeys (tasks ?s) = vkeys (tasks s)" "gkeys (tasks ?s) = gkeys (tasks s)"
    by (simp_all add: vkeys_def gkeys_def)
  then have "election_ok ?s" by (intro election_ok_same [OF ok]) simp_all
  moreover have "k < length (tasks ?s)" "fail_call k (body (tasks ?s ! k)) ?s = Some s'"
    using k f by (simp_all add: nth_append)
  ultimately show ?thesis by (rule fail_election)
qed

lemma keys_stopped:
  "mset (vkeys (map (\<lambda>t. if owner t = i then t\<lparr>alive := False\<rparr> else t) ts)) \<subseteq># mset (vkeys ts)"
  "set (gkeys (map (\<lambda>t. if owner t = i then t\<lparr>alive := False\<rparr> else t) ts)) \<subseteq> set (gkeys ts)"
proof (induction ts)
  case (Cons t ts)
  have "vkey (t\<lparr>alive := False\<rparr>) = []" "gkey (t\<lparr>alive := False\<rparr>) = []"
    by (simp_all add: vkey_def gkey_def)
  then show "mset (vkeys (map (\<lambda>t. if owner t = i then t\<lparr>alive := False\<rparr> else t) (t # ts))) \<subseteq># mset (vkeys (t # ts))"
    "set (gkeys (map (\<lambda>t. if owner t = i then t\<lparr>alive := False\<rparr> else t) (t # ts))) \<subseteq> set (gkeys (t # ts))"
    using Cons by (auto simp: vkeys_def gkeys_def intro: subset_mset.add_increasing)
qed simp_all

lemma restart_election:
  assumes ok: "election_ok s" and c: "cluster_ok s" and d: "cstep (Restart i e) s = Some s'"
  shows "election_ok s'"
proof -
  have i: "i < length (servers s)" using d by (auto split: if_splits)
  have s': "servers s' = (servers s)[i := Make e (npeers (servers s ! i)) (int i) (Copy (persister (servers s ! i)))]"
    "votes s' = votes s" "tasks s' = map (\<lambda>t. if owner t = i then t\<lparr>alive := False\<rparr> else t) (tasks s)"
    using d i by auto
  show ?thesis
    using keys_stopped [of i "tasks s"] s'(3)
    by (intro election_ok_frame [OF ok s'(1,2)] quiet_restart cluster_okD(1) [OF c i]) simp_all
qed

lemma election_ok_tstep:
  assumes ok: "election_ok s" and c: "cluster_ok s" and d: "tstep ev s = Some s'"
  shows "election_ok s'"
proof -
  have tm: "timely ev s" and st: "cstep ev s = Some s'" using d by (auto simp: tstep_def split: if_splits)
  show ?thesis
  proof (cases ev)
    case (LifeRead i)
    then show ?thesis
      using st by (intro election_ok_same [OF ok]) (auto split: if_splits)
  next
    case (LifeAct i e)
    then show ?thesis using st LifeAct_election [OF ok c] by blast
  next
    case (Deliver k e)
    then show ?thesis using st deliver_election [OF ok c] by (auto split: if_splits)
  next
    case (Fail k)
    then show ?thesis using st fail_election [OF ok] by (auto split: if_splits)
  next
    case (Late k)
    then show ?thesis using st Late_election [OF ok] by blast
  next
    case (Run k e)
    then show ?thesis using st tm run_election [OF ok c] by (auto split: if_splits)
  next
    case (Client i cmd)
    then have i: "i < length (servers s)" using st by (auto split: if_splits)
    obtain rf res gs where r: "Start cmd (servers s ! i) = Some (rf, res, gs)" "\<forall>g \<in> set gs. no_vote g"
      using Start_total [OF cluster_okD(1) [OF c i], of cmd] by (auto split: if_splits)
    then show ?thesis
      using st Client i quiet_Start [OF cluster_okD(1) [OF c i] r(1)]
      by (auto simp: attempt_def intro: election_ok_spawn election_ok_put [OF ok])
  next
    case (Apply i)
    then have i: "i < length (servers s)" using st by (auto split: if_splits)
    obtain rf b where r: "apply_one (servers s ! i) = Some (rf, b)"
      using apply_one_total [OF cluster_okD(1) [OF c i]] by blast
    then show ?thesis
      using st Apply i quiet_apply [OF cluster_okD(1) [OF c i] r]
      by (auto simp: attempt_def intro: election_ok_put [OF ok])
  next
    case (Restart i e)
    then show ?thesis using st restart_election [OF ok c] by blast
  qed
qed

lemma election_ok_boot: "election_ok (boot n e)"
  by (auto simp: boot_def election_ok_def votes_ok_def Make_def readPersist_def
      raft_slot.load_make Let_def)

interpretation timely: invariant_system is_boot timely_step "\<lambda>s. cluster_ok s \<and> election_ok s"
proof unfold_locales
  show "cluster_ok s \<and> election_ok s" if "is_boot s" for s :: "'c cluster"
    using that election_ok_boot by (auto simp: is_boot_def intro: cluster_ok_boot)
  show "cluster_ok t \<and> election_ok t" if "timely_step s t" "cluster_ok s \<and> election_ok s"
    for s t :: "'c cluster"
    using that election_ok_tstep cluster_ok_cstep
    by (fastforce simp: timely_step_def tstep_def split: if_splits)
qed

end
