(* ===== verification/Raft_Matching.thy ===== *)
theory Raft_Matching
  imports Raft_Safety
begin

text \<open>
  What the logs of different servers have to do with each other, in runs in which replies are
  handled in time. The logs of the servers and the entries of the requests in flight are chains
  of links: an index, the term before it and the entry. A link is determined by its index and the
  term of its entry, since only the leader of that term makes it; so logs that agree on the term
  at an index agree up to it.
\<close>

section \<open>Leaders over time\<close>

text \<open>No vote is forgotten.\<close>

lemma votes_deliver: "deliver k e b s = Some s' \<Longrightarrow> set (votes s) \<subseteq> set (votes s')"
  by (cases "(k, e, b, s)" rule: deliver.cases) (auto simp: attempt_def vote_def split: option.splits prod.splits if_splits)

lemma votes_fail: "fail_call k b s = Some s' \<Longrightarrow> votes s' = votes s"
  by (cases "(k, b, s)" rule: fail_call.cases) auto

lemma votes_run: "run_task k i e b s = Some s' \<Longrightarrow> votes s' = votes s"
  by (cases "(k, i, e, b, s)" rule: run_task.cases) (auto simp: attempt_def split: option.splits prod.splits)

lemma votes_mono:
  assumes "cstep ev s = Some s'"
  shows "set (votes s) \<subseteq> set (votes s')"
proof (cases ev)
  case (LifeAct i e)
  then show ?thesis using assms
    by (auto simp: attempt_def self_vote_def vote_def split: if_splits option.splits prod.splits)
next
  case (Late k)
  then show ?thesis using assms votes_fail by (fastforce split: if_splits)
qed (use assms in \<open>auto simp: attempt_def dest: votes_run votes_fail split: if_splits option.splits prod.splits
      dest!: votes_deliver\<close>)

lemma timely_mono:
  assumes "timely_step\<^sup>*\<^sup>* s s'" and "reachable is_boot timely_step s"
  shows "reachable is_boot timely_step s' \<and> set (votes s) \<subseteq> set (votes s') \<and> length (servers s') = length (servers s)"
  using assms
proof (induction rule: rtranclp_induct)
  case (step t u)
  then have t: "reachable is_boot timely_step t" "set (votes s) \<subseteq> set (votes t)" "length (servers t) = length (servers s)"
    by simp_all
  obtain ev where ev: "cstep ev t = Some u"
    using step(2) by (auto simp: timely_step_def tstep_def split: if_splits)
  have "cluster_ok t" using timely.reachable_inv [OF t(1)] by blast
  then have "length (servers u) = length (servers t)" using servers_step_cstep [OF _ ev] by (simp add: servers_step_def)
  then show ?case using t votes_mono [OF ev] reach_step [OF t(1) step(2)] by auto
qed simp

lemma one_leader_over_time:
  assumes "reachable is_boot timely_step s" and "timely_step\<^sup>*\<^sup>* s s'"
    and "i < length (servers s)" and "rstate (servers s ! i) = leader"
    and "j < length (servers s')" and "rstate (servers s' ! j) = leader"
    and "curTerm (servers s ! i) = curTerm (servers s' ! j)"
  shows "i = j"
proof -
  note m = timely_mono [OF assms(2,1)]
  have e: "election_ok s" "election_ok s'" using timely.reachable_inv assms(1) m by blast+
  let ?R = "\<lambda>v c. (v, curTerm (servers s' ! j), c) \<in> set (votes s')"
  have "majority (int (length (servers s'))) (backers s i)" "majority (int (length (servers s'))) (backers s' j)"
    using e assms(3-6) m by (auto simp: election_ok_def)
  then have "majority (int (length (servers s'))) {v. ?R v (int i)}" "majority (int (length (servers s'))) {v. ?R v (int j)}"
    using m assms(7) by (auto simp: backers_def intro: maj.quorum_up)
  moreover have "x = y" if "?R v x" "?R v y" for v x y
    using e(2) that by (auto simp: election_ok_def votes_ok_def)
  ultimately have "int i = int j" by (rule maj.unique_choice)
  then show ?thesis by simp
qed

section \<open>Chains of entries\<close>

text \<open>The links of the entries \<open>es\<close> that stand at index \<open>i\<close>, after an entry of term \<open>t\<close>.\<close>

fun chain :: "nat \<Rightarrow> int \<Rightarrow> 'c LogEntry list \<Rightarrow> (nat \<times> int \<times> 'c LogEntry) set" where
  "chain i t [] = {}"
| "chain i t (x # xs) = insert (i, t, x) (chain (Suc i) (le_Term x) xs)"

definition end_term :: "int \<Rightarrow> 'c LogEntry list \<Rightarrow> int" where
  "end_term t xs = last (t # map le_Term xs)"

lemma end_term_simps [simp]: "end_term t [] = t" "end_term t (x # xs) = end_term (le_Term x) xs"
  by (simp_all add: end_term_def)

lemma end_term_append [simp]: "end_term t (xs @ ys) = end_term (end_term t xs) ys"
  by (induction xs arbitrary: t) simp_all

lemma end_term_cong: "map le_Term xs = map le_Term ys \<Longrightarrow> end_term t xs = end_term t ys"
  by (simp add: end_term_def)

lemma end_term_last: "xs \<noteq> [] \<Longrightarrow> end_term t xs = le_Term (last xs)"
  by (simp add: end_term_def last_map)

lemma chain_append: "chain i t (xs @ ys) = chain i t xs \<union> chain (i + length xs) (end_term t xs) ys"
  by (induction xs arbitrary: i t) auto

lemma chain_index: "(k, u, x) \<in> chain i t xs \<Longrightarrow> i \<le> k \<and> k < i + length xs"
  by (induction xs arbitrary: i t) fastforce+

lemma chain_nth: "k < length xs \<Longrightarrow> (i + k, end_term t (take k xs), xs ! k) \<in> chain i t xs"
proof (induction xs arbitrary: i t k)
  case (Cons y ys)
  then show ?case using Cons.IH [of "k - 1" "Suc i" "le_Term y"] by (cases k) auto
qed simp

lemma chain_entry: "(k, u, x) \<in> chain i t xs \<Longrightarrow> x = xs ! (k - i)"
proof (induction xs arbitrary: i t)
  case (Cons y ys)
  then show ?case using chain_index [of k u x "Suc i" "le_Term y" ys] by (auto simp: nth_Cons')
qed simp

text \<open>The first entry of a log is a dummy and has no link.\<close>

definition log_links :: "'c LogEntry list \<Rightarrow> (nat \<times> int \<times> 'c LogEntry) set" where
  "log_links l = chain 1 (le_Term (hd l)) (tl l)"

lemma log_links_prefix: "l \<noteq> [] \<Longrightarrow> prefix l l' \<Longrightarrow> log_links l \<subseteq> log_links l'"
  by (auto simp: prefix_def log_links_def chain_append)

lemma log_links_snoc:
  "l \<noteq> [] \<Longrightarrow> log_links (l @ [x]) = insert (length l, le_Term (last l), x) (log_links l)"
  by (cases l) (auto simp: log_links_def chain_append end_term_last)

lemma log_links_drop:
  assumes "0 < n" and "n \<le> length l"
  shows "chain n (le_Term (l ! (n - 1))) (drop n l) \<subseteq> log_links l"
proof -
  obtain x r m where l: "l = x # r" "n = Suc m" using assms by (cases l; cases n) auto
  have "end_term (le_Term x) (take m r) = le_Term (l ! m)"
    using assms(2) l by (cases m) (auto simp: take_Suc_conv_app_nth)
  moreover have "length (take m r) = m" using assms(2) l by simp
  ultimately have "log_links l = chain 1 (le_Term x) (take m r) \<union> chain (1 + m) (le_Term (l ! m)) (drop m r)"
    using chain_append [of 1 "le_Term x" "take m r" "drop m r"] l by (simp add: log_links_def)
  then show ?thesis using l by simp
qed

lemma log_links_merge:
  assumes "0 < p" and "p \<le> length l" and "le_Term (l ! (p - 1)) = t"
  shows "log_links (merge_log p es l) \<subseteq> log_links l \<union> chain p t es"
proof (cases "es = []")
  case False
  obtain x r q where l: "l = x # r" "p = Suc q" using assms by (cases l; cases p) auto
  define m where "m = matched_len (drop p l) es"
  have m: "m \<le> length (drop q r)" "m \<le> length es" "map le_Term (take m (drop q r)) = map le_Term (take m es)"
    using matched_len_le [of "drop p l" es] matched_len_terms [of "drop p l" es] l by (simp_all add: m_def)
  have "end_term (le_Term x) (take q r) = t"
    using assms l by (cases q) (auto simp: take_Suc_conv_app_nth)
  then have "end_term (le_Term x) (take (q + m) r) = end_term t (take m es)"
    using end_term_cong [OF m(3)] by (simp add: take_add)
  moreover have "length (take (q + m) r) = q + m" using m(1) assms(2) l by simp
  ultimately have "chain 1 (le_Term x) (take (q + m) r @ drop m es) =
      chain 1 (le_Term x) (take (q + m) r) \<union> chain (p + m) (end_term t (take m es)) (drop m es)"
    using l by (simp add: chain_append)
  moreover have "merge_log p es l = x # take (q + m) r @ drop m es"
    using False l by (simp add: merge_log_def m_def)
  moreover have "chain 1 (le_Term x) (take (q + m) r) \<subseteq> log_links l"
    using chain_append [of 1 "le_Term x" "take (q + m) r" "drop (q + m) r"] l by (simp add: log_links_def)
  moreover have len: "length (take m es) = m" using m(2) by simp
  have "chain (p + m) (end_term t (take m es)) (drop m es) \<subseteq> chain p t (take m es @ drop m es)"
    unfolding chain_append len by blast
  then have "chain (p + m) (end_term t (take m es)) (drop m es) \<subseteq> chain p t es" by (simp only: append_take_drop_id)
  ultimately show ?thesis unfolding log_links_def [of "merge_log p es l"] by auto
qed (simp add: merge_log_def)

section \<open>The links of a cluster\<close>

definition msg_links :: "'c AppendEntriesArgs \<Rightarrow> (nat \<times> int \<times> 'c LogEntry) set" where
  "msg_links args = chain (nat (aea_PrevLogIndex args + 1)) (aea_PrevLogTerm args) (aea_Entries args)"

fun body_links :: "'c gort \<Rightarrow> (nat \<times> int \<times> 'c LogEntry) set" where
  "body_links (ReplCall ps t args) = msg_links args"
| "body_links _ = {}"

definition links :: "'c cluster \<Rightarrow> (nat \<times> int \<times> 'c LogEntry) set" where
  "links s = (\<Union>rf \<in> set (servers s). log_links (rlog rf)) \<union> (\<Union>tk \<in> set (tasks s). body_links (body tk))"

text \<open>
  The logs and requests of \<open>s'\<close> consist of links of \<open>s\<close>, and every log still starts with the same entry.
\<close>

definition fits :: "'c cluster \<Rightarrow> 'c cluster \<Rightarrow> bool" where
  "fits s s' \<longleftrightarrow> length (servers s') = length (servers s) \<and>
     (\<forall>i < length (servers s). hd (rlog (servers s' ! i)) = hd (rlog (servers s ! i)) \<and>
        log_links (rlog (servers s' ! i)) \<subseteq> links s) \<and>
     (\<forall>tk \<in> set (tasks s'). body_links (body tk) \<subseteq> links s)"

lemma links_server: "i < length (servers s) \<Longrightarrow> log_links (rlog (servers s ! i)) \<subseteq> links s"
  by (auto simp: links_def)

lemma links_task: "tk \<in> set (tasks s) \<Longrightarrow> body_links (body tk) \<subseteq> links s"
  by (auto simp: links_def)

lemma fits_links: "fits s s' \<Longrightarrow> links s' \<subseteq> links s"
  by (force simp: fits_def links_def [of s'] set_conv_nth)

lemma fits_refl [intro!]: "fits s s"
  by (auto simp: fits_def links_server links_task dest: subsetD [OF links_server] subsetD [OF links_task])

lemma fits_put:
  assumes f: "fits s s'" and "hd (rlog rf) = hd (rlog (servers s ! i))" and "log_links (rlog rf) \<subseteq> links s"
  shows "fits s (put i rf s')"
proof -
  have "(servers s')[i := rf] ! j = (if j = i then rf else servers s' ! j)" if "j < length (servers s)" for j
    using that f by (auto simp: fits_def)
  then have "hd (rlog ((servers s')[i := rf] ! j)) = hd (rlog (servers s ! j)) \<and>
      log_links (rlog ((servers s')[i := rf] ! j)) \<subseteq> links s" if "j < length (servers s)" for j
    using that assms unfolding fits_def by metis
  then show ?thesis using f by (simp add: fits_def)
qed

lemma fits_put_same: "fits s s' \<Longrightarrow> i < length (servers s) \<Longrightarrow> rlog rf = rlog (servers s ! i) \<Longrightarrow> fits s (put i rf s')"
  by (intro fits_put) (simp_all add: links_server)

lemma fits_spawn: "fits s s' \<Longrightarrow> \<forall>g \<in> set gs. body_links g \<subseteq> links s \<Longrightarrow> fits s (spawn i gs s')"
  by (auto simp: fits_def)

lemma fits_drop: "fits s s' \<Longrightarrow> fits s (drop_task k s')"
  using set_remove_nth [of k "tasks s'"] by (auto simp: fits_def)

lemma fits_goto: "fits s s' \<Longrightarrow> body_links g \<subseteq> links s \<Longrightarrow> fits s (goto_task k g s')"
  using set_remove_nth [of k "tasks s'"] by (auto simp: fits_def)

lemma fits_same: "fits s s' \<Longrightarrow> servers s'' = servers s' \<Longrightarrow> tasks s'' = tasks s' \<Longrightarrow> fits s s''"
  by (simp add: fits_def)

lemma fits_bodies:
  assumes "fits s s'" and "servers s'' = servers s'" and "body ` set (tasks s'') \<subseteq> body ` set (tasks s')"
  shows "fits s s''"
proof -
  have "body_links (body tk) \<subseteq> links s" if "tk \<in> set (tasks s'')" for tk
  proof -
    have "body tk \<in> body ` set (tasks s')" using subsetD [OF assms(3) imageI [OF that]] .
    then obtain tk' where "tk' \<in> set (tasks s')" "body tk = body tk'" by (rule imageE) simp
    then show ?thesis using assms(1) by (simp add: fits_def)
  qed
  then show ?thesis using assms(1,2) by (simp add: fits_def)
qed

lemmas fits_intros = fits_put_same fits_spawn fits_drop fits_goto fits_refl

text \<open>A request carries links of the leader's log, and a handled request leaves only known links.\<close>

lemma request_links:
  assumes "leader_ok rf" and "0 \<le> p" and "p < npeers rf"
  shows "msg_links (request p rf) \<subseteq> log_links (rlog rf)"
proof -
  note n = leader_ok_nth [OF assms]
  then have "0 < nat (nextIndex rf ! nat p)" "nat (nextIndex rf ! nat p) \<le> length (rlog rf)"
    "nat (nextIndex rf ! nat p - 1) = nat (nextIndex rf ! nat p) - 1" by (auto simp: go_len_def)
  then show ?thesis
    using log_links_drop [of "nat (nextIndex rf ! nat p)" "rlog rf"] by (simp add: msg_links_def request_def)
qed

lemma AppendEntries_links:
  assumes "AppendEntries e args rf = Some (rf', reply)" and "args_ok args" and ok: "raft_ok rf"
  shows "log_links (rlog rf') \<subseteq> log_links (rlog rf) \<union> msg_links args" "hd (rlog rf') = hd (rlog rf)"
proof -
  let ?p = "aea_PrevLogIndex args"
  have p: "0 \<le> ?p" using assms(2) by (simp add: args_ok_def)
  note f = AppendEntries_frame [OF assms(1) p]
  have "log_links (rlog rf') \<subseteq> log_links (rlog rf) \<union> msg_links args \<and> hd (rlog rf') = hd (rlog rf)"
  proof (cases "aer_Success reply")
    case True
    then have c: "consistent args rf" and l: "rlog rf' = merge_log (nat (?p + 1)) (aea_Entries args) (rlog rf)"
      using f(9,11) by simp_all
    then have len: "0 < nat (?p + 1)" "nat (?p + 1) \<le> length (rlog rf)" and q: "nat (?p + 1) - 1 = nat ?p"
      using p by (auto simp: consistent_def go_len_def)
    have "le_Term (rlog rf ! nat ?p) = aea_PrevLogTerm args"
      using c p raft_okD(5) [OF ok] unfolding consistent_def by (metis termAt_in)
    then have "log_links (rlog rf') \<subseteq> log_links (rlog rf) \<union> msg_links args"
      using log_links_merge [OF len] q by (simp add: l msg_links_def)
    moreover have "take 1 (rlog rf') = take 1 (rlog rf)"
      unfolding l using len by (intro merge_log_prefix) auto
    then have "hd (rlog rf') = hd (rlog rf)" using len by (metis hd_take less_numeral_extra(1))
    ultimately show ?thesis by simp
  qed (use f(10) in simp)
  then show "log_links (rlog rf') \<subseteq> log_links (rlog rf) \<union> msg_links args" "hd (rlog rf') = hd (rlog rf)" by simp_all
qed

section \<open>Only clients make links\<close>

lemma deliver_fits:
  assumes ok: "cluster_ok s" and k: "k < length (tasks s)" and d: "deliver k e (body (tasks s ! k)) s = Some s'"
  shows "fits s s'"
proof -
  have b: "task_ok (servers s) (tasks s ! k)" using cluster_ok_task [OF ok nth_mem [OF k]] .
  have put_goto: "fits s (goto_task k g (put (nat p) rf s))"
    if "nat p < length (servers s)" "rlog rf = rlog (servers s ! nat p)" "body_links g = {}" for p g rf
    using that by (intro fits_intros) simp_all
  show ?thesis
  proof (cases "body (tasks s ! k)")
    case (VoteCall p args n t)
    then have p: "nat p < length (servers s)" using b by (auto simp: task_ok_def)
    note srv = cluster_okD [OF ok p]
    have "0 \<le> rva_CandidateID args" "rva_CandidateID args < npeers (servers s ! nat p)"
      using b VoteCall srv(3) by (auto simp: task_ok_def)
    then obtain rf reply where r: "RequestVote e args (servers s ! nat p) = Some (rf, reply)"
      using RequestVote_total [OF srv(1)] by blast
    have "fits s (goto_task k (VoteDone p reply n t) (put (nat p) rf s))"
      using RequestVote_frame(3) [OF r srv(4)] p by (intro put_goto) simp_all
    then show ?thesis using d VoteCall r by (auto simp: attempt_def intro: fits_same)
  next
    case (BeatCall p args t)
    then have p: "nat p < length (servers s)" using b by (auto simp: task_ok_def)
    obtain rf reply where r: "Heartbeat e args (servers s ! nat p) = (rf, reply)" by fastforce
    then show ?thesis using d BeatCall put_goto [OF p Heartbeat_sel(3) [OF r]] by auto
  next
    case (ReplCall ps t args)
    then obtain p ps' where ps: "ps = p # ps'" and p: "nat p < length (servers s)" and a: "args_ok args"
      using b by (cases ps) (auto simp: task_ok_def)
    note srv = cluster_okD [OF ok p]
    obtain rf reply where r: "AppendEntries e args (servers s ! nat p) = Some (rf, reply)"
      using AppendEntries_total [OF srv(1) a] by blast
    have "msg_links args \<subseteq> links s" using links_task [OF nth_mem [OF k]] ReplCall by simp
    then have "fits s (put (nat p) rf s)"
      using AppendEntries_links [OF r a srv(1)] links_server [OF p] by (intro fits_put) auto
    then show ?thesis using d ReplCall ps r by (auto simp: attempt_def intro: fits_goto)
  qed (use d in auto)
qed

lemma fail_fits:
  assumes "fits s0 s" and "fail_call k b s = Some s'"
  shows "fits s0 s'"
  using assms by (cases "(k, b, s)" rule: fail_call.cases) (auto intro!: fits_goto fits_drop)

lemma run_fits:
  assumes ok: "cluster_ok s" and k: "k < length (tasks s)" and al: "alive (tasks s ! k)"
    and d: "run_task k (owner (tasks s ! k)) e (body (tasks s ! k)) s = Some s'"
  shows "fits s s'"
proof -
  let ?i = "owner (tasks s ! k)" and ?rf = "servers s ! owner (tasks s ! k)"
  have tk: "task_ok (servers s) (tasks s ! k)" using cluster_ok_task [OF ok nth_mem [OF k]] .
  then have i: "?i < length (servers s)" by (simp add: task_ok_def)
  note srv = cluster_okD [OF ok i] and b = tk [unfolded task_ok_def, THEN conjunct2]
  have put_drop: "fits s (spawn ?i gs (drop_task k (put ?i rf s)))"
    if "rlog rf = rlog ?rf" "\<forall>g \<in> set gs. body_links g = {}" for rf gs
    using that i by (intro fits_intros) simp_all
  show ?thesis
  proof (cases "body (tasks s ! k)")
    case (VoteDone p reply n t)
    obtain rf gs where r: "VoteReturn e reply n t ?rf = Some (rf, gs)"
      using VoteReturn_total [OF srv(1)] by blast
    have "rlog rf = rlog ?rf \<and> (\<forall>g \<in> set gs. body_links g = {})"
      using r srv(1) by (cases rule: VoteReturn_cases) auto
    then show ?thesis using d VoteDone r put_drop by (auto simp: attempt_def)
  next
    case BeginBeat
    then show ?thesis
      using d put_drop [of "updateLastHeartbeatLocked e ?rf" "snd (StartHeartbeat e ?rf)"] by (auto simp: StartHeartbeat_eq)
  next
    case (BeatDone p reply t)
    then show ?thesis
      using d put_drop [of "fst (BeatReturn e p reply t ?rf)" "[Repl [p] t]"] by (auto simp: BeatReturn_def)
  next
    case (Repl ps t)
    show ?thesis
    proof (cases ps)
      case Nil
      then show ?thesis using d Repl by (auto intro: fits_drop)
    next
      case (Cons p ps')
      with b Repl have p: "0 \<le> p" "p < npeers ?rf" using srv(3) by auto
      have "msg_links (request p ?rf) \<subseteq> links s" if "rstate ?rf = leader"
        using request_links [OF _ p] that srv(1) links_server [OF i] by (auto simp: raft_ok_def)
      then show ?thesis
        using d Repl Cons replicate_send_eq [OF srv(1) p, of t] fits_put_same [OF fits_refl i refl]
        by (auto simp: attempt_def intro!: fits_goto split: if_splits)
    qed
  next
    case (ReplDone ps t args reply)
    with b obtain p ps' where ps: "ps = p # ps'" by (cases ps) auto
    with b ReplDone have p: "0 \<le> p" "p < npeers ?rf" and a: "args_ok args" "reply_ok args reply" "sent_ok t args ?rf"
      using srv(3) al by (auto simp: repl_inv_def)
    obtain rf again gs where r: "replicate_return e p t args reply ?rf = Some (rf, again, gs)" "rlog rf = rlog ?rf"
      "\<forall>g \<in> set gs. \<exists>q. g = Repl [q] t \<and> 0 \<le> q \<and> q < npeers ?rf"
      using replicate_return_total [OF srv(1) p a, of e] by blast
    have "\<forall>g \<in> set gs. body_links g = {}" using r(3) by auto
    then have "fits s (spawn ?i gs (goto_task k (if again then Repl (p # ps') t else Repl ps' t) (put ?i rf s)))"
      using r(2) i by (intro fits_intros) auto
    then show ?thesis using d ReplDone ps r(1) by (auto simp: attempt_def)
  qed (use d in auto)
qed

lemma LifeAct_fits:
  assumes ok: "cluster_ok s" and d: "cstep (LifeAct i e) s = Some s'"
  shows "fits s s'"
proof -
  have i: "i < length (servers s)" using d by (auto split: if_splits)
  obtain sn where sn: "lives s ! i = Some sn" using d by (auto split: if_splits option.splits)
  note srv = cluster_okD [OF ok i]
  obtain rf gs where r: "life_act e sn (servers s ! i) = Some (rf, gs)" using life_act_total [OF srv(1)] by blast
  have g: "rlog rf = rlog (servers s ! i) \<and> (\<forall>g \<in> set gs. body_links g = {})"
    using r
  proof (cases rule: life_act_cases)
    case election
    then show ?thesis using StartElection_total [OF srv(1), of e] by (auto split: if_splits)
  next
    case beat
    then show ?thesis by (auto simp: StartHeartbeat_eq)
  qed simp
  have "fits s (put i rf s)" using g i by (intro fits_intros) simp_all
  then show ?thesis using d i sn r g
    by (auto simp: attempt_def self_vote_def intro!: fits_spawn elim: fits_same)
qed

lemma cstep_fits:
  assumes ok: "cluster_ok s" and d: "cstep ev s = Some s'" and c: "\<And>i cmd. ev \<noteq> Client i cmd"
  shows "fits s s'"
proof (cases ev)
  case (LifeRead i)
  then show ?thesis using d by (auto split: if_splits intro: fits_same [OF fits_refl])
next
  case (LifeAct i e)
  then show ?thesis using d LifeAct_fits [OF ok] by blast
next
  case (Deliver k e)
  then show ?thesis using d deliver_fits [OF ok] by (auto split: if_splits)
next
  case (Fail k)
  then show ?thesis using d fail_fits [OF fits_refl] by (auto split: if_splits)
next
  case (Late k)
  then have k: "k < length (tasks s)" using d by (auto split: if_splits)
  then have "fits s (s\<lparr>tasks := tasks s @ [(tasks s ! k)\<lparr>alive := False\<rparr>]\<rparr>)"
    by (intro fits_bodies [OF fits_refl]) auto
  then show ?thesis using d Late k by (auto intro: fail_fits)
next
  case (Run k e)
  then show ?thesis using d run_fits [OF ok] by (auto split: if_splits)
next
  case (Apply i)
  then have i: "i < length (servers s)" using d by (auto split: if_splits)
  obtain rf b where "apply_one (servers s ! i) = Some (rf, b)" "rlog rf = rlog (servers s ! i)"
    using apply_one_total [OF cluster_okD(1) [OF ok i]] by blast
  then show ?thesis using d Apply i by (auto simp: attempt_def intro: fits_put_same)
next
  case (Restart i e)
  then have i: "i < length (servers s)" using d by (auto split: if_splits)
  let ?rf = "Make e (npeers (servers s ! i)) (int i) (Copy (persister (servers s ! i)))"
  have "rlog ?rf = rlog (servers s ! i)" by (rule restart_sel(3) [OF cluster_okD(1) [OF ok i]])
  then have "fits s (put i ?rf s)" by (intro fits_intros i)
  then show ?thesis using d Restart i by (elim fits_bodies) (auto split: if_splits)
qed (use c in blast)

section \<open>The invariant\<close>

text \<open>A server has been elected for the term and is not a candidate for it any more.\<close>

definition elected :: "'c cluster \<Rightarrow> int \<Rightarrow> bool" where
  "elected s t \<longleftrightarrow> (\<exists>c < length (servers s).
     majority (int (length (servers s))) {v. (v, t, int c) \<in> set (votes s)} \<and>
     t \<le> curTerm (servers s ! c) \<and> (t = curTerm (servers s ! c) \<longrightarrow> rstate (servers s ! c) \<noteq> candidate))"

definition match_ok :: "'c cluster \<Rightarrow> bool" where
  "match_ok s \<longleftrightarrow>
     (\<forall>i < length (servers s). hd (rlog (servers s ! i)) = \<lparr>le_Term = 0, le_Command = None\<rparr>) \<and>
     (\<forall>k u x u' x'. (k, u, x) \<in> links s \<longrightarrow> (k, u', x') \<in> links s \<longrightarrow> le_Term x = le_Term x' \<longrightarrow> u = u' \<and> x = x') \<and>
     (\<forall>k u x. (k, u, x) \<in> links s \<longrightarrow> elected s (le_Term x)) \<and>
     (\<forall>c < length (servers s). rstate (servers s ! c) = leader \<longrightarrow>
        (\<forall>k u x. (k, u, x) \<in> links s \<longrightarrow> le_Term x = curTerm (servers s ! c) \<longrightarrow>
           (k, u, x) \<in> log_links (rlog (servers s ! c))))"

lemma match_okD:
  assumes "match_ok s"
  shows "i < length (servers s) \<Longrightarrow> hd (rlog (servers s ! i)) = \<lparr>le_Term = 0, le_Command = None\<rparr>"
    "(k, u, x) \<in> links s \<Longrightarrow> (k, u', x') \<in> links s \<Longrightarrow> le_Term x = le_Term x' \<Longrightarrow> u = u' \<and> x = x'"
    "(k, u, x) \<in> links s \<Longrightarrow> elected s (le_Term x)"
    "c < length (servers s) \<Longrightarrow> rstate (servers s ! c) = leader \<Longrightarrow> (k, u, x) \<in> links s \<Longrightarrow>
       le_Term x = curTerm (servers s ! c) \<Longrightarrow> (k, u, x) \<in> log_links (rlog (servers s ! c))"
  using assms unfolding match_ok_def by blast+

lemma elected_step:
  assumes "elected s t" and st: "servers_step s s'" and v: "set (votes s) \<subseteq> set (votes s')"
  shows "elected s' t"
proof -
  obtain c where c: "c < length (servers s)" "majority (int (length (servers s))) {v. (v, t, int c) \<in> set (votes s)}"
    "t \<le> curTerm (servers s ! c)" "t = curTerm (servers s ! c) \<longrightarrow> rstate (servers s ! c) \<noteq> candidate"
    using assms(1) by (auto simp: elected_def)
  have len: "length (servers s') = length (servers s)" and srv: "srv_step (servers s ! c) (servers s' ! c)"
    using st c(1) by (auto simp: servers_step_def)
  have "majority (int (length (servers s'))) {v. (v, t, int c) \<in> set (votes s')}"
    using c(2) v unfolding len by (auto intro: maj.quorum_up)
  moreover have "t \<le> curTerm (servers s' ! c) \<and> (t = curTerm (servers s' ! c) \<longrightarrow> rstate (servers s' ! c) \<noteq> candidate)"
    using c(3,4) srv by (auto simp: srv_step_def)
  ultimately show ?thesis using c(1) len by (auto simp: elected_def)
qed

text \<open>A server that begins to lead is the first to lead its term, and has made no entry of it yet.\<close>

lemma new_leader_first:
  assumes e: "election_ok s'" and st: "servers_step s s'" and v: "set (votes s) \<subseteq> set (votes s')"
    and c: "c < length (servers s')" "rstate (servers s' ! c) = leader"
    and new: "\<not> (rstate (servers s ! c) = leader \<and> curTerm (servers s ! c) = curTerm (servers s' ! c))"
  shows "\<not> elected s (curTerm (servers s' ! c))"
proof
  let ?t = "curTerm (servers s' ! c)" and ?R = "\<lambda>v a. (v, curTerm (servers s' ! c), a) \<in> set (votes s')"
  assume "elected s ?t"
  then obtain d where d: "d < length (servers s)" "majority (int (length (servers s))) {v. (v, ?t, int d) \<in> set (votes s)}"
    "?t \<le> curTerm (servers s ! d)" "?t = curTerm (servers s ! d) \<longrightarrow> rstate (servers s ! d) \<noteq> candidate"
    by (auto simp: elected_def)
  have len: "length (servers s') = length (servers s)" and srv: "srv_step (servers s ! c) (servers s' ! c)"
    using st c(1) by (auto simp: servers_step_def)
  have "majority (int (length (servers s'))) {v. ?R v (int d)}"
    using d(2) v unfolding len by (auto intro: maj.quorum_up)
  moreover have "majority (int (length (servers s'))) {v. ?R v (int c)}"
    using e c by (auto simp: election_ok_def backers_def)
  moreover have "a = b" if "?R v a" "?R v b" for v a b
    using e that by (auto simp: election_ok_def votes_ok_def)
  ultimately have "int d = int c" by (rule maj.unique_choice)
  then show False using d(3,4) new srv c(2) by (auto simp: srv_step_def)
qed

lemma new_leader_no_links:
  assumes "match_ok s" and "election_ok s'" and "servers_step s s'" and "set (votes s) \<subseteq> set (votes s')"
    and "c < length (servers s')" "rstate (servers s' ! c) = leader"
    and "\<not> (rstate (servers s ! c) = leader \<and> curTerm (servers s ! c) = curTerm (servers s' ! c))"
    and "(k, u, x) \<in> links s"
  shows "le_Term x \<noteq> curTerm (servers s' ! c)"
  using new_leader_first [OF assms(2-7)] match_okD(3) [OF assms(1,8)] by auto

text \<open>Whoever leads has been elected.\<close>

lemma leader_elected:
  "election_ok s \<Longrightarrow> i < length (servers s) \<Longrightarrow> rstate (servers s ! i) = leader \<Longrightarrow> elected s (curTerm (servers s ! i))"
  by (auto simp: elected_def election_ok_def backers_def)

lemma match_ok_fits:
  assumes m: "match_ok s" and c: "cluster_ok s" and f: "fits s s'" and e: "election_ok s'"
    and st: "servers_step s s'" and v: "set (votes s) \<subseteq> set (votes s')"
  shows "match_ok s'"
  unfolding match_ok_def
proof (intro conjI allI impI)
  note sub = subsetD [OF fits_links [OF f]]
  have len: "length (servers s') = length (servers s)" using f by (simp add: fits_def)
  show "hd (rlog (servers s' ! i)) = \<lparr>le_Term = 0, le_Command = None\<rparr>" if "i < length (servers s')" for i
    using f match_okD(1) [OF m] that len by (simp add: fits_def)
  show "u = u'" "x = x'" if "(k, u, x) \<in> links s'" "(k, u', x') \<in> links s'" "le_Term x = le_Term x'" for k u x u' x'
    using match_okD(2) [OF m sub sub] that by blast+
  show "elected s' (le_Term x)" if "(k, u, x) \<in> links s'" for k u x
    using elected_step [OF match_okD(3) [OF m sub [OF that]] st v] .
  show "(k, u, x) \<in> log_links (rlog (servers s' ! i))"
    if i: "i < length (servers s')" "rstate (servers s' ! i) = leader" and l: "(k, u, x) \<in> links s'"
      and t: "le_Term x = curTerm (servers s' ! i)" for i k u x
  proof -
    have old: "rstate (servers s ! i) = leader" "curTerm (servers s ! i) = curTerm (servers s' ! i)"
      using new_leader_no_links [OF m e st v i _ sub [OF l]] t by blast+
    moreover have "srv_step (servers s ! i) (servers s' ! i)" using st i len by (simp add: servers_step_def)
    ultimately have "prefix (rlog (servers s ! i)) (rlog (servers s' ! i))" using i(2) by (simp add: srv_step_def)
    moreover have "(k, u, x) \<in> log_links (rlog (servers s ! i))"
      using match_okD(4) [OF m _ old(1) sub [OF l]] i(1) len t old(2) by simp
    ultimately show ?thesis using log_links_prefix cluster_okD(4) [OF c] i(1) len by (metis subsetD)
  qed
qed

text \<open>A leader makes a link at the end of its log, which no other log has.\<close>

lemma match_ok_append:
  assumes m: "match_ok s" and c: "cluster_ok s" and e: "election_ok s" and i: "i < length (servers s)"
    and lead: "rstate (servers s ! i) = leader"
    and rf: "rlog rf = rlog (servers s ! i) @ [x]" "le_Term x = curTerm (servers s ! i)" "rstate rf = leader"
      "curTerm rf = curTerm (servers s ! i)"
    and gs: "\<forall>g \<in> set gs. body_links g = {}"
  shows "match_ok (spawn i gs (put i rf s))"
  unfolding match_ok_def
proof (intro conjI allI impI)
  let ?s = "spawn i gs (put i rf s)" and ?l = "rlog (servers s ! i)"
  let ?new = "(length ?l, le_Term (last ?l), x)"
  have ne: "?l \<noteq> []" by (rule cluster_okD(4) [OF c i])
  have srv: "servers ?s ! j = (if j = i then rf else servers s ! j)" if "j < length (servers s)" for j
    using that by simp
  have links: "links ?s \<subseteq> insert ?new (links s)"
  proof -
    have "log_links (rlog (servers ?s ! j)) \<subseteq> insert ?new (links s)" if "j < length (servers s)" for j
      unfolding srv [OF that] using log_links_snoc [OF ne, of x] links_server [OF i] links_server [OF that] rf(1) by auto
    then have "(\<Union>r \<in> set (servers ?s). log_links (rlog r)) \<subseteq> insert ?new (links s)"
      by (force simp: set_conv_nth)
    moreover have "(\<Union>tk \<in> set (tasks ?s). body_links (body tk)) \<subseteq> links s"
      using gs links_task by fastforce
    ultimately show ?thesis unfolding links_def [of ?s] by blast
  qed
  have fresh: "(length ?l, u, y) \<notin> links s" if "le_Term y = le_Term x" for u y
  proof
    assume "(length ?l, u, y) \<in> links s"
    then have "(length ?l, u, y) \<in> log_links ?l" using match_okD(4) [OF m i lead] that rf(2) by simp
    then show False using chain_index ne by (fastforce simp: log_links_def)
  qed
  show "hd (rlog (servers ?s ! j)) = \<lparr>le_Term = 0, le_Command = None\<rparr>" if "j < length (servers ?s)" for j
    using match_okD(1) [OF m, of j] that rf(1) ne by (cases "j = i") simp_all
  show "u = u'" "y = y'" if "(k, u, y) \<in> links ?s" "(k, u', y') \<in> links ?s" "le_Term y = le_Term y'" for k u y u' y'
    using subsetD [OF links that(1)] subsetD [OF links that(2)] that(3) match_okD(2) [OF m] fresh by force+
  have el: "elected ?s t" if "elected s t" for t
    using that i lead rf(3,4) by (auto simp: elected_def nth_list_update)
  show "elected ?s (le_Term y)" if "(k, u, y) \<in> links ?s" for k u y
    using subsetD [OF links that] match_okD(3) [OF m] leader_elected [OF e i lead] el rf(2) by auto
  show "(k, u, y) \<in> log_links (rlog (servers ?s ! j))"
    if j: "j < length (servers ?s)" "rstate (servers ?s ! j) = leader" and l: "(k, u, y) \<in> links ?s"
      and t: "le_Term y = curTerm (servers ?s ! j)" for j k u y
  proof (cases "j = i")
    case True
    then have "rlog (servers ?s ! j) = ?l @ [x]" "le_Term y = curTerm (servers s ! i)"
      using srv [OF i] t rf(1,4) by simp_all
    then show ?thesis
      using subsetD [OF links l] match_okD(4) [OF m i lead] log_links_snoc [OF ne, of x] by auto
  next
    case False
    have n: "j < length (servers s)" "rstate (servers s ! j) = leader" "le_Term y = curTerm (servers s ! j)"
      using j t srv [of j] False by auto
    then have "curTerm (servers s ! j) \<noteq> curTerm (servers s ! i)" using election_ok_unique [OF e n(1) i n(2) lead] False by blast
    then have "(k, u, y) \<in> links s" using subsetD [OF links l] n(3) rf(2) by auto
    then show ?thesis using match_okD(4) [OF m n(1,2)] n(1,3) srv [of j] False by simp
  qed
qed

lemma match_ok_tstep:
  assumes m: "match_ok s" and c: "cluster_ok s" and e: "election_ok s" and d: "tstep ev s = Some s'"
  shows "match_ok s'"
proof -
  have st: "cstep ev s = Some s'" using d by (auto simp: tstep_def split: if_splits)
  note fitting = match_ok_fits [OF m c _ election_ok_tstep [OF e c d] servers_step_cstep [OF c st] votes_mono [OF st]]
  show ?thesis
  proof (cases "\<exists>i cmd. ev = Client i cmd")
    case True
    then obtain i cmd where ev: "ev = Client i cmd" by blast
    then have i: "i < length (servers s)" using st by (auto split: if_splits)
    let ?rf = "servers s ! i"
    obtain rf res gs where r: "Start cmd ?rf = Some (rf, res, gs)" "curTerm rf = curTerm ?rf" "rstate rf = rstate ?rf"
      "if rstate ?rf = leader then rlog rf = rlog ?rf @ [\<lparr>le_Term = curTerm ?rf, le_Command = cmd\<rparr>] \<and>
         gs = map (\<lambda>p. Repl [p] (curTerm ?rf)) (others ?rf) else rf = ?rf \<and> gs = []"
      using Start_total [OF cluster_okD(1) [OF c i], of cmd] by (auto split: if_splits)
    have s': "s' = spawn i gs (put i rf s)" using st ev i r(1) by (simp add: attempt_def)
    show ?thesis
    proof (cases "rstate ?rf = leader")
      case True
      then show ?thesis unfolding s' using r by (intro match_ok_append [OF m c e i]) auto
    next
      case False
      then show ?thesis using r(4) i fitting unfolding s' by (simp add: fits_put_same fits_refl)
    qed
  next
    case False
    then show ?thesis using fitting cstep_fits [OF c st] by blast
  qed
qed

lemma rlog_Make: "rlog (Make e n i MakePersister) = [\<lparr>le_Term = 0, le_Command = None\<rparr>]"
  by (auto simp: Make_def readPersist_def raft_slot.load_make Let_def)

lemma match_ok_boot: "match_ok (boot n e)"
proof -
  have "links (boot n e) = {}" by (simp add: links_def boot_def log_links_def rlog_Make)
  then show ?thesis by (auto simp: match_ok_def) (auto simp: boot_def rlog_Make)
qed

interpretation matched: invariant_system is_boot timely_step "\<lambda>s. cluster_ok s \<and> election_ok s \<and> match_ok s"
proof unfold_locales
  show "cluster_ok s \<and> election_ok s \<and> match_ok s" if "is_boot s" for s :: "'c cluster"
    using timely.init_inv [OF that] that match_ok_boot by (auto simp: is_boot_def)
  show "cluster_ok t \<and> election_ok t \<and> match_ok t" if "timely_step s t" "cluster_ok s \<and> election_ok s \<and> match_ok s"
    for s t :: "'c cluster"
    using timely.step_inv [OF that(1)] that match_ok_tstep by (auto simp: timely_step_def)
qed

section \<open>Logs that agree on a term\<close>

lemma log_link: "Suc k < length l \<Longrightarrow> (Suc k, le_Term (l ! k), l ! Suc k) \<in> log_links l"
  using log_links_drop [of "Suc k" l] Cons_nth_drop_Suc [of "Suc k" l]
  by (metis chain.simps(2) diff_Suc_1 insertI1 less_imp_le_nat subsetD zero_less_Suc)

lemma chains_match:
  assumes L: "\<forall>k u x u' x'. (k, u, x) \<in> L \<longrightarrow> (k, u', x') \<in> L \<longrightarrow> le_Term x = le_Term x' \<longrightarrow> u = u' \<and> x = x'"
    and l: "log_links l \<subseteq> L" "log_links l' \<subseteq> L" "l \<noteq> []" "l' \<noteq> []" "hd l = hd l'"
    and k: "k < length l" "k < length l'" "le_Term (l ! k) = le_Term (l' ! k)"
  shows "take (Suc k) l = take (Suc k) l'"
  using k
proof (induction k)
  case 0
  then show ?case using l by (simp add: take_Suc)
next
  case (Suc k)
  have "(Suc k, le_Term (l ! k), l ! Suc k) \<in> L" "(Suc k, le_Term (l' ! k), l' ! Suc k) \<in> L"
    using log_link Suc.prems l(1,2) by blast+
  then have "le_Term (l ! k) = le_Term (l' ! k)" "l ! Suc k = l' ! Suc k" using L Suc.prems by blast+
  then show ?case using Suc by (simp add: take_Suc_conv_app_nth)
qed

lemma logs_match:
  assumes m: "match_ok s" and i: "i < length (servers s)" "rlog (servers s ! i) \<noteq> []"
    and j: "j < length (servers s)" "rlog (servers s ! j) \<noteq> []"
    and k: "k < length (rlog (servers s ! i))" "k < length (rlog (servers s ! j))"
      "le_Term (rlog (servers s ! i) ! k) = le_Term (rlog (servers s ! j) ! k)"
  shows "take (Suc k) (rlog (servers s ! i)) = take (Suc k) (rlog (servers s ! j))"
proof (rule chains_match [where L = "links s"])
  show "\<forall>k u x u' x'. (k, u, x) \<in> links s \<longrightarrow> (k, u', x') \<in> links s \<longrightarrow> le_Term x = le_Term x' \<longrightarrow> u = u' \<and> x = x'"
    using match_okD(2) [OF m] by blast
  show "hd (rlog (servers s ! i)) = hd (rlog (servers s ! j))" using match_okD(1) [OF m] i(1) j(1) by simp
qed (use i j k links_server in auto)

end
