(* ===== verification/Raft_Moves.thy ===== *)
theory Raft_Moves
  imports Raft_Matching
begin

text \<open>
  The steps of a cluster by what they do to logs, commit indices, votes and the calls in flight.
  Every event of the cluster is one of eight moves; the proof of state machine safety goes by cases
  on the moves instead of the events.
\<close>

section \<open>Calls in flight\<close>

definition calls :: "'c cluster \<Rightarrow> (nat \<times> 'c gort) set" where
  "calls s = (\<lambda>tk. (owner tk, body tk)) ` set (tasks s)"

lemma calls_put [simp]: "calls (put i rf s) = calls s"
  by (simp add: calls_def)

lemma calls_vote [simp]: "calls (vote v t c s) = calls s"
  by (simp add: calls_def vote_def)

lemma calls_spawn [simp]: "calls (spawn i gs s) = calls s \<union> (\<lambda>g. (i, g)) ` set gs"
  by (force simp: calls_def)

lemma calls_drop: "calls (drop_task k s) \<subseteq> calls s"
  using set_remove_nth [of k "tasks s"] by (auto simp: calls_def)

lemma calls_goto: "calls (goto_task k g s) \<subseteq> insert (owner (tasks s ! k), g) (calls s)"
  using set_remove_nth [of k "tasks s"] by (auto simp: calls_def)

lemma call_task: "k < length (tasks s) \<Longrightarrow> (owner (tasks s ! k), body (tasks s ! k)) \<in> calls s"
  by (auto simp: calls_def)

text \<open>Bodies that carry no request for a vote, no entries and no acknowledgement.\<close>

fun neutral :: "'c gort \<Rightarrow> bool" where
  "neutral (VoteCall p args n t) = False"
| "neutral (ReplCall ps t args) = False"
| "neutral (ReplDone ps t args reply) = (\<not> aer_Success reply)"
| "neutral _ = True"

definition only :: "('c gort \<Rightarrow> bool) \<Rightarrow> 'c cluster \<Rightarrow> 'c cluster \<Rightarrow> bool" where
  "only P s s' \<longleftrightarrow> (\<forall>(i, b) \<in> calls s'. (i, b) \<in> calls s \<or> P b)"

section \<open>Moves\<close>

text \<open>A server becomes a leader with no acknowledgement of another server, or keeps those it has.\<close>

definition acks_kept :: "'c Raft \<Rightarrow> 'c Raft \<Rightarrow> bool" where
  "acks_kept rf rf' \<longleftrightarrow> (rstate rf' = leader \<longrightarrow>
     rstate rf = leader \<and> curTerm rf' = curTerm rf \<and> matchIndex rf' = matchIndex rf \<or>
     (\<forall>q < length (matchIndex rf'). int q \<noteq> me rf' \<longrightarrow> matchIndex rf' ! q \<le> 0))"

text \<open>The log stays, and the commit index stays or is reset by a restart.\<close>

definition still :: "'c Raft \<Rightarrow> 'c Raft \<Rightarrow> bool" where
  "still rf rf' \<longleftrightarrow> rlog rf' = rlog rf \<and> (commitIndex rf' = commitIndex rf \<or> commitIndex rf' = 0) \<and>
     set (applyCh rf') \<subseteq> set (applyCh rf) \<and> acks_kept rf rf'"

text \<open>
  A request is handled in order: the follower has no entry of the same leader behind the end of the
  request. Where requests of one leader overtake each other this fails, and the follower loses
  what the later request had brought.
\<close>

definition in_order :: "'c AppendEntriesArgs \<Rightarrow> 'c Raft \<Rightarrow> bool" where
  "in_order args rf \<longleftrightarrow> aea_Entries args = [] \<or>
     list_all (\<lambda>x. le_Term x \<noteq> aea_Term args) (drop (nat (aea_PrevLogIndex args + 1) + length (aea_Entries args)) (rlog rf))"

fun ordered :: "'c event \<Rightarrow> 'c cluster \<Rightarrow> bool" where
  "ordered (Deliver k e) s =
     (case body (tasks s ! k) of
        ReplCall (p # ps) t args \<Rightarrow> curTerm (servers s ! nat p) \<le> t \<longrightarrow> in_order args (servers s ! nat p)
      | _ \<Rightarrow> True)"
| "ordered _ s = True"

text \<open>The leader \<open>i\<close> appends \<open>x\<close> to its log.\<close>

definition appends :: "nat \<Rightarrow> 'c Raft \<Rightarrow> 'c LogEntry \<Rightarrow> 'c cluster \<Rightarrow> 'c cluster \<Rightarrow> bool" where
  "appends i rf x s s' \<longleftrightarrow> i < length (servers s) \<and> rstate (servers s ! i) = leader \<and> servers s' = (servers s)[i := rf] \<and>
     rlog rf = rlog (servers s ! i) @ [x] \<and> le_Term x = curTerm (servers s ! i) \<and> curTerm rf = curTerm (servers s ! i) \<and>
     rstate rf = leader \<and> commitIndex rf = commitIndex (servers s ! i) \<and> applyCh rf = applyCh (servers s ! i) \<and>
     length (matchIndex rf) = length (matchIndex (servers s ! i)) \<and>
     (\<forall>q < length (matchIndex rf). q \<noteq> i \<longrightarrow> matchIndex rf ! q = matchIndex (servers s ! i) ! q) \<and>
     votes s' = votes s \<and> only neutral s s'"

inductive move :: "'c cluster \<Rightarrow> 'c cluster \<Rightarrow> bool" where
  Idle: "servers s' = servers s \<Longrightarrow> votes s' = votes s \<Longrightarrow> only neutral s s' \<Longrightarrow> move s s'"
| Local: "i < length (servers s) \<Longrightarrow> servers s' = (servers s)[i := rf] \<Longrightarrow> still (servers s ! i) rf \<Longrightarrow>
    votes s' = votes s \<Longrightarrow> only neutral s s' \<Longrightarrow> move s s'"
| Elect: "i < length (servers s) \<Longrightarrow> servers s' = (servers s)[i := rf] \<Longrightarrow> still (servers s ! i) rf \<Longrightarrow>
    curTerm rf = curTerm (servers s ! i) + 1 \<Longrightarrow> votes s' = (int i, curTerm rf, int i) # votes s \<Longrightarrow>
    (\<forall>(j, b) \<in> calls s'. (j, b) \<in> calls s \<or> neutral b \<or>
       j = i \<and> (\<exists>p args n. b = VoteCall p args n (curTerm rf) \<and> rva_LastLogIndex args = go_len (rlog rf) - 1 \<and>
         rva_LastLogTerm args = le_Term (last (rlog rf)))) \<Longrightarrow> move s s'"
| Grant: "nat p < length (servers s) \<Longrightarrow> 0 \<le> p \<Longrightarrow> servers s' = (servers s)[nat p := rf] \<Longrightarrow>
    still (servers s ! nat p) rf \<Longrightarrow> (c, VoteCall p args n t) \<in> calls s \<Longrightarrow> curTerm rf = t \<Longrightarrow>
    up_to_date args (servers s ! nat p) \<Longrightarrow> votes s' = (p, t, int c) # votes s \<Longrightarrow> only neutral s s' \<Longrightarrow> move s s'"
| Send: "i < length (servers s) \<Longrightarrow> servers s' = servers s \<Longrightarrow> rstate (servers s ! i) = leader \<Longrightarrow>
    0 \<le> p \<Longrightarrow> p < int (length (servers s)) \<Longrightarrow> votes s' = votes s \<Longrightarrow>
    only (\<lambda>b. \<exists>ps. b = ReplCall ps (curTerm (servers s ! i)) (request p (servers s ! i))) s s' \<Longrightarrow> move s s'"
| Receive: "nat p < length (servers s) \<Longrightarrow> 0 \<le> p \<Longrightarrow> (c, ReplCall (p # ps) t args) \<in> calls s \<Longrightarrow>
    curTerm (servers s ! nat p) \<le> t \<Longrightarrow> consistent args (servers s ! nat p) \<Longrightarrow>
    in_order args (servers s ! nat p) \<Longrightarrow>
    servers s' = (servers s)[nat p := appended e args (servers s ! nat p)] \<Longrightarrow> votes s' = votes s \<Longrightarrow>
    only (\<lambda>b. \<exists>reply. b = ReplDone (p # ps) t args reply) s s' \<Longrightarrow> move s s'"
| Acked: "i < length (servers s) \<Longrightarrow> rstate (servers s ! i) = leader \<Longrightarrow>
    (i, ReplDone (p # ps) (curTerm (servers s ! i)) args reply) \<in> calls s \<Longrightarrow> aer_Success reply \<Longrightarrow>
    0 \<le> p \<Longrightarrow> p < int (length (servers s)) \<Longrightarrow>
    servers s' = (servers s)[i := advanced p args (servers s ! i)\<lparr>commitIndex := c\<rparr>] \<Longrightarrow>
    c = commitIndex (servers s ! i) \<or>
      commitIndex (servers s ! i) < c \<and> commit_ready (advanced p args (servers s ! i)) c \<Longrightarrow>
    votes s' = votes s \<Longrightarrow> only neutral s s' \<Longrightarrow> move s s'"
| Append: "appends i rf x s s' \<Longrightarrow> move s s'"
| Applied: "i < length (servers s) \<Longrightarrow> servers s' = (servers s)[i := rf] \<Longrightarrow> rlog rf = rlog (servers s ! i) \<Longrightarrow>
    curTerm rf = curTerm (servers s ! i) \<Longrightarrow> rstate rf = rstate (servers s ! i) \<Longrightarrow>
    commitIndex rf = commitIndex (servers s ! i) \<Longrightarrow> matchIndex rf = matchIndex (servers s ! i) \<Longrightarrow>
    applyCh rf = applyCh (servers s ! i) @ [m] \<Longrightarrow> 0 < am_Index m \<Longrightarrow> am_Index m \<le> commitIndex (servers s ! i) \<Longrightarrow>
    am_Command m = le_Command (rlog (servers s ! i) ! nat (am_Index m)) \<Longrightarrow>
    votes s' = votes s \<Longrightarrow> only neutral s s' \<Longrightarrow> move s s'"

section \<open>Every event is a move\<close>

lemma only_refl [simp]: "calls s' \<subseteq> calls s \<Longrightarrow> only P s s'"
  by (auto simp: only_def)

lemma onlyI: "calls s' \<subseteq> calls s \<union> {(i, b). P b} \<Longrightarrow> only P s s'"
  by (auto simp: only_def)

lemma still_refl [simp]: "still rf rf"
  by (simp add: still_def acks_kept_def)

lemma still_follower:
  "rlog rf' = rlog rf \<Longrightarrow> commitIndex rf' = commitIndex rf \<Longrightarrow> applyCh rf' = applyCh rf \<Longrightarrow> rstate rf' \<noteq> leader \<Longrightarrow> still rf rf'"
  by (simp add: still_def acks_kept_def)

lemma still_stepDown: "still rf (stepDownLocked e t rf)"
  by (rule still_follower) simp_all

lemma still_RequestVote: "RequestVote e args rf = Some (rf', reply) \<Longrightarrow> rlog rf \<noteq> [] \<Longrightarrow> still rf rf'"
  using RequestVote_frame [of e args rf rf' reply] by (auto simp: still_def acks_kept_def split: if_splits)

lemma still_Heartbeat: "Heartbeat e args rf = (rf', reply) \<Longrightarrow> still rf rf'"
  using Heartbeat_sel [of e args rf rf' reply] by (cases "curTerm rf \<le> hba_Term args") (auto intro: still_follower)

lemma still_AppendEntries:
  assumes "AppendEntries e args rf = Some (rf', reply)" and "0 \<le> aea_PrevLogIndex args" and "\<not> aer_Success reply"
  shows "still rf rf'"
  using AppendEntries_frame(3,7,8,10) [OF assms(1,2)] assms(3)
  by (cases "aea_Term args < curTerm rf") (auto intro: still_follower)

lemma becomeLeader_acks:
  assumes "becomeLeaderLocked rf = Some (rf', x)" and "0 \<le> me rf"
  shows "\<forall>q < length (matchIndex rf'). int q \<noteq> me rf' \<longrightarrow> matchIndex rf' ! q \<le> 0"
  using assms by (auto simp: becomeLeaderLocked_def Let_def go_update_def bind_eq_Some_conv split: if_splits)

lemma acks_StartElection:
  assumes "raft_ok rf" and "StartElection e rf = Some (rf', gs)"
  shows "acks_kept rf rf'"
  using assms(2) raft_okD(1) [OF assms(1)] becomeLeader_acks
  by (auto simp: StartElection_def Let_def acks_kept_def bind_eq_Some_conv split: if_splits) fastforce+

lemma acks_VoteReturn:
  assumes "raft_ok rf" and "VoteReturn e reply n t rf = Some (rf', gs)"
  shows "acks_kept rf rf'"
  using assms(2) raft_okD(1) [OF assms(1)] becomeLeader_acks
  by (auto simp: VoteReturn_def Let_def acks_kept_def bind_eq_Some_conv split: if_splits) fastforce+

lemma apply_one_acks: "apply_one rf = Some (rf', b) \<Longrightarrow> matchIndex rf' = matchIndex rf"
  by (auto simp: apply_one_def Let_def bind_eq_Some_conv split: if_splits)

lemma Start_acks:
  "Start cmd rf = Some (rf', res, gs) \<Longrightarrow> 0 \<le> me rf \<Longrightarrow> length (matchIndex rf') = length (matchIndex rf) \<and>
     (\<forall>q < length (matchIndex rf'). int q \<noteq> me rf \<longrightarrow> matchIndex rf' ! q = matchIndex rf ! q)"
  by (auto simp: Start_def Let_def go_update_def bind_eq_Some_conv split: if_splits)

lemma move_vote_call:
  assumes ok: "cluster_ok s" and k: "k < length (tasks s)" and b: "body (tasks s ! k) = VoteCall p args n t"
    and d: "deliver k e (VoteCall p args n t) s = Some s'"
  shows "move s s'"
proof -
  have tk: "task_ok (servers s) (tasks s ! k)" using cluster_ok_task [OF ok nth_mem [OF k]] .
  let ?c = "owner (tasks s ! k)"
  have p: "nat p < length (servers s)" "0 \<le> p" and a: "rva_CandidateID args = int ?c" "rva_ElectionTerm args = t" "?c < length (servers s)"
    using tk b by (auto simp: task_ok_def)
  note srv = cluster_okD [OF ok p(1)]
  obtain rf reply where r: "RequestVote e args (servers s ! nat p) = Some (rf, reply)"
    using RequestVote_total [OF srv(1), of args e] a srv(3) by auto
  let ?s = "goto_task k (VoteDone p reply n t) (put (nat p) rf s)"
  have st: "still (servers s ! nat p) rf" by (rule still_RequestVote [OF r srv(4)])
  have calls: "calls ?s \<subseteq> calls s \<union> {(i, b). neutral b}" using calls_goto [of k "VoteDone p reply n t" "put (nat p) rf s"] by auto
  show ?thesis
  proof (cases "rvr_Vote reply")
    case True
    then have s': "s' = vote p t (int ?c) ?s" using d r a by (auto simp: attempt_def)
    have "only neutral s s'" using calls by (intro onlyI) (simp add: s' vote_def calls_def)
    moreover have "up_to_date args (servers s ! nat p)" using RequestVote_frame(12) [OF r srv(4)] True by (simp add: grants_def)
    moreover have "curTerm rf = t" using RequestVote_frame(14) [OF r srv(4) True] a by simp
    ultimately show ?thesis using p st call_task [OF k] b by (intro Grant [where c = ?c and rf = rf]) (auto simp: s' vote_def)
  next
    case False
    then have s': "s' = ?s" using d r by (auto simp: attempt_def)
    show ?thesis using p st onlyI [OF calls] by (intro Local [of "nat p" s s' rf]) (simp_all add: s')
  qed
qed

lemma move_repl_call:
  assumes ok: "cluster_ok s" and k: "k < length (tasks s)" and b: "body (tasks s ! k) = ReplCall ps t args"
    and d: "deliver k e (ReplCall ps t args) s = Some s'" and ord: "ordered (Deliver k e) s"
  shows "move s s'"
proof -
  have tk: "task_ok (servers s) (tasks s ! k)" using cluster_ok_task [OF ok nth_mem [OF k]] .
  then obtain p ps' where ps: "ps = p # ps'" and p: "nat p < length (servers s)" "0 \<le> p" and a: "args_ok args" "aea_Term args = t"
    using b by (cases ps) (auto simp: task_ok_def)
  note srv = cluster_okD [OF ok p(1)]
  have p0: "0 \<le> aea_PrevLogIndex args" using a by (simp add: args_ok_def)
  obtain rf reply where r: "AppendEntries e args (servers s ! nat p) = Some (rf, reply)"
    using AppendEntries_total [OF srv(1) a(1)] by blast
  note f = AppendEntries_frame [OF r p0]
  have s': "s' = goto_task k (ReplDone ps t args reply) (put (nat p) rf s)" using d ps r by (simp add: attempt_def)
  have calls: "calls s' \<subseteq> insert (owner (tasks s ! k), ReplDone ps t args reply) (calls s)"
    using calls_goto [of k "ReplDone ps t args reply" "put (nat p) rf s"] by (simp add: s')
  show ?thesis
  proof (cases "aer_Success reply")
    case True
    then have c: "curTerm (servers s ! nat p) \<le> t" "consistent args (servers s ! nat p)" "rf = appended e args (servers s ! nat p)"
      using f(9,11) a(2) by auto
    have "in_order args (servers s ! nat p)" using ord b ps c(1) by simp
    then show ?thesis
      using p c call_task [OF k] calls b ps by (intro Receive [where e = e and c = "owner (tasks s ! k)" and p = p and ps = ps']) (auto simp: s' only_def)
  next
    case False
    then have "only neutral s s'" using calls by (auto simp: only_def)
    then show ?thesis using p still_AppendEntries [OF r p0 False] by (intro Local [of "nat p" s s' rf]) (simp_all add: s')
  qed
qed

lemma move_deliver:
  assumes ok: "cluster_ok s" and d: "cstep (Deliver k e) s = Some s'" and ord: "ordered (Deliver k e) s"
  shows "move s s'"
proof -
  have k: "k < length (tasks s)" and d: "deliver k e (body (tasks s ! k)) s = Some s'" using d by (auto split: if_splits)
  show ?thesis
  proof (cases "body (tasks s ! k)")
    case (VoteCall p args n t)
    then show ?thesis using move_vote_call [OF ok k] d by simp
  next
    case (BeatCall p args t)
    then have p: "nat p < length (servers s)" using cluster_ok_task [OF ok nth_mem [OF k]] by (auto simp: task_ok_def)
    obtain rf reply where r: "Heartbeat e args (servers s ! nat p) = (rf, reply)" by fastforce
    then have s': "s' = goto_task k (BeatDone p reply t) (put (nat p) rf s)" using d BeatCall by simp
    have "only neutral s s'" unfolding s' using calls_goto [of k "BeatDone p reply t" "put (nat p) rf s"]
      by (intro onlyI) auto
    then show ?thesis using p still_Heartbeat [OF r] by (intro Local [of "nat p" s s' rf]) (simp_all add: s')
  next
    case (ReplCall ps t args)
    then show ?thesis using move_repl_call [OF ok k _ _ ord] d by simp
  qed (use d in auto)
qed

lemma only_goto: "P g \<Longrightarrow> only P s (goto_task k g s)"
  using calls_goto [of k g s] by (auto simp: only_def)

lemma only_drop: "only P s (drop_task k s)"
  using calls_drop [of k s] by (auto simp: only_def)

lemma fail_calls: "fail_call k b s = Some s' \<Longrightarrow> servers s' = servers s \<and> votes s' = votes s \<and> only neutral s s'"
  by (cases "(k, b, s)" rule: fail_call.cases) (auto intro: only_goto only_drop)

lemma move_fail: "cstep (Fail k) s = Some s' \<Longrightarrow> move s s'"
  by (auto split: if_splits dest!: fail_calls intro: Idle)

lemma move_late:
  assumes "cstep (Late k) s = Some s'"
  shows "move s s'"
proof -
  let ?s = "s\<lparr>tasks := tasks s @ [(tasks s ! k)\<lparr>alive := False\<rparr>]\<rparr>"
  have k: "k < length (tasks s)" and d: "fail_call k (body (tasks s ! k)) ?s = Some s'" using assms by (auto split: if_splits)
  have "calls ?s \<subseteq> calls s" using call_task [OF k] by (auto simp: calls_def)
  then have "only neutral s s'" using fail_calls [OF d] by (auto simp: only_def)
  then show ?thesis using fail_calls [OF d] by (intro Idle) simp_all
qed

lemma move_local:
  assumes "i < length (servers s)" and "still (servers s ! i) rf" and "\<forall>g \<in> set gs. neutral g" and "calls t \<subseteq> calls s"
    and "servers t = (servers s)[i := rf]" and "votes t = votes s"
  shows "move s (spawn i gs t)"
  using assms by (intro Local [of i s _ rf]) (auto simp: only_def)

lemma move_ack:
  assumes ok: "cluster_ok s" and k: "k < length (tasks s)" and al: "alive (tasks s ! k)"
    and b: "body (tasks s ! k) = ReplDone ps t args reply"
    and d: "run_task k (owner (tasks s ! k)) e (ReplDone ps t args reply) s = Some s'"
  shows "move s s'"
proof -
  let ?i = "owner (tasks s ! k)" and ?rf = "servers s ! owner (tasks s ! k)"
  have tk: "task_ok (servers s) (tasks s ! k)" using cluster_ok_task [OF ok nth_mem [OF k]] .
  then have i: "?i < length (servers s)" by (simp add: task_ok_def)
  note srv = cluster_okD [OF ok i] and bd = tk [unfolded task_ok_def, THEN conjunct2]
  from bd b obtain p ps' where ps: "ps = p # ps'" by (cases ps) auto
  with bd b have p: "0 \<le> p" "p < npeers ?rf" and a: "args_ok args" "reply_ok args reply" "sent_ok t args ?rf"
    using srv(3) al by (auto simp: repl_inv_def)
  have p0: "0 \<le> aea_PrevLogIndex args" using a by (simp add: args_ok_def)
  obtain rf again gs where r: "replicate_return e p t args reply ?rf = Some (rf, again, gs)"
    "\<forall>g \<in> set gs. \<exists>q. g = Repl [q] t \<and> 0 \<le> q \<and> q < npeers ?rf"
    using replicate_return_total [OF srv(1) p a, of e] by blast
  let ?t = "goto_task k (if again then Repl (p # ps') t else Repl ps' t) (put ?i rf s)"
  have s': "s' = spawn ?i gs ?t" using d ps r(1) by (simp add: attempt_def)
  have calls: "only neutral s s'" using r(2) calls_goto [of k "if again then Repl (p # ps') t else Repl ps' t" "put ?i rf s"]
    unfolding s' by (intro onlyI) (auto split: if_splits)
  consider (succ) "aer_Term reply \<le> curTerm ?rf" "curTerm ?rf = t" "rstate ?rf = leader" "aer_Success reply"
    | (other) "still ?rf rf"
  proof -
    consider "aer_Term reply > curTerm ?rf" | "aer_Term reply \<le> curTerm ?rf" "curTerm ?rf \<noteq> t \<or> rstate ?rf \<noteq> leader"
      | "aer_Term reply \<le> curTerm ?rf" "curTerm ?rf = t" "rstate ?rf = leader" "aer_Success reply"
      | "aer_Term reply \<le> curTerm ?rf" "curTerm ?rf = t" "rstate ?rf = leader" "\<not> aer_Success reply" by linarith
    then show thesis
    proof cases
      case 1
      then show thesis using r(1) other still_stepDown by (auto simp: replicate_return_def)
    next
      case 2
      then show thesis using r(1) other by (auto simp: replicate_return_def)
    next
      case 4
      then show thesis using r(1) other replicate_return_fail [OF srv(1) 4(3,2) p 4(4,1)]
        by (auto simp: backed_def still_def acks_kept_def)
    qed (use succ in blast)
  qed
  then show ?thesis
  proof cases
    case succ
    obtain c gs' where c: "replicate_return e p t args reply ?rf = Some (advanced p args ?rf\<lparr>commitIndex := c\<rparr>, False, gs')"
      "c = commitIndex ?rf \<or> commitIndex ?rf < c \<and> c < go_len (rlog ?rf) \<and> commit_ready (advanced p args ?rf) c"
      by (rule replicate_return_success [OF srv(1) succ(3,2) p succ(4,1) p0 a(3)])
    then have "rf = advanced p args ?rf\<lparr>commitIndex := c\<rparr>" using r(1) by simp
    moreover have "(?i, ReplDone (p # ps') (curTerm ?rf) args reply) \<in> calls s" using call_task [OF k] b ps succ(2) by simp
    ultimately show ?thesis using c(2) p srv(3) calls
      by (intro Acked [OF i succ(3) _ succ(4)]) (auto simp: s')
  next
    case other
    then show ?thesis using i calls by (intro Local [of ?i s s' rf]) (simp_all add: s')
  qed
qed

lemma move_run:
  assumes ok: "cluster_ok s" and d: "cstep (Run k e) s = Some s'"
  shows "move s s'"
proof -
  let ?i = "owner (tasks s ! k)" and ?rf = "servers s ! owner (tasks s ! k)"
  have k: "k < length (tasks s)" and al: "alive (tasks s ! k)" and d: "run_task k ?i e (body (tasks s ! k)) s = Some s'"
    using d by (auto split: if_splits)
  have tk: "task_ok (servers s) (tasks s ! k)" using cluster_ok_task [OF ok nth_mem [OF k]] .
  then have i: "?i < length (servers s)" by (simp add: task_ok_def)
  note srv = cluster_okD [OF ok i] and bd = tk [unfolded task_ok_def, THEN conjunct2]
  have put_drop: "move s (spawn ?i gs (drop_task k (put ?i rf s)))" if "still ?rf rf" "\<forall>g \<in> set gs. neutral g" for rf gs
    using that i calls_drop [of k "put ?i rf s"] by (intro move_local) simp_all
  show ?thesis
  proof (cases "body (tasks s ! k)")
    case (VoteDone p reply n t)
    obtain rf gs where r: "VoteReturn e reply n t ?rf = Some (rf, gs)" using VoteReturn_total [OF srv(1)] by blast
    have "still ?rf rf \<and> (\<forall>g \<in> set gs. neutral g)"
      using r srv(1) acks_VoteReturn [OF srv(1) r] by (cases rule: VoteReturn_cases) (auto simp: still_def)
    then show ?thesis using d VoteDone r put_drop by (auto simp: attempt_def)
  next
    case BeginBeat
    have "still ?rf (updateLastHeartbeatLocked e ?rf)" by (simp add: still_def acks_kept_def)
    then show ?thesis
      using d BeginBeat put_drop [of "updateLastHeartbeatLocked e ?rf" "snd (StartHeartbeat e ?rf)"] by (auto simp: StartHeartbeat_eq)
  next
    case (BeatDone p reply t)
    have "still ?rf (fst (BeatReturn e p reply t ?rf))" by (simp add: BeatReturn_def still_stepDown)
    then show ?thesis using d BeatDone put_drop [of "fst (BeatReturn e p reply t ?rf)" "[Repl [p] t]"] by (auto simp: BeatReturn_def)
  next
    case (Repl ps t)
    show ?thesis
    proof (cases ps)
      case Nil
      then show ?thesis using d Repl only_drop [of neutral s k] by (auto intro: Idle)
    next
      case (Cons p ps')
      with bd Repl have p: "0 \<le> p" "p < npeers ?rf" using srv(3) by auto
      show ?thesis
      proof (cases "rstate ?rf = leader \<and> curTerm ?rf = t")
        case True
        then have s': "s' = goto_task k (ReplCall (p # ps') t (request p ?rf)) (put ?i ?rf s)"
          using d Repl Cons replicate_send_eq [OF srv(1) p, of t] by (simp add: attempt_def)
        have "only (\<lambda>b. \<exists>ps. b = ReplCall ps (curTerm ?rf) (request p ?rf)) s s'"
          unfolding s' using True calls_goto [of k _ "put ?i ?rf s"] by (intro onlyI) fastforce
        then show ?thesis using i True p srv(3) by (intro Send [of ?i s s' p]) (simp_all add: s')
      next
        case False
        then have "s' = goto_task k (Repl ps' t) (put ?i ?rf s)"
          using d Repl Cons replicate_send_eq [OF srv(1) p, of t] by (auto simp: attempt_def)
        then show ?thesis using only_goto [of neutral "Repl ps' t" "put ?i ?rf s" k]
          by (intro Idle) (simp_all add: only_def)
      qed
    qed
  next
    case (ReplDone ps t args reply)
    then show ?thesis using move_ack [OF ok k al] d by simp
  qed (use d in auto)
qed

lemma move_life:
  assumes ok: "cluster_ok s" and d: "cstep (LifeAct i e) s = Some s'"
  shows "move s s'"
proof -
  have i: "i < length (servers s)" using d by (auto split: if_splits)
  obtain sn where sn: "lives s ! i = Some sn" using d by (auto split: if_splits option.splits)
  note srv = cluster_okD [OF ok i]
  obtain rf gs where r: "life_act e sn (servers s ! i) = Some (rf, gs)" using life_act_total [OF srv(1)] by blast
  let ?t = "put i rf s\<lparr>lives := (lives s)[i := None]\<rparr>"
  have s': "s' = spawn i gs (self_vote (servers s ! i) rf ?t)" using d i sn r by (simp add: attempt_def)
  have t: "calls ?t = calls s" "servers ?t = (servers s)[i := rf]" "votes ?t = votes s" by (simp_all add: calls_def)
  show ?thesis
    using r
  proof (cases rule: life_act_cases)
    case election
    note E = StartElection_total [OF srv(1), of e] and a = acks_StartElection [OF srv(1) election]
    have f: "curTerm rf = curTerm (servers s ! i) + 1" "rlog rf = rlog (servers s ! i)" "commitIndex rf = commitIndex (servers s ! i)"
      "applyCh rf = applyCh (servers s ! i)" "me rf = int i" using E election srv(2) by auto
    have g: "\<forall>g \<in> set gs. neutral g \<or> (\<exists>p args n. g = VoteCall p args n (curTerm rf) \<and>
        rva_LastLogIndex args = go_len (rlog rf) - 1 \<and> rva_LastLogTerm args = le_Term (last (rlog rf)))"
      using E election by (auto simp: lastLogIndexLocked_def split: if_splits)
    have v: "self_vote (servers s ! i) rf ?t = vote (int i) (curTerm rf) (int i) ?t" using f(1,5) by (simp add: self_vote_def)
    have "calls s' = calls s \<union> (\<lambda>g. (i, g)) ` set gs" unfolding s' v using t(1) by simp
    then have "\<forall>(j, b) \<in> calls s'. (j, b) \<in> calls s \<or> neutral b \<or> j = i \<and> (\<exists>p args n. b = VoteCall p args n (curTerm rf) \<and>
        rva_LastLogIndex args = go_len (rlog rf) - 1 \<and> rva_LastLogTerm args = le_Term (last (rlog rf)))"
      using g by blast
    moreover have "still (servers s ! i) rf" using f a by (simp add: still_def)
    moreover have "servers s' = (servers s)[i := rf]" "votes s' = (int i, curTerm rf, int i) # votes s"
      unfolding s' v by (simp_all add: vote_def)
    ultimately show ?thesis using i f(1) by (intro Elect [of i s s' rf])
  next
    case idle
    then show ?thesis using t by (intro Idle) (simp_all add: s' self_vote_def)
  next
    case beat
    then have "rf = updateLastHeartbeatLocked e (servers s ! i)" "\<forall>g \<in> set gs. neutral g" by (auto simp: StartHeartbeat_eq)
    then have "still (servers s ! i) rf" "curTerm rf = curTerm (servers s ! i)" by (simp_all add: still_def acks_kept_def)
    then show ?thesis unfolding s' using i t \<open>\<forall>g \<in> set gs. neutral g\<close> by (intro move_local) (simp_all add: self_vote_def)
  qed
qed

lemma move_client:
  assumes ok: "cluster_ok s" and d: "cstep (Client i cmd) s = Some s'"
  shows "move s s'"
proof -
  have i: "i < length (servers s)" using d by (auto split: if_splits)
  let ?rf = "servers s ! i"
  note srv = cluster_okD [OF ok i]
  obtain rf res gs where r: "Start cmd ?rf = Some (rf, res, gs)" "curTerm rf = curTerm ?rf" "rstate rf = rstate ?rf"
    "commitIndex rf = commitIndex ?rf" "applyCh rf = applyCh ?rf"
    "if rstate ?rf = leader then rlog rf = rlog ?rf @ [\<lparr>le_Term = curTerm ?rf, le_Command = cmd\<rparr>] \<and>
       gs = map (\<lambda>p. Repl [p] (curTerm ?rf)) (others ?rf) else rf = ?rf \<and> gs = []"
    using Start_total [OF srv(1), of cmd] by (auto split: if_splits)
  have s': "s' = spawn i gs (put i rf s)" using d i r(1) by (simp add: attempt_def)
  show ?thesis
  proof (cases "rstate ?rf = leader")
    case True
    then show ?thesis using i r srv(2) Start_acks [OF r(1)]
      by (intro Append [of i rf "\<lparr>le_Term = curTerm ?rf, le_Command = cmd\<rparr>" s s']) (auto simp: s' only_def appends_def)
  next
    case False
    then show ?thesis using r(6) i by (intro Idle) (simp_all add: s')
  qed
qed

lemma move_apply:
  assumes ok: "cluster_ok s" and d: "cstep (Apply i) s = Some s'"
  shows "move s s'"
proof -
  have i: "i < length (servers s)" using d by (auto split: if_splits)
  let ?rf = "servers s ! i"
  note srv = cluster_okD [OF ok i]
  obtain rf b where r: "apply_one ?rf = Some (rf, b)" "curTerm rf = curTerm ?rf" "rstate rf = rstate ?rf" "rlog rf = rlog ?rf"
    "commitIndex rf = commitIndex ?rf"
    "if b then lastApplied ?rf < commitIndex ?rf \<and> lastApplied ?rf + 1 < go_len (rlog ?rf) \<and> lastApplied rf = lastApplied ?rf + 1 \<and>
       applyCh rf = applyCh ?rf @ [\<lparr>am_Index = lastApplied ?rf + 1, am_Command = le_Command (rlog ?rf ! nat (lastApplied ?rf + 1)),
         am_UseSnapshot = False, am_Snapshot = []\<rparr>]
     else rf = ?rf \<and> (commitIndex ?rf \<le> lastApplied ?rf \<or> go_len (rlog ?rf) \<le> lastApplied ?rf + 1)"
    using apply_one_total [OF srv(1)] by blast
  have s': "s' = put i rf s" using d i r(1) by (simp add: attempt_def)
  show ?thesis
  proof (cases b)
    case True
    have "0 \<le> lastApplied ?rf" using raft_okD(8) [OF srv(1)] by (simp add: applied_ok_def)
    then show ?thesis using True i r apply_one_acks [OF r(1)] by (intro Applied [of i s s' rf]) (auto simp: s')
  next
    case False
    then show ?thesis using r(6) i by (intro Idle) (simp_all add: s')
  qed
qed

lemma readPersist_frame [simp]:
  "commitIndex (readPersist d rf) = commitIndex rf" "applyCh (readPersist d rf) = applyCh rf" "rstate (readPersist d rf) = rstate rf"
  by (simp_all add: readPersist_def split: option.splits prod.splits)

lemma move_restart:
  assumes ok: "cluster_ok s" and d: "cstep (Restart i e) s = Some s'"
  shows "move s s'"
proof -
  have i: "i < length (servers s)" using d by (auto split: if_splits)
  let ?rf = "Make e (npeers (servers s ! i)) (int i) (Copy (persister (servers s ! i)))"
  have "rlog ?rf = rlog (servers s ! i)" by (rule restart_sel(3) [OF cluster_okD(1) [OF ok i]])
  then have st: "still (servers s ! i) ?rf"
    by (simp add: still_def acks_kept_def) (simp add: Make_def Let_def)
  have "calls s' \<subseteq> calls s" using d i by (fastforce simp: calls_def split: if_splits)
  then show ?thesis using d i st by (intro Local [of i s s' ?rf]) auto
qed

lemma cstep_move:
  assumes "cluster_ok s" and "cstep ev s = Some s'" and "ordered ev s"
  shows "move s s'"
proof (cases ev)
  case (LifeRead i)
  then show ?thesis using assms(2) by (intro Idle) (auto simp: calls_def split: if_splits)
next
  case (LifeAct i e)
  show ?thesis by (rule move_life [OF assms(1) assms(2) [unfolded LifeAct]])
next
  case (Deliver k e)
  show ?thesis by (rule move_deliver [OF assms(1) assms(2) [unfolded Deliver] assms(3) [unfolded Deliver]])
next
  case (Fail k)
  show ?thesis by (rule move_fail [OF assms(2) [unfolded Fail]])
next
  case (Late k)
  show ?thesis by (rule move_late [OF assms(2) [unfolded Late]])
next
  case (Run k e)
  show ?thesis by (rule move_run [OF assms(1) assms(2) [unfolded Run]])
next
  case (Client i cmd)
  show ?thesis by (rule move_client [OF assms(1) assms(2) [unfolded Client]])
next
  case (Apply i)
  show ?thesis by (rule move_apply [OF assms(1) assms(2) [unfolded Apply]])
next
  case (Restart i e)
  show ?thesis by (rule move_restart [OF assms(1) assms(2) [unfolded Restart]])
qed

end
