(* ===== verification/Raft_Choosable.thy ===== *)
theory Raft_Choosable
  imports Raft_Moves
begin

text \<open>
  The entries that can be committed, and the invariant behind the safety of what servers apply, in
  runs in which replies are handled in time and the requests of a leader in order. An entry of
  term \<open>t\<close> at index \<open>k\<close> is choosable while a majority of servers has stored it in term \<open>t\<close> or may still
  do so; all logs keep choosable entries, and entries of later terms stand behind them.
\<close>

section \<open>Logs and requests\<close>

definition has :: "'c LogEntry list \<Rightarrow> nat \<Rightarrow> int \<Rightarrow> bool" where
  "has l k t \<longleftrightarrow> k < length l \<and> le_Term (l ! k) = t"

lemma has_prefix: "prefix l l' \<Longrightarrow> has l k t \<Longrightarrow> has l' k t"
  by (auto simp: has_def prefix_def nth_append)

lemma has_take: "take (Suc k) l' = take (Suc k) l \<Longrightarrow> has l k t \<Longrightarrow> has l' k t"
  unfolding has_def by (metis length_take lessI min_less_iff_conj nth_take)

lemma sorted_terms: "log_ok l \<Longrightarrow> j \<le> k \<Longrightarrow> k < length l \<Longrightarrow> le_Term (l ! j) \<le> le_Term (l ! k)"
  using sorted_nth_mono [of "map le_Term l" j k] by (auto simp: log_ok_def)

lemma has_link: "has l k t \<Longrightarrow> 0 < k \<Longrightarrow> \<exists>u x. (k, u, x) \<in> log_links l \<and> le_Term x = t"
  using log_link [of "k - 1" l] by (auto simp: has_def)

lemma log_links_has:
  assumes "(k, u, x) \<in> log_links l" and "l \<noteq> []"
  shows "0 < k" "has l k (le_Term x)"
proof -
  obtain y r where l: "l = y # r" using assms(2) by (cases l) auto
  have "(k, u, x) \<in> chain 1 (le_Term y) r" using assms(1) by (simp add: log_links_def l)
  from chain_index [OF this] chain_entry [OF this] show "0 < k" "has l k (le_Term x)" by (auto simp: l has_def nth_Cons')
qed

text \<open>The index of the last entry a request speaks of, and what it says of an entry.\<close>

abbreviation last_sent :: "'c AppendEntriesArgs \<Rightarrow> int" where
  "last_sent args \<equiv> aea_PrevLogIndex args + go_len (aea_Entries args)"

definition args_has :: "'c AppendEntriesArgs \<Rightarrow> nat \<Rightarrow> int \<Rightarrow> bool" where
  "args_has args k t \<longleftrightarrow>
     (int k < aea_PrevLogIndex args \<longrightarrow> t \<le> aea_PrevLogTerm args) \<and>
     (int k = aea_PrevLogIndex args \<longrightarrow> t = aea_PrevLogTerm args) \<and>
     (aea_PrevLogIndex args < int k \<longrightarrow> int k \<le> last_sent args \<and>
        le_Term (aea_Entries args ! nat (int k - aea_PrevLogIndex args - 1)) = t)"

lemma request_has:
  assumes "leader_ok rf" and "log_ok (rlog rf)" and "0 \<le> p" and "p < npeers rf" and h: "has (rlog rf) k t"
  shows "args_has (request p rf) k t"
proof -
  note n = leader_ok_nth [OF assms(1,3,4)]
  define m where "m = nat (nextIndex rf ! nat p)"
  have m: "nextIndex rf ! nat p = int m" "0 < m" "m \<le> length (rlog rf)" using n by (auto simp: m_def go_len_def)
  have r: "aea_PrevLogIndex (request p rf) = int m - 1" "aea_PrevLogTerm (request p rf) = le_Term (rlog rf ! (m - 1))"
    "aea_Entries (request p rf) = drop m (rlog rf)" using m by (simp_all add: request_def nat_diff_distrib)
  have k: "k < length (rlog rf)" "le_Term (rlog rf ! k) = t" using h by (simp_all add: has_def)
  show ?thesis
  proof (cases "k < m")
    case True
    then have "t \<le> le_Term (rlog rf ! (m - 1))" using m k sorted_terms [OF assms(2), of k "m - 1"] by simp
    moreover have "m - 1 = k" if "int k = int m - 1" using that by simp
    ultimately show ?thesis using True k by (auto simp: args_has_def r)
  next
    case False
    then show ?thesis using k m by (simp add: args_has_def r go_len_def nat_diff_distrib)
  qed
qed

lemma merged_has:
  assumes c: "consistent args rf" and ok: "args_ok args" and h: "args_has args k t"
    and low: "int k \<le> aea_PrevLogIndex args \<Longrightarrow> has (rlog rf) k t"
  shows "has (rlog (appended e args rf)) k t"
proof -
  define p where "p = nat (aea_PrevLogIndex args + 1)"
  have p: "aea_PrevLogIndex args = int p - 1" "0 < p" "p \<le> length (rlog rf)"
    using c ok by (auto simp: p_def consistent_def args_ok_def go_len_def)
  have l: "rlog (appended e args rf) = merge_log p (aea_Entries args) (rlog rf)" by (simp add: p_def)
  show ?thesis
  proof (cases "k < p")
    case True
    then have "take (Suc k) (rlog (appended e args rf)) = take (Suc k) (rlog rf)"
      unfolding l using p(3) by (intro merge_log_prefix) simp_all
    moreover have "has (rlog rf) k t" using low True p(1) by simp
    ultimately show ?thesis by (rule has_take)
  next
    case False
    then have k: "k < p + length (aea_Entries args)" "le_Term (aea_Entries args ! (k - p)) = t"
      using h p by (auto simp: args_has_def go_len_def nat_diff_distrib)
    then have ne: "aea_Entries args \<noteq> []" using False by auto
    have "length (rlog (appended e args rf)) = p + length (aea_Entries args)" unfolding l by (rule merge_log_length [OF ne p(3)])
    moreover have "map le_Term (rlog (appended e args rf)) ! k = t"
      unfolding l merge_log_terms [OF ne p(3)] using k False p(3) by (simp add: nth_append)
    ultimately show ?thesis using k by (simp add: has_def)
  qed
qed

section \<open>Links under moves\<close>

lemma links_calls: "links s = (\<Union>rf \<in> set (servers s). log_links (rlog rf)) \<union> (\<Union>(i, b) \<in> calls s. body_links b)"
  by (auto simp: links_def calls_def)

lemma links_call: "(i, b) \<in> calls s \<Longrightarrow> body_links b \<subseteq> links s"
  by (auto simp: links_calls)

lemma links_subI:
  assumes "\<And>v. v < length (servers s') \<Longrightarrow> log_links (rlog (servers s' ! v)) \<subseteq> L"
    and "\<And>i b. (i, b) \<in> calls s' \<Longrightarrow> body_links b \<subseteq> L"
  shows "links s' \<subseteq> L"
  using assms unfolding links_calls by (force simp: set_conv_nth)

lemma neutral_links [simp]: "neutral b \<Longrightarrow> body_links b = {}"
  by (cases b) auto

lemma only_links:
  assumes "only P s s'" and "\<And>b. P b \<Longrightarrow> body_links b \<subseteq> links s" and "(i, b) \<in> calls s'"
  shows "body_links b \<subseteq> links s"
  using assms links_call unfolding only_def by blast

lemma call_body:
  assumes "cluster_ok s" and "(c, b) \<in> calls s"
  shows "c < length (servers s) \<and> (\<exists>al. body_ok (length (servers s)) c al (servers s ! c) b)"
  using assms cluster_ok_task [OF assms(1)] by (auto simp: calls_def task_ok_def)

lemma repl_call_args:
  assumes "cluster_ok s" and "(c, ReplCall ps t args) \<in> calls s \<or> (c, ReplDone ps t args reply) \<in> calls s"
  shows "args_ok args" "aea_Term args = t" "c < length (servers s)"
  using assms(2) call_body [OF assms(1)] by fastforce+

lemma links_pos:
  assumes "cluster_ok s" and "(k, u, x) \<in> links s"
  shows "0 < k"
proof -
  consider v where "v < length (servers s)" "(k, u, x) \<in> log_links (rlog (servers s ! v))"
    | c b where "(c, b) \<in> calls s" "(k, u, x) \<in> body_links b"
    using assms(2) unfolding links_calls by (auto simp: set_conv_nth)
  then show ?thesis
  proof cases
    case 1
    then show ?thesis using log_links_has(1) cluster_okD(4) [OF assms(1)] by blast
  next
    case 2
    then show ?thesis using call_body [OF assms(1) 2(1)] chain_index by (cases b) (fastforce simp: msg_links_def args_ok_def)+
  qed
qed

lemma links_put:
  assumes "servers s' = (servers s)[i := rf]" and "log_links (rlog rf) \<subseteq> L" and "links s \<subseteq> L"
    and "\<And>j b. (j, b) \<in> calls s' \<Longrightarrow> body_links b \<subseteq> L"
  shows "links s' \<subseteq> L"
proof (rule links_subI)
  fix v
  assume v: "v < length (servers s')"
  then have "v < length (servers s)" using assms(1) by simp
  with assms links_server [OF this] show "log_links (rlog (servers s' ! v)) \<subseteq> L" by (cases "v = i") auto
qed (use assms(4) in blast)

lemma appends_links:
  assumes a: "appends i rf x s s'" and c: "cluster_ok s"
  shows "links s' \<subseteq> insert (length (rlog (servers s ! i)), le_Term (last (rlog (servers s ! i))), x) (links s)" (is "_ \<subseteq> ?L")
proof (rule links_put)
  have i: "i < length (servers s)" using a by (simp add: appends_def)
  show "servers s' = (servers s)[i := rf]" using a by (simp add: appends_def)
  show "log_links (rlog rf) \<subseteq> ?L"
    using a log_links_snoc [OF cluster_okD(4) [OF c i], of x] links_server [OF i] by (auto simp: appends_def)
  show "body_links b \<subseteq> ?L" if "(j, b) \<in> calls s'" for j b
    using only_links [of neutral s s', OF _ _ that] a by (auto simp: appends_def)
qed auto

lemma receive_links:
  assumes c: "cluster_ok s" and p: "nat p < length (servers s)" and b: "(c', ReplCall (p # ps) t args) \<in> calls s"
    and t: "curTerm (servers s ! nat p) \<le> t" and con: "consistent args (servers s ! nat p)"
  shows "log_links (rlog (appended e args (servers s ! nat p))) \<subseteq> links s"
    "hd (rlog (appended e args (servers s ! nat p))) = hd (rlog (servers s ! nat p))"
proof -
  have a: "args_ok args" "aea_Term args = t" using repl_call_args [OF c] b by blast+
  have "AppendEntries e args (servers s ! nat p) = Some (appended e args (servers s ! nat p), \<lparr>aer_Term = aea_Term args,
      aer_Success = True, aer_ConflictTerm = 0, aer_ConflictIndex = 0\<rparr>)"
    using AppendEntries_eq [of args e "servers s ! nat p"] a t con by (simp add: args_ok_def consistent_def)
  note l = AppendEntries_links [OF this a(1) cluster_okD(1) [OF c p]]
  show "log_links (rlog (appended e args (servers s ! nat p))) \<subseteq> links s"
    using l(1) links_call [OF b] links_server [OF p] by auto
  show "hd (rlog (appended e args (servers s ! nat p))) = hd (rlog (servers s ! nat p))" by (rule l(2))
qed

lemma move_links:
  assumes m: "move s s'" and c: "cluster_ok s"
  shows "links s' \<subseteq> links s \<or> (\<exists>i rf x. appends i rf x s s')"
proof -
  have same: "links s' \<subseteq> links s"
    if "i < length (servers s)" "servers s' = (servers s)[i := rf]" "rlog rf = rlog (servers s ! i)"
      "\<And>j b. (j, b) \<in> calls s' \<Longrightarrow> body_links b \<subseteq> links s" for i rf
    using links_put [OF that(2) _ order_refl that(4)] links_server [OF that(1)] that(3) by simp
  have idle: "links s' \<subseteq> links s" if "servers s' = servers s" "\<And>j b. (j, b) \<in> calls s' \<Longrightarrow> body_links b \<subseteq> links s"
    using that(1) by (intro links_subI that(2)) (simp_all add: links_server)
  have neutral: "body_links b \<subseteq> links s" if "only neutral s s'" "(j, b) \<in> calls s'" for j b
    using only_links [OF that(1) _ that(2)] by simp
  show ?thesis
    using m
  proof (cases rule: move.cases)
    case Idle
    then show ?thesis using idle neutral by blast
  next
    case (Local i rf)
    then show ?thesis using same [OF Local(1,2)] neutral by (auto simp: still_def)
  next
    case (Elect i rf)
    then have "body_links b \<subseteq> links s" if "(j, b) \<in> calls s'" for j b using that links_call by fastforce
    then show ?thesis using same [OF Elect(1,2)] Elect(3) by (auto simp: still_def)
  next
    case (Grant p rf c args n t)
    then show ?thesis using same [OF Grant(1,3)] neutral by (auto simp: still_def)
  next
    case (Send i p)
    have l: "leader_ok (servers s ! i)" "p < npeers (servers s ! i)"
      using cluster_okD(1,3) [OF c Send(1)] Send(3,5) by (simp_all add: raft_ok_def)
    have "msg_links (request p (servers s ! i)) \<subseteq> links s"
      using request_links [OF l(1) Send(4) l(2)] links_server [OF Send(1)] by (rule subset_trans)
    then have "body_links b \<subseteq> links s" if "(j, b) \<in> calls s'" for j b using only_links [OF Send(7) _ that] by fastforce
    then show ?thesis using idle [OF Send(2)] by blast
  next
    case (Receive p c' ps t args e)
    have "log_links (rlog (appended e args (servers s ! nat p))) \<subseteq> links s" by (rule receive_links(1) [OF c Receive(1,3,4,5)])
    moreover have "body_links b \<subseteq> links s" if "(j, b) \<in> calls s'" for j b using only_links [OF Receive(9) _ that] by fastforce
    ultimately show ?thesis using links_put [OF Receive(7) _ order_refl] by blast
  next
    case (Acked i p ps args reply c)
    then show ?thesis using same [OF Acked(1,7)] neutral by (auto simp: advanced_def Let_def)
  next
    case (Append i rf x)
    then show ?thesis by blast
  next
    case (Applied i rf m)
    then show ?thesis using same [OF Applied(1-3)] neutral by auto
  qed
qed

section \<open>The entries of one term are contiguous\<close>

definition contig :: "'c cluster \<Rightarrow> bool" where
  "contig s \<longleftrightarrow> (\<forall>m u x k u' y. (m, u, x) \<in> links s \<longrightarrow> (k, u', y) \<in> links s \<longrightarrow> le_Term x = le_Term y \<longrightarrow> k < m \<longrightarrow>
     u = le_Term x)"

lemma contigD:
  "contig s \<Longrightarrow> (m, u, x) \<in> links s \<Longrightarrow> (k, u', y) \<in> links s \<Longrightarrow> le_Term x = le_Term y \<Longrightarrow> k < m \<Longrightarrow> u = le_Term x"
  unfolding contig_def by blast

text \<open>A leader has all entries of its term.\<close>

lemma leader_has:
  assumes m: "match_ok s" and c: "cluster_ok s" and i: "i < length (servers s)" "rstate (servers s ! i) = leader"
    and l: "(k, u, x) \<in> links s" "le_Term x = curTerm (servers s ! i)"
  shows "has (rlog (servers s ! i)) k (curTerm (servers s ! i))"
  using log_links_has(2) [OF match_okD(4) [OF m i l] cluster_okD(4) [OF c i(1)]] l(2) by simp

lemma contig_move:
  assumes ct: "contig s" and m: "match_ok s" and c: "cluster_ok s" and mv: "move s s'"
  shows "contig s'"
  using move_links [OF mv c]
proof (elim disjE exE)
  assume "links s' \<subseteq> links s"
  then show ?thesis using ct unfolding contig_def by blast
next
  fix i rf x
  assume a: "appends i rf x s s'"
  let ?l = "rlog (servers s ! i)" and ?t = "curTerm (servers s ! i)"
  have i: "i < length (servers s)" "rstate (servers s ! i) = leader" and x: "le_Term x = ?t" using a by (simp_all add: appends_def)
  have ne: "?l \<noteq> []" by (rule cluster_okD(4) [OF c i(1)])
  note ok = cluster_okD(1) [OF c i(1)]
  have old: "has ?l k ?t" if "(k, u, y) \<in> links s" "le_Term y = ?t" for k u y using leader_has [OF m c i that] .
  have last: "le_Term (last ?l) = ?t" if "has ?l k ?t" for k
  proof -
    have "?t \<le> le_Term (?l ! (length ?l - 1))"
      using sorted_terms [OF raft_okD(5) [OF ok], of k "length ?l - 1"] that by (auto simp: has_def)
    moreover have "le_Term (last ?l) \<le> ?t" using ok ne by (simp add: raft_ok_def)
    ultimately show ?thesis using ne by (simp add: last_conv_nth)
  qed
  show ?thesis
    unfolding contig_def
  proof (intro allI impI)
    fix m' u y k u' z
    assume l: "(m', u, y) \<in> links s'" "(k, u', z) \<in> links s'" and t: "le_Term y = le_Term z" and lt: "k < m'"
    note l' = subsetD [OF appends_links [OF a c] l(1)] subsetD [OF appends_links [OF a c] l(2)]
    show "u = le_Term y"
    proof (cases "(m', u, y) \<in> links s")
      case True
      then have "(k, u', z) \<in> links s" using l'(2) old [OF True] t lt x by (auto simp: has_def)
      then show ?thesis using contigD [OF ct True _ t lt] by blast
    next
      case False
      then have n: "m' = length ?l" "u = le_Term (last ?l)" "y = x" using l'(1) by auto
      then have "(k, u', z) \<in> links s" using l'(2) lt by auto
      then show ?thesis using last [OF old] n t x by auto
    qed
  qed
qed

lemma contig_has:
  assumes ct: "contig s" and v: "v < length (servers s)" and e: "(k, u, y) \<in> links s" "le_Term y = t" "0 < k"
  shows "has (rlog (servers s ! v)) m t \<Longrightarrow> k \<le> m \<Longrightarrow> has (rlog (servers s ! v)) k t"
proof (induction m)
  case (Suc m)
  show ?case
  proof (cases "k = Suc m")
    case False
    let ?l = "rlog (servers s ! v)"
    have "(Suc m, le_Term (?l ! m), ?l ! Suc m) \<in> links s"
      using log_link [of m ?l] Suc.prems(1) links_server [OF v] by (auto simp: has_def)
    from contigD [OF ct this e(1)] have "has ?l m t" using Suc.prems e False by (auto simp: has_def)
    then show ?thesis using Suc.IH Suc.prems False by simp
  qed (use Suc.prems in simp)
qed (use e in simp)

section \<open>Choosable entries\<close>

text \<open>
  What the servers store in their current terms. The set of all that was ever stored is the
  history variable \<open>St\<close> below.
\<close>

definition stores :: "'c cluster \<Rightarrow> (int \<times> nat \<times> int) set" where
  "stores s = {(v, k, t). 0 \<le> v \<and> v < int (length (servers s)) \<and> 0 < k \<and> t = curTerm (servers s ! nat v) \<and>
     has (rlog (servers s ! nat v)) k t}"

definition chosen :: "(int \<times> nat \<times> int) set \<Rightarrow> 'c cluster \<Rightarrow> nat \<Rightarrow> int \<Rightarrow> bool" where
  "chosen St s k t \<longleftrightarrow> 0 < k \<and> majority (int (length (servers s))) {v. (v, k, t) \<in> St}"

definition choosable :: "(int \<times> nat \<times> int) set \<Rightarrow> 'c cluster \<Rightarrow> nat \<Rightarrow> int \<Rightarrow> bool" where
  "choosable St s k t \<longleftrightarrow> 0 < k \<and>
     majority (int (length (servers s))) {v. 0 \<le> v \<and> v < int (length (servers s)) \<and> ((v, k, t) \<in> St \<or> curTerm (servers s ! nat v) \<le> t)}"

definition stored_ok :: "(int \<times> nat \<times> int) set \<Rightarrow> 'c cluster \<Rightarrow> bool" where
  "stored_ok St s \<longleftrightarrow> stores s \<subseteq> St \<and>
     (\<forall>v k t. (v, k, t) \<in> St \<longrightarrow> 0 \<le> v \<and> v < int (length (servers s)) \<and> 0 < k \<and> t \<le> curTerm (servers s ! nat v))"

text \<open>Who has stored a choosable entry has it.\<close>

definition kept_ok :: "(int \<times> nat \<times> int) set \<Rightarrow> 'c cluster \<Rightarrow> bool" where
  "kept_ok St s \<longleftrightarrow> (\<forall>v k t. (v, k, t) \<in> St \<longrightarrow> choosable St s k t \<longrightarrow> has (rlog (servers s ! nat v)) k t)"

text \<open>Entries of later terms stand behind a choosable entry.\<close>

definition later_ok :: "(int \<times> nat \<times> int) set \<Rightarrow> 'c cluster \<Rightarrow> bool" where
  "later_ok St s \<longleftrightarrow> (\<forall>k t m u x. choosable St s k t \<longrightarrow> (m, u, x) \<in> links s \<longrightarrow> t < le_Term x \<longrightarrow>
     k < m \<and> t \<le> u \<and> (m = Suc k \<longrightarrow> u = t))"

text \<open>A candidate or leader has the choosable entries that its voters have stored in earlier terms.\<close>

definition voted_ok :: "(int \<times> nat \<times> int) set \<Rightarrow> 'c cluster \<Rightarrow> bool" where
  "voted_ok St s \<longleftrightarrow> (\<forall>c < length (servers s). \<forall>v k t. rstate (servers s ! c) \<noteq> follower \<longrightarrow>
     (v, curTerm (servers s ! c), int c) \<in> set (votes s) \<longrightarrow> (v, k, t) \<in> St \<longrightarrow> t < curTerm (servers s ! c) \<longrightarrow>
     choosable St s k t \<longrightarrow> has (rlog (servers s ! c)) k t)"

lemma stored_okD:
  assumes "stored_ok St s" and "(v, k, t) \<in> St"
  shows "0 \<le> v" "v < int (length (servers s))" "nat v < length (servers s)" "0 < k" "t \<le> curTerm (servers s ! nat v)"
proof -
  show *: "0 \<le> v" "v < int (length (servers s))" "0 < k" "t \<le> curTerm (servers s ! nat v)"
    using assms unfolding stored_ok_def by blast+
  then show "nat v < length (servers s)" by simp
qed

lemma chosen_choosable: "stored_ok St s \<Longrightarrow> chosen St s k t \<Longrightarrow> choosable St s k t"
  unfolding chosen_def choosable_def stored_ok_def by (auto elim!: maj.quorum_up)

lemma choosable_antimono:
  assumes ch: "choosable (St \<union> stores s') s' k t" and st: "servers_step s s'"
  shows "choosable St s k t"
proof -
  have len: "length (servers s') = length (servers s)" using st by (simp add: servers_step_def)
  have "curTerm (servers s ! nat v) \<le> curTerm (servers s' ! nat v)" if "0 \<le> v" "v < int (length (servers s))" for v
    using st that by (auto simp: servers_step_def srv_step_def)
  then show ?thesis
    using ch unfolding choosable_def len by (auto simp: stores_def elim!: maj.quorum_up) fastforce
qed

lemma chosen_mono: "chosen St s k t \<Longrightarrow> St \<subseteq> St' \<Longrightarrow> length (servers s') = length (servers s) \<Longrightarrow> chosen St' s' k t"
  unfolding chosen_def by (auto elim!: maj.quorum_up)

text \<open>A server that was elected after the term of a choosable entry got a vote from a server that stored it.\<close>

lemma voter_stored:
  assumes ch: "choosable St s k t" and e: "election_ok s" and st: "stored_ok St s"
    and maj: "majority (int (length (servers s))) {v. (v, t', c) \<in> set (votes s)}" and lt: "t < t'"
  obtains v where "(v, t', c) \<in> set (votes s)" "(v, k, t) \<in> St"
proof -
  from maj.quorum_meet [OF maj] ch obtain v where v: "(v, t', c) \<in> set (votes s)" "(v, k, t) \<in> St \<or> curTerm (servers s ! nat v) \<le> t"
    unfolding choosable_def by blast
  have "t' \<le> curTerm (servers s ! nat v)" using e v(1) votes_okD(4) by (auto simp: election_ok_def)
  then show thesis using that v lt by auto
qed

lemma choosable_link:
  assumes ch: "choosable St s k t" and e: "election_ok s" and st: "stored_ok St s" and kp: "kept_ok St s"
    and el: "elected s t'" and lt: "t < t'"
  shows "\<exists>u x. (k, u, x) \<in> links s \<and> le_Term x = t"
proof -
  obtain c where "majority (int (length (servers s))) {v. (v, t', int c) \<in> set (votes s)}" using el by (auto simp: elected_def)
  from voter_stored [OF ch e st this lt] obtain v where v: "(v, k, t) \<in> St" by blast
  note stored_okD(3,4) [OF st v]
  moreover have "has (rlog (servers s ! nat v)) k t" using kp v ch by (auto simp: kept_ok_def)
  ultimately show ?thesis using has_link links_server by blast
qed

lemma later_has:
  assumes ch: "choosable St s k t" and e: "election_ok s" and st: "stored_ok St s" and kp: "kept_ok St s" and mt: "match_ok s"
    and lo: "later_ok St s" and ct: "contig s" and v: "v < length (servers s)"
  shows "has (rlog (servers s ! v)) m t' \<Longrightarrow> t < t' \<Longrightarrow> 0 < m \<Longrightarrow> k < m \<and> has (rlog (servers s ! v)) k t"
proof (induction m arbitrary: t')
  case (Suc m)
  let ?l = "rlog (servers s ! v)"
  have link: "(Suc m, le_Term (?l ! m), ?l ! Suc m) \<in> links s" and x: "le_Term (?l ! Suc m) = t'"
    using log_link [of m ?l] Suc.prems(1) links_server [OF v] by (auto simp: has_def)
  have lo': "k < Suc m" "t \<le> le_Term (?l ! m)" "Suc m = Suc k \<longrightarrow> le_Term (?l ! m) = t"
    using lo ch link Suc.prems(2) x unfolding later_ok_def by blast+
  have m: "has ?l m (le_Term (?l ! m))" using Suc.prems(1) by (simp add: has_def)
  have k: "0 < k" using ch by (simp add: choosable_def)
  obtain u y where y: "(k, u, y) \<in> links s" "le_Term y = t"
    using choosable_link [OF ch e st kp _ Suc.prems(2)] match_okD(3) [OF mt link] x by auto
  consider "m = k" | "k < m" "le_Term (?l ! m) = t" | "k < m" "t < le_Term (?l ! m)" using lo' by linarith
  then have "has ?l k t"
  proof cases
    case 1
    then show ?thesis using m lo'(3) by simp
  next
    case 2
    then show ?thesis using contig_has [OF ct v y k] m by auto
  next
    case 3
    then show ?thesis using Suc.IH [OF m] by simp
  qed
  then show ?case using lo'(1) by simp
qed simp

section \<open>The invariant\<close>

text \<open>What a request of a leader of term \<open>t\<close> says, while it is in flight and after it was acknowledged.\<close>

definition sent_by :: "'c cluster \<Rightarrow> int \<Rightarrow> 'c AppendEntriesArgs \<Rightarrow> bool" where
  "sent_by s t args \<longleftrightarrow> elected s t \<and>
     (\<forall>d < length (servers s). rstate (servers s ! d) = leader \<longrightarrow> curTerm (servers s ! d) = t \<longrightarrow>
        last_sent args < go_len (rlog (servers s ! d)))"

definition repl_ok :: "(int \<times> nat \<times> int) set \<Rightarrow> 'c cluster \<Rightarrow> int \<Rightarrow> 'c AppendEntriesArgs \<Rightarrow> bool" where
  "repl_ok St s t args \<longleftrightarrow> sent_by s t args \<and>
     (\<forall>j u y. (j, u, y) \<in> links s \<longrightarrow> le_Term y = t \<longrightarrow> int j \<le> last_sent args \<longrightarrow> args_has args j t) \<and>
     (\<forall>k t'. choosable St s k t' \<longrightarrow> t' < t \<longrightarrow> args_has args k t') \<and>
     (0 < aea_LeaderCommit args \<longrightarrow>
        (\<exists>k t'. aea_LeaderCommit args \<le> int k \<and> chosen St s k t' \<and> t' \<le> t \<and> int k \<le> last_sent args))"

definition done_ok :: "(int \<times> nat \<times> int) set \<Rightarrow> 'c cluster \<Rightarrow> int \<Rightarrow> int \<Rightarrow> 'c AppendEntriesArgs \<Rightarrow> bool" where
  "done_ok St s p t args \<longleftrightarrow> sent_by s t args \<and>
     (\<forall>j u y. (j, u, y) \<in> links s \<longrightarrow> le_Term y = t \<longrightarrow> int j \<le> last_sent args \<longrightarrow> (p, j, t) \<in> St)"

fun call_ok :: "(int \<times> nat \<times> int) set \<Rightarrow> 'c cluster \<Rightarrow> nat \<Rightarrow> 'c gort \<Rightarrow> bool" where
  "call_ok St s c (VoteCall p args n t) \<longleftrightarrow> t \<le> curTerm (servers s ! c) \<and>
     (t = curTerm (servers s ! c) \<longrightarrow> rstate (servers s ! c) \<noteq> follower \<longrightarrow>
        0 \<le> rva_LastLogIndex args \<and> has (rlog (servers s ! c)) (nat (rva_LastLogIndex args)) (rva_LastLogTerm args))"
| "call_ok St s c (ReplCall ps t args) \<longleftrightarrow> repl_ok St s t args"
| "call_ok St s c (ReplDone ps t args reply) \<longleftrightarrow> (aer_Success reply \<longrightarrow> done_ok St s (hd ps) t args)"
| "call_ok St s c b \<longleftrightarrow> True"

definition cands_ok :: "'c cluster \<Rightarrow> bool" where
  "cands_ok s \<longleftrightarrow> (\<forall>v t c. (v, t, c) \<in> set (votes s) \<longrightarrow> nat c < length (servers s) \<and> t \<le> curTerm (servers s ! nat c))"

text \<open>What a leader counts as acknowledged is stored, and what is committed is chosen.\<close>

definition acks_ok :: "(int \<times> nat \<times> int) set \<Rightarrow> 'c cluster \<Rightarrow> bool" where
  "acks_ok St s \<longleftrightarrow> (\<forall>c < length (servers s). rstate (servers s ! c) = leader \<longrightarrow>
     (\<forall>q < length (servers s). \<forall>k. q \<noteq> c \<longrightarrow> 0 < k \<longrightarrow> int k \<le> matchIndex (servers s ! c) ! q \<longrightarrow>
        has (rlog (servers s ! c)) k (curTerm (servers s ! c)) \<longrightarrow> (int q, k, curTerm (servers s ! c)) \<in> St))"

definition commit_ok :: "(int \<times> nat \<times> int) set \<Rightarrow> 'c cluster \<Rightarrow> bool" where
  "commit_ok St s \<longleftrightarrow> (\<forall>v < length (servers s). 0 < commitIndex (servers s ! v) \<longrightarrow>
     (\<exists>k t. commitIndex (servers s ! v) \<le> int k \<and> chosen St s k t \<and> has (rlog (servers s ! v)) k t))"

definition safe :: "(int \<times> nat \<times> int) set \<Rightarrow> 'c cluster \<Rightarrow> bool" where
  "safe St s \<longleftrightarrow> cluster_ok s \<and> election_ok s \<and> match_ok s \<and> contig s \<and> stored_ok St s \<and> kept_ok St s \<and> later_ok St s \<and>
     voted_ok St s \<and> (\<forall>c b. (c, b) \<in> calls s \<longrightarrow> call_ok St s c b) \<and> cands_ok s \<and> acks_ok St s \<and> commit_ok St s"

lemma safeD:
  assumes "safe St s"
  shows "cluster_ok s" "election_ok s" "match_ok s" "contig s" "stored_ok St s" "kept_ok St s" "later_ok St s" "voted_ok St s"
    "(c, b) \<in> calls s \<Longrightarrow> call_ok St s c b" "cands_ok s" "acks_ok St s" "commit_ok St s"
  using assms unfolding safe_def by blast+

lemma leader_choosable:
  assumes sf: "safe St s" and c: "c < length (servers s)" "rstate (servers s ! c) = leader"
    and ch: "choosable St s k t" "t < curTerm (servers s ! c)"
  shows "has (rlog (servers s ! c)) k t"
proof -
  have "majority (int (length (servers s))) {v. (v, curTerm (servers s ! c), int c) \<in> set (votes s)}"
    using safeD(2) [OF sf] c by (auto simp: election_ok_def backers_def)
  from voter_stored [OF ch(1) safeD(2,5) [OF sf] this ch(2)]
  obtain v where v: "(v, curTerm (servers s ! c), int c) \<in> set (votes s)" "(v, k, t) \<in> St" by blast
  show ?thesis using safeD(8) [OF sf, unfolded voted_ok_def, rule_format, OF c(1) _ v ch(2,1)] c(2) by simp
qed

section \<open>Choosable entries stay\<close>

lemma consistent_has:
  assumes "consistent args rf" and "raft_ok rf" and "0 \<le> aea_PrevLogIndex args"
  shows "has (rlog rf) (nat (aea_PrevLogIndex args)) (aea_PrevLogTerm args)"
  using assms termAt_in [of rf "aea_PrevLogIndex args"] raft_okD(5) [OF assms(2)] by (auto simp: consistent_def has_def go_len_def)

text \<open>A handled request leaves in the log what it says of choosable entries and of entries of its term.\<close>

lemma received:
  assumes sf: "safe St s" and p: "nat p < length (servers s)" and b: "(c, ReplCall (p # ps) t args) \<in> calls s"
    and con: "consistent args (servers s ! nat p)" and k: "0 < k" and h: "args_has args k t'"
    and ch: "t' < t \<and> choosable St s k t' \<or> t' = t \<and> (\<exists>u y. (k, u, y) \<in> links s \<and> le_Term y = t)"
  shows "has (rlog (appended e args (servers s ! nat p))) k t'"
proof (rule merged_has [OF con _ h])
  note c = safeD(1) [OF sf] and a = repl_call_args [OF safeD(1) [OF sf] disjI1 [OF b]]
  show "args_ok args" by (rule a(1))
  let ?l = "rlog (servers s ! nat p)" and ?q = "nat (aea_PrevLogIndex args)"
  have q: "0 \<le> aea_PrevLogIndex args" "aea_PrevLogTerm args \<le> t" using a by (auto simp: args_ok_def)
  have hq: "has ?l ?q (aea_PrevLogTerm args)" by (rule consistent_has [OF con cluster_okD(1) [OF c p] q(1)])
  assume low: "int k \<le> aea_PrevLogIndex args"
  have el: "elected s t" using safeD(9) [OF sf b] by (simp add: repl_ok_def sent_by_def)
  have link: "\<exists>u y. (k, u, y) \<in> links s \<and> le_Term y = t'"
    using ch choosable_link [OF _ safeD(2,5,6) [OF sf] el] by blast
  consider "int k = aea_PrevLogIndex args" | "int k < aea_PrevLogIndex args" "aea_PrevLogTerm args = t'"
    | "int k < aea_PrevLogIndex args" "t' < aea_PrevLogTerm args" "t' < t" "choosable St s k t'"
    using low h ch q(2) unfolding args_has_def by linarith
  then show "has ?l k t'"
  proof cases
    case 1
    then show ?thesis using hq h by (simp add: args_has_def flip: 1)
  next
    case 2
    then show ?thesis using link contig_has [OF safeD(4) [OF sf] p _ _ k, of _ _ t' ?q] hq low by force
  next
    case 3
    then show ?thesis using later_has [OF 3(4) safeD(2,5,6,3,7,4) [OF sf] p hq 3(2)] k by simp
  qed
qed

lemma keeps_received:
  assumes sf: "safe St s" and p: "nat p < length (servers s)" and b: "(c, ReplCall (p # ps) t args) \<in> calls s"
    and t: "curTerm (servers s ! nat p) \<le> t" and con: "consistent args (servers s ! nat p)"
    and ord: "in_order args (servers s ! nat p)" and ch: "choosable St s k t'" and h: "has (rlog (servers s ! nat p)) k t'"
  shows "take (Suc k) (rlog (appended e args (servers s ! nat p))) = take (Suc k) (rlog (servers s ! nat p))"
proof -
  let ?rf = "servers s ! nat p"
  note c = safeD(1) [OF sf] and a = repl_call_args [OF safeD(1) [OF sf] disjI1 [OF b]] and r = safeD(9) [OF sf b, simplified, unfolded repl_ok_def]
  have k: "0 < k" using ch by (simp add: choosable_def)
  have "t' \<le> curTerm ?rf" using cluster_okD(1) [OF c p] h by (auto simp: raft_ok_def has_def)
  then consider "t' < t" | "t' = t" "aea_Entries args = []" | "t' = t" "aea_Entries args \<noteq> []" using t by linarith
  then have "has (rlog (appended e args ?rf)) k t'"
  proof cases
    case 1
    then show ?thesis using received [OF sf p b con k] r ch by blast
  next
    case 2
    then show ?thesis using h by (simp add: merge_log_def)
  next
    case 3
    obtain u y where y: "(k, u, y) \<in> links s" "le_Term y = t" using has_link [OF h k] links_server [OF p] 3(1) by blast
    let ?n = "nat (aea_PrevLogIndex args + 1) + length (aea_Entries args)"
    have "\<not> ?n \<le> k"
    proof
      assume n: "?n \<le> k"
      then have "drop ?n (rlog ?rf) ! (k - ?n) \<in> set (drop ?n (rlog ?rf))" using h by (intro nth_mem) (auto simp: has_def)
      then have "rlog ?rf ! k \<in> set (drop ?n (rlog ?rf))" using n h by (simp add: has_def)
      then show False using ord 3 h a(2) by (auto simp: in_order_def list_all_iff has_def)
    qed
    then have "int k \<le> last_sent args" using a(1) by (auto simp: args_ok_def go_len_def)
    then have "args_has args k t'" using r y 3(1) by blast
    then show ?thesis using received [OF sf p b con k] y 3(1) by blast
  qed
  moreover have "rlog (appended e args ?rf) \<noteq> []" using calculation by (auto simp: has_def)
  ultimately show ?thesis
    using h receive_links [OF c p b t con, of e] links_server [OF p] cluster_okD(4) [OF c p] match_okD(2) [OF safeD(3) [OF sf]]
    by (intro chains_match [where L = "links s"]) (auto simp: has_def)
qed

lemma keeps:
  assumes sf: "safe St s" and mv: "move s s'" and ch: "choosable St s k t" and v: "v < length (servers s)"
    and h: "has (rlog (servers s ! v)) k t"
  shows "take (Suc k) (rlog (servers s' ! v)) = take (Suc k) (rlog (servers s ! v))"
  using mv
proof (cases rule: move.cases)
  case (Receive p c ps u args e)
  then show ?thesis using keeps_received [OF sf Receive(1,3,4,5,6) ch] h v by (cases "v = nat p") auto
next
  case (Append i rf x)
  then show ?thesis using h v by (cases "v = i") (auto simp: appends_def has_def)
next
  case (Acked i p ps args reply c)
  then show ?thesis using v by (cases "v = i") (auto simp: advanced_def Let_def)
next
  case (Local i rf)
  then show ?thesis using v by (cases "v = i") (auto simp: still_def)
next
  case (Elect i rf)
  then show ?thesis using v by (cases "v = i") (auto simp: still_def)
next
  case (Grant p rf c args n u)
  then show ?thesis using v by (cases "v = nat p") (auto simp: still_def)
next
  case (Applied i rf m)
  then show ?thesis using v by (cases "v = i") auto
qed simp_all

end
