(* ===== verification/Raft_Commit.thy ===== *)
theory Raft_Commit
  imports Raft_Choosable
begin

text \<open>
  State machine safety: every move keeps the invariant of choosable entries, so what is committed
  stays in every later log that reaches it, and no two servers ever apply different commands at
  an index. The invariant is kept along a history of all entries stored and all commands applied.
\<close>

section \<open>The invariant is kept\<close>

definition goes :: "'c cluster \<Rightarrow> 'c cluster \<Rightarrow> bool" where
  "goes s s' \<longleftrightarrow> move s s' \<and> servers_step s s' \<and> set (votes s) \<subseteq> set (votes s') \<and> cluster_ok s' \<and> election_ok s' \<and> match_ok s'"

lemma goesD:
  assumes "goes s s'"
  shows "move s s'" "servers_step s s'" "set (votes s) \<subseteq> set (votes s')" "cluster_ok s'" "election_ok s'" "match_ok s'"
    "length (servers s') = length (servers s)"
    "v < length (servers s) \<Longrightarrow> srv_step (servers s ! v) (servers s' ! v)"
    "v < length (servers s) \<Longrightarrow> curTerm (servers s ! v) \<le> curTerm (servers s' ! v)"
  using assms by (auto simp: goes_def servers_step_def srv_step_def)

lemma stored_ok_step:
  assumes sf: "safe St s" and g: "goes s s'"
  shows "stored_ok (St \<union> stores s') s'"
proof -
  have "0 \<le> v \<and> v < int (length (servers s')) \<and> 0 < k \<and> t \<le> curTerm (servers s' ! nat v)" if "(v, k, t) \<in> St" for v k t
    using stored_okD [OF safeD(5) [OF sf] that] goesD(7) [OF g] goesD(9) [OF g, of "nat v"] by auto
  then show ?thesis unfolding stored_ok_def by (auto simp: stores_def)
qed

lemma kept_ok_step:
  assumes sf: "safe St s" and g: "goes s s'"
  shows "kept_ok (St \<union> stores s') s'"
  unfolding kept_ok_def
proof (intro allI impI)
  fix v k t
  assume v: "(v, k, t) \<in> St \<union> stores s'" and ch: "choosable (St \<union> stores s') s' k t"
  show "has (rlog (servers s' ! nat v)) k t"
  proof (cases "(v, k, t) \<in> stores s'")
    case False
    then have v: "(v, k, t) \<in> St" using v by blast
    have ch: "choosable St s k t" by (rule choosable_antimono [OF ch goesD(2) [OF g]])
    then have h: "has (rlog (servers s ! nat v)) k t" using safeD(6) [OF sf] v by (auto simp: kept_ok_def)
    show ?thesis using has_take [OF keeps [OF sf goesD(1) [OF g] ch stored_okD(3) [OF safeD(5) [OF sf] v] h] h] .
  qed (auto simp: stores_def)
qed

lemma later_ok_step:
  assumes sf: "safe St s" and g: "goes s s'"
  shows "later_ok (St \<union> stores s') s'"
  unfolding later_ok_def
proof (intro allI impI)
  fix k t m u x
  assume ch: "choosable (St \<union> stores s') s' k t" and l: "(m, u, x) \<in> links s'" and t: "t < le_Term x"
  have ch: "choosable St s k t" by (rule choosable_antimono [OF ch goesD(2) [OF g]])
  have old: "k < m \<and> t \<le> u \<and> (m = Suc k \<longrightarrow> u = t)" if "(m, u, x) \<in> links s"
    using safeD(7) [OF sf] ch that t unfolding later_ok_def by blast
  show "k < m \<and> t \<le> u \<and> (m = Suc k \<longrightarrow> u = t)"
    using move_links [OF goesD(1) [OF g] safeD(1) [OF sf]]
  proof (elim disjE exE)
    assume "links s' \<subseteq> links s"
    then show ?thesis using old l by blast
  next
    fix i rf y
    assume a: "appends i rf y s s'"
    let ?l = "rlog (servers s ! i)"
    have i: "i < length (servers s)" "rstate (servers s ! i) = leader" and y: "le_Term y = curTerm (servers s ! i)"
      using a by (simp_all add: appends_def)
    show ?thesis
    proof (cases "(m, u, x) \<in> links s")
      case False
      then have n: "m = length ?l" "u = le_Term (last ?l)" "x = y"
        using subsetD [OF appends_links [OF a safeD(1) [OF sf]] l] by auto
      have h: "has ?l k t" using leader_choosable [OF sf i ch] t n(3) y by simp
      note ok = cluster_okD(1,4) [OF safeD(1) [OF sf] i(1)]
      have "t \<le> le_Term (?l ! (length ?l - 1))"
        using sorted_terms [OF raft_okD(5) [OF ok(1)], of k "length ?l - 1"] h by (auto simp: has_def)
      then show ?thesis using h n ok(2) by (auto simp: has_def last_conv_nth)
    qed (use old in blast)
  qed
qed

lemma cands_ok_step:
  assumes sf: "safe St s" and g: "goes s s'"
  shows "cands_ok s'"
proof -
  have old: "nat c < length (servers s') \<and> t \<le> curTerm (servers s' ! nat c)" if "(v, t, c) \<in> set (votes s)" for v t c
    using safeD(10) [OF sf] that goesD(7,9) [OF g] unfolding cands_ok_def by fastforce
  show ?thesis
    unfolding cands_ok_def
  proof (intro allI impI)
    fix v t c
    assume vt: "(v, t, c) \<in> set (votes s')"
    show "nat c < length (servers s') \<and> t \<le> curTerm (servers s' ! nat c)"
      using goesD(1) [OF g]
    proof (cases rule: move.cases)
      case (Elect i rf)
      then show ?thesis using vt old by auto
    next
      case (Grant p rf d args n t')
      have d: "d < length (servers s)" "t' \<le> curTerm (servers s ! d)"
        using call_body [OF safeD(1) [OF sf] Grant(5)] safeD(9) [OF sf Grant(5)] by auto
      then show ?thesis using vt old Grant(8) goesD(7) [OF g] goesD(9) [OF g d(1)] by auto
    qed (use vt old in \<open>auto simp: appends_def\<close>)
  qed
qed

text \<open>A vote goes to a candidate that has all choosable entries of the voter.\<close>

lemma up_to_date_has:
  assumes sf: "safe St s" and v: "v < length (servers s)" and c: "c < length (servers s)"
    and ch: "choosable St s k t" and h: "has (rlog (servers s ! v)) k t" and up: "up_to_date args (servers s ! v)"
    and lc: "0 \<le> rva_LastLogIndex args" "has (rlog (servers s ! c)) (nat (rva_LastLogIndex args)) (rva_LastLogTerm args)"
  shows "has (rlog (servers s ! c)) k t"
proof -
  let ?l = "rlog (servers s ! v)" and ?m = "nat (rva_LastLogIndex args)"
  note ok = cluster_okD(1,4) [OF safeD(1) [OF sf] v] and okc = cluster_okD(1,4) [OF safeD(1) [OF sf] c]
  have k: "0 < k" "k < length ?l" using ch h by (auto simp: choosable_def has_def)
  have last: "t \<le> le_Term (last ?l)"
    using sorted_terms [OF raft_okD(5) [OF ok(1)], of k "length ?l - 1"] h ok(2) by (auto simp: has_def last_conv_nth)
  have "0 \<le> t" using sorted_terms [OF raft_okD(5) [OF ok(1)], of 0 k] raft_okD(5) [OF ok(1)] h
    by (auto simp: has_def log_ok_def hd_conv_nth)
  moreover have "rva_LastLogTerm args = 0" if "?m = 0"
    using lc(2) raft_okD(5) [OF okc(1)] that by (auto simp: has_def log_ok_def hd_conv_nth)
  ultimately have m: "0 < ?m" if "t < rva_LastLogTerm args" using that by (cases "?m = 0") auto
  have "t < rva_LastLogTerm args \<or> rva_LastLogTerm args = t \<and> int k \<le> rva_LastLogIndex args"
    using up last k(2) unfolding up_to_date_def lastLogIndexLocked_def go_len_def by linarith
  then consider "t < rva_LastLogTerm args" | "rva_LastLogTerm args = t" "k \<le> ?m" by linarith
  then show ?thesis
  proof cases
    case 1
    then show ?thesis using later_has [OF ch safeD(2,5,6,3,7,4) [OF sf] c lc(2) 1 m] by blast
  next
    case 2
    obtain u y where y: "(k, u, y) \<in> links s" "le_Term y = t" using has_link [OF h k(1)] links_server [OF v] by blast
    show ?thesis by (rule contig_has [OF safeD(4) [OF sf] c y k(1) lc(2) [unfolded 2(1)] 2(2)])
  qed
qed

lemma voted_ok_step:
  assumes sf: "safe St s" and g: "goes s s'"
  shows "voted_ok (St \<union> stores s') s'"
  unfolding voted_ok_def
proof (intro allI impI)
  fix c v k t
  assume c: "c < length (servers s')" "rstate (servers s' ! c) \<noteq> follower"
    and vt: "(v, curTerm (servers s' ! c), int c) \<in> set (votes s')" and St: "(v, k, t) \<in> St \<union> stores s'"
    and t: "t < curTerm (servers s' ! c)" and ch: "choosable (St \<union> stores s') s' k t"
  let ?t = "curTerm (servers s' ! c)"
  have cs: "c < length (servers s)" using c(1) goesD(7) [OF g] by simp
  have ch: "choosable St s k t" by (rule choosable_antimono [OF ch goesD(2) [OF g]])
  have "?t \<le> curTerm (servers s' ! nat v)" using goesD(5) [OF g] vt votes_okD(4) by (auto simp: election_ok_def)
  then have St: "(v, k, t) \<in> St" using St t by (auto simp: stores_def)
  note v = stored_okD [OF safeD(5) [OF sf] St]
  have hv: "has (rlog (servers s ! nat v)) k t" using safeD(6) [OF sf] St ch by (auto simp: kept_ok_def)
  have "has (rlog (servers s ! c)) k t"
  proof (cases "(v, ?t, int c) \<in> set (votes s)")
    case True
    have "?t \<le> curTerm (servers s ! c)" using safeD(10) [OF sf, unfolded cands_ok_def, rule_format, OF True] by simp
    then have eq: "?t = curTerm (servers s ! c)" using goesD(9) [OF g cs] by simp
    have "rstate (servers s ! c) \<noteq> follower"
      using goesD(8) [OF g cs] eq c(2) by (cases "rstate (servers s' ! c)") (auto simp: srv_step_def)
    then show ?thesis using safeD(8) [OF sf] cs True St t ch unfolding voted_ok_def eq by blast
  next
    case False
    show ?thesis
      using goesD(1) [OF g]
    proof (cases rule: move.cases)
      case (Elect i rf)
      then show ?thesis using vt False hv by auto
    next
      case (Grant p rf d args n t')
      then have pd: "v = p" "?t = t'" "c = d" using vt False by auto
      have "p \<noteq> int d" using call_body [OF safeD(1) [OF sf] Grant(5)] by auto
      then have "servers s' ! c = servers s ! c" using Grant(2,3) pd(3) by auto
      then have "0 \<le> rva_LastLogIndex args \<and> has (rlog (servers s ! c)) (nat (rva_LastLogIndex args)) (rva_LastLogTerm args)"
        using safeD(9) [OF sf Grant(5)] pd c(2) by auto
      then show ?thesis using up_to_date_has [OF sf v(3) cs ch hv] Grant(7) pd(1) by blast
    qed (use vt False in \<open>auto simp: appends_def\<close>)
  qed
  from has_take [OF keeps [OF sf goesD(1) [OF g] ch cs this] this] show "has (rlog (servers s' ! c)) k t" .
qed

lemma leads_prefix:
  assumes mv: "move s s'" and v: "v < length (servers s)" and r: "rstate (servers s' ! v) \<noteq> follower"
  shows "prefix (rlog (servers s ! v)) (rlog (servers s' ! v))"
  using mv
proof (cases rule: move.cases)
  case (Receive p c ps u args e)
  then show ?thesis using r v by (cases "v = nat p") auto
next
  case (Append i rf x)
  then show ?thesis using v by (cases "v = i") (auto simp: appends_def)
next
  case (Acked i p ps args reply c)
  then show ?thesis using v by (cases "v = i") (auto simp: advanced_def Let_def)
next
  case (Local i rf)
  then show ?thesis using v by (cases "v = i") (auto simp: still_def)
next
  case (Elect i rf)
  then show ?thesis using v by (cases "v = i") (auto simp: still_def)
next
  case (Grant p rf c args n u)
  then show ?thesis using v by (cases "v = nat p") (auto simp: still_def)
next
  case (Applied i rf m)
  then show ?thesis using v by (cases "v = i") auto
qed simp_all

lemma sent_by_step:
  assumes b: "sent_by s t args" and g: "goes s s'"
  shows "sent_by s' t args"
  unfolding sent_by_def
proof (intro conjI allI impI)
  have el: "elected s t" using b by (simp add: sent_by_def)
  then show "elected s' t" by (rule elected_step [OF _ goesD(2,3) [OF g]])
  fix d
  assume d: "d < length (servers s')" "rstate (servers s' ! d) = leader" "curTerm (servers s' ! d) = t"
  have ds: "d < length (servers s)" using d(1) goesD(7) [OF g] by simp
  have "rstate (servers s ! d) = leader \<and> curTerm (servers s ! d) = t"
    using new_leader_first [OF goesD(5,2,3) [OF g] d(1,2)] el d(3) by blast
  then have "last_sent args < go_len (rlog (servers s ! d))" using b ds by (auto simp: sent_by_def)
  moreover have "prefix (rlog (servers s ! d)) (rlog (servers s' ! d))" using leads_prefix [OF goesD(1) [OF g] ds] d(2) by simp
  ultimately show "last_sent args < go_len (rlog (servers s' ! d))" using prefix_length_le by (fastforce simp: go_len_def)
qed

text \<open>A new entry of a term stands behind all requests of the term.\<close>

lemma old_link:
  assumes b: "sent_by s t args" and g: "goes s s'" and c: "cluster_ok s"
    and l: "(j, u, y) \<in> links s'" "le_Term y = t" "int j \<le> last_sent args"
  shows "(j, u, y) \<in> links s"
  using move_links [OF goesD(1) [OF g] c]
proof (elim disjE exE)
  fix i rf x
  assume a: "appends i rf x s s'"
  show ?thesis
  proof (rule ccontr)
    assume "(j, u, y) \<notin> links s"
    then have "j = length (rlog (servers s ! i))" "y = x" using subsetD [OF appends_links [OF a c] l(1)] by auto
    then show False using a b l(2,3) by (auto simp: appends_def sent_by_def go_len_def)
  qed
qed (use l in blast)

lemma repl_ok_step:
  assumes sf: "safe St s" and g: "goes s s'" and r: "repl_ok St s t args"
  shows "repl_ok (St \<union> stores s') s' t args"
proof -
  have b: "sent_by s t args" using r by (simp add: repl_ok_def)
  show ?thesis
    unfolding repl_ok_def
  proof (intro conjI allI impI)
    show "sent_by s' t args" by (rule sent_by_step [OF b g])
    show "args_has args j t" if "(j, u, y) \<in> links s'" "le_Term y = t" "int j \<le> last_sent args" for j u y
      using r old_link [OF b g safeD(1) [OF sf] that] that unfolding repl_ok_def by blast
    show "args_has args k t'" if "choosable (St \<union> stores s') s' k t'" "t' < t" for k t'
      using r choosable_antimono [OF that(1) goesD(2) [OF g]] that(2) unfolding repl_ok_def by blast
    show "\<exists>k t'. aea_LeaderCommit args \<le> int k \<and> chosen (St \<union> stores s') s' k t' \<and> t' \<le> t \<and> int k \<le> last_sent args"
      if "0 < aea_LeaderCommit args"
    proof -
      obtain k t' where "aea_LeaderCommit args \<le> int k" "chosen St s k t'" "t' \<le> t" "int k \<le> last_sent args"
        using r \<open>0 < aea_LeaderCommit args\<close> unfolding repl_ok_def by blast
      then show ?thesis using chosen_mono [OF _ Un_upper1 goesD(7) [OF g]] by blast
    qed
  qed
qed

lemma call_ok_old:
  assumes sf: "safe St s" and g: "goes s s'" and b: "(c, b) \<in> calls s"
  shows "call_ok (St \<union> stores s') s' c b"
proof -
  have c: "c < length (servers s)" using call_body [OF safeD(1) [OF sf] b] by blast
  note ok = safeD(9) [OF sf b]
  show ?thesis
  proof (cases b)
    case (VoteCall p args n t)
    show ?thesis
    proof (cases "t = curTerm (servers s' ! c) \<and> rstate (servers s' ! c) \<noteq> follower")
      case True
      then have "t = curTerm (servers s ! c)" using ok VoteCall goesD(9) [OF g c] by simp
      moreover have "rstate (servers s ! c) \<noteq> follower"
        using goesD(8) [OF g c] True calculation by (cases "rstate (servers s' ! c)") (auto simp: srv_step_def)
      ultimately show ?thesis
        using ok VoteCall True has_prefix [OF leads_prefix [OF goesD(1) [OF g] c]] by auto
    next
      case False
      then show ?thesis using ok VoteCall goesD(9) [OF g c] by auto
    qed
  next
    case (ReplCall ps t args)
    then show ?thesis using repl_ok_step [OF sf g] ok by simp
  next
    case (ReplDone ps t args reply)
    have "done_ok (St \<union> stores s') s' (hd ps) t args" if "done_ok St s (hd ps) t args"
      using that sent_by_step [OF _ g] old_link [OF _ g safeD(1) [OF sf]] unfolding done_ok_def by blast
    then show ?thesis using ok ReplDone by simp
  qed simp_all
qed

lemma call_ok_neutral: "neutral b \<Longrightarrow> call_ok St s c b"
  by (cases b) auto

lemma repl_ok_send:
  assumes sf: "safe St s" and g: "goes s s'" and i: "i < length (servers s)" "rstate (servers s ! i) = leader"
    and srv: "servers s' = servers s" and p: "0 \<le> p" "p < int (length (servers s))"
  shows "repl_ok (St \<union> stores s') s' (curTerm (servers s ! i)) (request p (servers s ! i))"
proof -
  let ?rf = "servers s ! i"
  note c = safeD(1) [OF sf] and ok = cluster_okD [OF safeD(1) [OF sf] i(1)]
  have l: "leader_ok ?rf" "p < npeers ?rf" using ok i(2) p(2) by (simp_all add: raft_ok_def)
  note has = request_has [OF l(1) raft_okD(5) [OF ok(1)] p(1) l(2)] and last = request_ok(2) [OF ok(1) l(1) p(1) l(2)]
  have uniq: "d = i" if "d < length (servers s)" "rstate (servers s ! d) = leader" "curTerm (servers s ! d) = curTerm ?rf" for d
    using election_ok_unique [OF safeD(2) [OF sf] that(1) i(1) that(2) i(2) that(3)] .
  show ?thesis
    unfolding repl_ok_def
  proof (intro conjI allI impI)
    have "last_sent (request p ?rf) < go_len (rlog (servers s ! d))"
      if "d < length (servers s)" "rstate (servers s ! d) = leader" "curTerm (servers s ! d) = curTerm ?rf" for d
      using uniq [OF that] last by simp
    then show "sent_by s' (curTerm ?rf) (request p ?rf)"
      using elected_step [OF leader_elected [OF safeD(2) [OF sf] i] goesD(2,3) [OF g]] by (auto simp: sent_by_def srv)
    show "args_has (request p ?rf) j (curTerm ?rf)" if "(j, u, y) \<in> links s'" "le_Term y = curTerm ?rf" for j u y
      using has leader_has [OF goesD(6,4) [OF g], of i j u y] that i by (simp add: srv)
    show "args_has (request p ?rf) k t'" if "choosable (St \<union> stores s') s' k t'" "t' < curTerm ?rf" for k t'
      using has leader_choosable [OF sf i choosable_antimono [OF that(1) goesD(2) [OF g]] that(2)] by blast
    show "\<exists>k t'. aea_LeaderCommit (request p ?rf) \<le> int k \<and> chosen (St \<union> stores s') s' k t' \<and> t' \<le> curTerm ?rf \<and>
        int k \<le> last_sent (request p ?rf)" if "0 < aea_LeaderCommit (request p ?rf)"
    proof -
      have lc: "aea_LeaderCommit (request p ?rf) = commitIndex ?rf" by (simp add: request_def)
      then obtain k t' where k: "commitIndex ?rf \<le> int k" "chosen St s k t'" "has (rlog ?rf) k t'"
        using safeD(12) [OF sf] i(1) \<open>0 < aea_LeaderCommit (request p ?rf)\<close> unfolding commit_ok_def by metis
      have "t' \<le> curTerm ?rf" "int k \<le> last_sent (request p ?rf)"
        using k(3) ok(1) unfolding last by (auto simp: raft_ok_def has_def go_len_def)
      then show ?thesis using k lc chosen_mono [OF k(2) Un_upper1 goesD(7) [OF g]] by auto
    qed
  qed
qed

lemma receive_not_appends:
  assumes "nat p < length (servers s)" and "servers s' = (servers s)[nat p := appended e args (servers s ! nat p)]"
  shows "\<not> appends i rf x s s'"
proof
  assume a: "appends i rf x s s'"
  then have "servers s' ! i = rf" "i < length (servers s)" by (auto simp: appends_def)
  then show False using a assms by (cases "i = nat p") (auto simp: appends_def)
qed

lemma done_ok_receive:
  assumes sf: "safe St s" and g: "goes s s'" and p: "nat p < length (servers s)" "0 \<le> p"
    and b: "(c, ReplCall (p # ps) t args) \<in> calls s" and t: "curTerm (servers s ! nat p) \<le> t"
    and con: "consistent args (servers s ! nat p)"
    and srv: "servers s' = (servers s)[nat p := appended e args (servers s ! nat p)]"
  shows "done_ok (St \<union> stores s') s' p t args"
proof -
  have r: "repl_ok (St \<union> stores s') s' t args" using call_ok_old [OF sf g b] by simp
  have "(p, j, t) \<in> stores s'" if l: "(j, u, y) \<in> links s'" "le_Term y = t" "int j \<le> last_sent args" for j u y
  proof -
    have "(j, u, y) \<in> links s"
      using move_links [OF goesD(1) [OF g] safeD(1) [OF sf]] receive_not_appends [OF p(1) srv] l(1) by blast
    moreover have "args_has args j t" using r l unfolding repl_ok_def by blast
    moreover have j: "0 < j" by (rule links_pos [OF goesD(4) [OF g] l(1)])
    ultimately have "has (rlog (appended e args (servers s ! nat p))) j t" using received [OF sf p(1) b con] l(2) by blast
    then show ?thesis using p srv j t repl_call_args(2) [OF safeD(1) [OF sf] disjI1 [OF b]] by (auto simp: stores_def)
  qed
  then show ?thesis using r unfolding done_ok_def repl_ok_def by blast
qed

lemma calls_step:
  assumes sf: "safe St s" and g: "goes s s'" and b: "(c, b) \<in> calls s'"
  shows "call_ok (St \<union> stores s') s' c b"
proof -
  have only: "call_ok (St \<union> stores s') s' c b" if "only P s s'" "P b \<Longrightarrow> call_ok (St \<union> stores s') s' c b" for P
    using that b call_ok_old [OF sf g] unfolding only_def by blast
  have neutral: "call_ok (St \<union> stores s') s' c b" if "only neutral s s'" by (rule only [OF that call_ok_neutral])
  show ?thesis
    using goesD(1) [OF g]
  proof (cases rule: move.cases)
    case (Elect i rf)
    have rf: "servers s' ! i = rf" "rlog rf = rlog (servers s ! i)" using Elect(1-3) by (auto simp: still_def)
    have "rlog rf \<noteq> []" using cluster_okD(4) [OF safeD(1) [OF sf] Elect(1)] rf(2) by simp
    then have h: "0 \<le> go_len (rlog rf) - 1 \<and> has (rlog rf) (nat (go_len (rlog rf) - 1)) (le_Term (last (rlog rf)))"
      by (auto simp: has_def go_len_def last_conv_nth nat_diff_distrib Suc_le_eq)
    consider "(c, b) \<in> calls s" | "neutral b" | p args n where "c = i" "b = VoteCall p args n (curTerm rf)"
      "rva_LastLogIndex args = go_len (rlog rf) - 1" "rva_LastLogTerm args = le_Term (last (rlog rf))"
      using Elect(6) b by blast
    then show ?thesis
    proof cases
      case 1
      then show ?thesis by (rule call_ok_old [OF sf g])
    next
      case 2
      then show ?thesis by (rule call_ok_neutral)
    qed (use h in \<open>simp add: rf(1)\<close>)
  next
    case (Send i p)
    note r = repl_ok_send [OF sf g Send(1,3,2,4,5)]
    show ?thesis by (rule only [OF Send(7)], elim exE) (simp add: r)
  next
    case (Receive p c' ps t args e)
    note r = done_ok_receive [OF sf g Receive(1,2,3,4,5,7)]
    show ?thesis by (rule only [OF Receive(9)], elim exE) (simp add: r)
  next
    case (Append i rf x)
    then show ?thesis using neutral by (simp add: appends_def)
  qed (use neutral in blast)+
qed

lemma acks_same:
  assumes sf: "safe St s" and c: "c < length (servers s)" "rstate (servers s ! c) = leader" "q < length (servers s)" "q \<noteq> c" "0 < k"
    and k: "int k \<le> matchIndex (servers s ! c) ! q" "has (rlog (servers s ! c)) k (curTerm (servers s ! c))"
  shows "(int q, k, curTerm (servers s ! c)) \<in> St"
  using safeD(11) [OF sf] assms unfolding acks_ok_def by blast

lemma acks_still:
  assumes sf: "safe St s" and g: "goes s s'" and srv: "servers s' = (servers s)[i := rf]" and st: "still (servers s ! i) rf"
    and c: "c < length (servers s')" "rstate (servers s' ! c) = leader" "q < length (servers s')" "q \<noteq> c" "0 < k"
    and k: "int k \<le> matchIndex (servers s' ! c) ! q" "has (rlog (servers s' ! c)) k (curTerm (servers s' ! c))"
  shows "(int q, k, curTerm (servers s' ! c)) \<in> St"
proof (cases "c = i")
  case True
  then have rf: "servers s' ! c = rf" using srv c(1) by simp
  have l: "length (matchIndex rf) = length (servers s')" "me rf = int c"
    using cluster_okD(1,2,3) [OF goesD(4) [OF g] c(1)] c(2) rf by (auto simp: raft_ok_def leader_ok_def go_len_def)
  have "matchIndex rf ! q \<le> 0 \<Longrightarrow> False" using k(1) rf c(5) by simp
  then have "rstate (servers s ! i) = leader" "curTerm rf = curTerm (servers s ! i)" "matchIndex rf = matchIndex (servers s ! i)"
    using st c(2,3,4) l rf unfolding still_def acks_kept_def by auto
  then show ?thesis using acks_same [OF sf, of c q k] c k st rf True goesD(7) [OF g] by (simp add: still_def)
next
  case False
  then have "servers s' ! c = servers s ! c" using srv by simp
  then show ?thesis using acks_same [OF sf, of c q k] c k goesD(7) [OF g] by simp
qed

lemma acks_acked:
  assumes sf: "safe St s" and i: "i < length (servers s)" "rstate (servers s ! i) = leader"
    and b: "(i, ReplDone (p # ps) (curTerm (servers s ! i)) args reply) \<in> calls s" "aer_Success reply" and p: "0 \<le> p"
    and q: "q < length (servers s)" "q \<noteq> i" "0 < k"
    and k: "int k \<le> matchIndex (advanced p args (servers s ! i)) ! q" "has (rlog (servers s ! i)) k (curTerm (servers s ! i))"
  shows "(int q, k, curTerm (servers s ! i)) \<in> St"
proof (cases "int k \<le> matchIndex (servers s ! i) ! q")
  case True
  then show ?thesis using acks_same [OF sf i q(1,2,3)] k(2) by blast
next
  case False
  have l: "length (matchIndex (servers s ! i)) = length (servers s)"
    using cluster_okD(1,3) [OF safeD(1) [OF sf] i(1)] i(2) by (auto simp: raft_ok_def leader_ok_def go_len_def)
  have "q = nat p \<and> int k \<le> last_sent args"
    using k(1) False q(1) l by (cases "q = nat p") (auto simp: advanced_def Let_def split: if_splits)
  then have q': "q = nat p" "int k \<le> last_sent args" by simp_all
  obtain u y where "(k, u, y) \<in> links s" "le_Term y = curTerm (servers s ! i)"
    using has_link [OF k(2) q(3)] links_server [OF i(1)] by blast
  then have "(p, k, curTerm (servers s ! i)) \<in> St" using safeD(9) [OF sf b(1)] b(2) q'(2) by (auto simp: done_ok_def)
  then show ?thesis using q'(1) p by simp
qed

lemma acks_ok_step:
  assumes sf: "safe St s" and g: "goes s s'"
  shows "acks_ok (St \<union> stores s') s'"
  unfolding acks_ok_def
proof (intro allI impI)
  fix c q k
  assume c: "c < length (servers s')" "rstate (servers s' ! c) = leader" "q < length (servers s')" "q \<noteq> c" "0 < k"
    and k: "int k \<le> matchIndex (servers s' ! c) ! q" "has (rlog (servers s' ! c)) k (curTerm (servers s' ! c))"
  have len: "c < length (servers s)" "q < length (servers s)" using c goesD(7) [OF g] by simp_all
  have old: "(int q, k, curTerm (servers s' ! c)) \<in> St" if "servers s' ! c = servers s ! c"
    using acks_same [OF sf, of c q k] c k that goesD(7) [OF g] by simp
  have "(int q, k, curTerm (servers s' ! c)) \<in> St"
    using goesD(1) [OF g]
  proof (cases rule: move.cases)
    case (Local i rf)
    then show ?thesis using acks_still [OF sf g _ _ c k] by blast
  next
    case (Elect i rf)
    then show ?thesis using acks_still [OF sf g _ _ c k] by blast
  next
    case (Grant p rf d args n t)
    then show ?thesis using acks_still [OF sf g _ _ c k] by blast
  next
    case (Receive p d ps t args e)
    then show ?thesis using old c by (cases "c = nat p") auto
  next
    case (Acked i p ps args reply x)
    show ?thesis
    proof (cases "c = i")
      case True
      then show ?thesis using acks_acked [OF sf Acked(1,2,3,4,5) len(2) _ c(5)] Acked(7) c k
        by (auto simp: advanced_def Let_def split: if_splits)
    next
      case False
      then show ?thesis using old Acked(7) by simp
    qed
  next
    case (Append i rf x)
    show ?thesis
    proof (cases "c = i")
      case True
      let ?rf = "servers s ! i"
      have a: "servers s' ! c = rf" "matchIndex rf ! q = matchIndex ?rf ! q" "rlog rf = rlog ?rf @ [x]" "curTerm rf = curTerm ?rf"
          "rstate ?rf = leader"
        using Append True c(4) len by (auto simp: appends_def)
          (use cluster_okD(1,3) [OF safeD(1) [OF sf] len(1)] True in \<open>auto simp: raft_ok_def leader_ok_def go_len_def\<close>)
      have "matchIndex ?rf ! q < go_len (rlog ?rf)"
        using leader_ok_nth(6) [of ?rf "int q"] cluster_okD(1,3) [OF safeD(1) [OF sf] len(1)] True a(5) len(2) by (auto simp: raft_ok_def)
      then have "has (rlog ?rf) k (curTerm ?rf)" using k a by (auto simp: has_def nth_append go_len_def)
      then show ?thesis using acks_same [OF sf, of i q k] k(1) a c len True by simp
    next
      case False
      then show ?thesis using old Append by (simp add: appends_def)
    qed
  next
    case (Applied i rf m)
    then show ?thesis using acks_same [OF sf, of c q k] c k len old by (cases "c = i") auto
  qed (use old in auto)
  then show "(int q, k, curTerm (servers s' ! c)) \<in> St \<union> stores s'" by blast
qed

text \<open>A chosen entry is in the log of some server.\<close>

lemma chosen_server:
  assumes sf: "safe St s" and ch: "chosen St s k t"
  obtains w where "w < length (servers s)" "(int w, k, t) \<in> St" "has (rlog (servers s ! w)) k t"
proof -
  have "majority (int (length (servers s))) {v. (v, k, t) \<in> St}" using ch by (simp add: chosen_def)
  from maj.quorum_meet [OF this this] obtain v where v: "(v, k, t) \<in> St" by blast
  note r = stored_okD [OF safeD(5) [OF sf] v]
  have "has (rlog (servers s ! nat v)) k t"
    using safeD(6) [OF sf] v chosen_choosable [OF safeD(5) [OF sf] ch] by (auto simp: kept_ok_def)
  then show thesis using that [of "nat v"] v r(1,3) by simp
qed

lemma commit_received:
  assumes sf: "safe St s" and p: "nat p < length (servers s)" and b: "(c, ReplCall (p # ps) t args) \<in> calls s"
    and con: "consistent args (servers s ! nat p)" and lc: "0 < aea_LeaderCommit args"
  shows "\<exists>k t'. aea_LeaderCommit args \<le> int k \<and> chosen St s k t' \<and> has (rlog (appended e args (servers s ! nat p))) k t'"
proof -
  have r: "repl_ok St s t args" using safeD(9) [OF sf b] by simp
  then obtain k t' where k: "aea_LeaderCommit args \<le> int k" "chosen St s k t'" "t' \<le> t" "int k \<le> last_sent args"
    using lc unfolding repl_ok_def by blast
  have k0: "0 < k" using k(2) by (simp add: chosen_def)
  have ch: "choosable St s k t'" by (rule chosen_choosable [OF safeD(5) [OF sf] k(2)])
  obtain w where w: "w < length (servers s)" "has (rlog (servers s ! w)) k t'" by (rule chosen_server [OF sf k(2)])
  obtain u y where y: "(k, u, y) \<in> links s" "le_Term y = t'" using has_link [OF w(2) k0] links_server [OF w(1)] by blast
  have "args_has args k t'"
  proof (cases "t' = t")
    case True
    then show ?thesis using r y k(4) unfolding repl_ok_def by blast
  next
    case False
    then show ?thesis using r ch k(3) unfolding repl_ok_def by (metis less_le)
  qed
  moreover have "t' < t \<and> choosable St s k t' \<or> t' = t \<and> (\<exists>u y. (k, u, y) \<in> links s \<and> le_Term y = t)"
    using ch y k(3) by (cases "t' = t") auto
  ultimately have "has (rlog (appended e args (servers s ! nat p))) k t'" by (rule received [OF sf p b con k0])
  then show ?thesis using k by blast
qed

lemma commit_acked:
  assumes sf: "safe St s" and g: "goes s s'" and i: "i < length (servers s)" "rstate (servers s ! i) = leader"
    and srv: "servers s' = (servers s)[i := advanced p args (servers s ! i)\<lparr>commitIndex := c\<rparr>]"
    and c: "0 < c" "commit_ready (advanced p args (servers s ! i)) c"
  shows "chosen (St \<union> stores s') s' (nat c) (curTerm (servers s ! i)) \<and> has (rlog (servers s' ! i)) (nat c) (curTerm (servers s ! i))"
proof -
  let ?rf = "servers s ! i" and ?a = "advanced p args (servers s ! i)" and ?n = "length (servers s')"
  have a: "rlog ?a = rlog ?rf" "curTerm ?a = curTerm ?rf" "npeers ?a = npeers ?rf" "me ?a = me ?rf" "rstate ?a = rstate ?rf"
    by (simp_all add: advanced_def Let_def)
  have s': "servers s' ! i = ?a\<lparr>commitIndex := c\<rparr>" "i < ?n" using srv i(1) by simp_all
  note ok = cluster_okD [OF goesD(4) [OF g] s'(2)]
  have h: "has (rlog (servers s' ! i)) (nat c) (curTerm (servers s' ! i))" and maj: "majority (npeers ?a) (holders ?a c)"
    using c s'(1) by (auto simp: commit_ready_def in_range_def go_len_def has_def)
  have n: "npeers ?a = int ?n" "length (matchIndex ?a) = ?n" "me ?a = int i"
    using ok s' i(2) a(5) by (auto simp: raft_ok_def leader_ok_def go_len_def)
  have "(v, nat c, curTerm ?rf) \<in> St \<union> stores s'" if v: "v \<in> holders ?a c" for v
  proof (cases "v = int i")
    case True
    then show ?thesis using h s' a(2) c(1) by (auto simp: stores_def)
  next
    case False
    then have r: "0 \<le> v" "nat v < ?n" "c \<le> matchIndex ?a ! nat v" "nat v \<noteq> i" using v n by (auto simp: holders_def in_range_def go_len_def)
    then have "(int (nat v), nat c, curTerm (servers s' ! i)) \<in> St \<union> stores s'"
      using acks_ok_step [OF sf g, unfolded acks_ok_def, rule_format, OF s'(2) _ r(2,4), of "nat c"] h s' i(2) a(5) c(1) by simp
    then show ?thesis using r(1) s'(1) a(2) by simp
  qed
  then have "majority (int ?n) {v. (v, nat c, curTerm ?rf) \<in> St \<union> stores s'}" using maj n(1) by (auto elim!: maj.quorum_up)
  then show ?thesis using h s'(1) a(2) c(1) by (simp add: chosen_def)
qed

lemma commit_ok_step:
  assumes sf: "safe St s" and g: "goes s s'"
  shows "commit_ok (St \<union> stores s') s'"
  unfolding commit_ok_def
proof (intro allI impI)
  fix v
  assume v: "v < length (servers s')" "0 < commitIndex (servers s' ! v)"
  have vs: "v < length (servers s)" using v(1) goesD(7) [OF g] by simp
  note up = chosen_mono [OF _ Un_upper1 goesD(7) [OF g], of St _ _ "stores s'"]
  let ?goal = "\<exists>k t. commitIndex (servers s' ! v) \<le> int k \<and> chosen (St \<union> stores s') s' k t \<and> has (rlog (servers s' ! v)) k t"
  have old: ?goal if eq: "commitIndex (servers s' ! v) = commitIndex (servers s ! v)"
  proof -
    obtain k t where k: "commitIndex (servers s ! v) \<le> int k" "chosen St s k t" "has (rlog (servers s ! v)) k t"
      using safeD(12) [OF sf] vs v(2) eq unfolding commit_ok_def by metis
    have "choosable St s k t" by (rule chosen_choosable [OF safeD(5) [OF sf] k(2)])
    from has_take [OF keeps [OF sf goesD(1) [OF g] this vs k(3)] k(3)] show ?thesis using k(1) up [OF k(2)] eq by auto
  qed
  have still: ?goal if "servers s' = (servers s)[i := rf]" "still (servers s ! i) rf" for i rf
    using old that v vs by (cases "v = i") (auto simp: still_def)
  show ?goal
    using goesD(1) [OF g]
  proof (cases rule: move.cases)
    case (Receive p c ps t args e)
    show ?thesis
    proof (cases "v = nat p \<and> commitIndex (servers s ! nat p) < aea_LeaderCommit args")
      case True
      then have a: "servers s' ! v = appended e args (servers s ! nat p)" using Receive(7) vs by simp
      then have le: "commitIndex (servers s' ! v) \<le> aea_LeaderCommit args" using True by simp
      then have "0 < aea_LeaderCommit args" using v(2) by linarith
      from commit_received [OF sf Receive(1,3,5) this, of e] show ?thesis unfolding a [symmetric]
        using le up by (meson order_trans)
    next
      case False
      then show ?thesis using old Receive(7) vs by (cases "v = nat p") auto
    qed
  next
    case (Acked i p ps args reply c)
    show ?thesis
    proof (cases "v = i \<and> commitIndex (servers s ! i) < c")
      case True
      then have c: "0 < c" "commit_ready (advanced p args (servers s ! i)) c" "commitIndex (servers s' ! v) = c"
        using Acked(7,8) v(2) vs by auto
      from commit_acked [OF sf g Acked(1,2,7) c(1,2)] show ?thesis using c True by (auto intro!: exI [of _ "nat c"])
    next
      case False
      then show ?thesis using old Acked(7,8) vs by (cases "v = i") auto
    qed
  next
    case (Append i rf x)
    then show ?thesis using old vs by (cases "v = i") (auto simp: appends_def)
  next
    case (Applied i rf m)
    then show ?thesis using old vs by (cases "v = i") auto
  qed (use old still in auto)
qed

lemma safe_step:
  assumes "safe St s" and "goes s s'"
  shows "safe (St \<union> stores s') s'"
  unfolding safe_def
  using goesD(4-6) [OF assms(2)] contig_move [OF safeD(4,3,1) [OF assms(1)] goesD(1) [OF assms(2)]]
    stored_ok_step [OF assms] kept_ok_step [OF assms] later_ok_step [OF assms] voted_ok_step [OF assms]
    calls_step [OF assms] cands_ok_step [OF assms] acks_ok_step [OF assms] commit_ok_step [OF assms] by blast

section \<open>What servers apply\<close>

definition outputs :: "'c cluster \<Rightarrow> (int \<times> 'c option) set" where
  "outputs s = {(am_Index m, am_Command m) | m v. v < length (servers s) \<and> m \<in> set (applyCh (servers s ! v))}"

lemma outputs_in: "v < length (servers s) \<Longrightarrow> m \<in> set (applyCh (servers s ! v)) \<Longrightarrow> (am_Index m, am_Command m) \<in> outputs s"
  unfolding outputs_def by blast

text \<open>
  An entry \<open>x\<close> is settled at an index when every log with a certain chosen entry of term \<open>t\<close>, at or behind the
  index, has it there. \<open>Out\<close> is the history variable of everything applied.
\<close>

definition settled :: "(int \<times> nat \<times> int) set \<Rightarrow> 'c cluster \<Rightarrow> int \<Rightarrow> int \<Rightarrow> 'c LogEntry \<Rightarrow> bool" where
  "settled St s i t x \<longleftrightarrow> (\<exists>k. i \<le> int k \<and> chosen St s k t \<and>
     (\<forall>v < length (servers s). has (rlog (servers s ! v)) k t \<longrightarrow> rlog (servers s ! v) ! nat i = x))"

definition outs_ok :: "(int \<times> 'c option) set \<Rightarrow> (int \<times> nat \<times> int) set \<Rightarrow> 'c cluster \<Rightarrow> bool" where
  "outs_ok Out St s \<longleftrightarrow> outputs s \<subseteq> Out \<and> (\<forall>i cmd. (i, cmd) \<in> Out \<longrightarrow> (\<exists>t x. settled St s i t x \<and> le_Command x = cmd))"

lemma has_match:
  assumes m: "match_ok s" and c: "cluster_ok s" and v: "v < length (servers s)" "w < length (servers s)"
    and h: "has (rlog (servers s ! v)) k t" "has (rlog (servers s ! w)) k t" and i: "i \<le> int k"
  shows "rlog (servers s ! v) ! nat i = rlog (servers s ! w) ! nat i"
proof -
  have "take (Suc k) (rlog (servers s ! v)) = take (Suc k) (rlog (servers s ! w))"
    using logs_match [OF m v(1) cluster_okD(4) [OF c v(1)] v(2) cluster_okD(4) [OF c v(2)]] h by (auto simp: has_def)
  then have "take (Suc k) (rlog (servers s ! v)) ! nat i = take (Suc k) (rlog (servers s ! w)) ! nat i" by simp
  then show ?thesis using i by (simp add: nat_le_iff less_Suc_eq_le)
qed

lemma settled_step:
  assumes sf: "safe St s" and g: "goes s s'" and st: "settled St s i t x"
  shows "settled (St \<union> stores s') s' i t x"
proof -
  obtain k where k: "i \<le> int k" "chosen St s k t"
    "\<forall>v < length (servers s). has (rlog (servers s ! v)) k t \<longrightarrow> rlog (servers s ! v) ! nat i = x"
    using st unfolding settled_def by blast
  obtain w where w: "w < length (servers s)" "has (rlog (servers s ! w)) k t" by (rule chosen_server [OF sf k(2)])
  note kp = keeps [OF sf goesD(1) [OF g] chosen_choosable [OF safeD(5) [OF sf] k(2)] w]
  have "take (Suc k) (rlog (servers s' ! w)) ! nat i = take (Suc k) (rlog (servers s ! w)) ! nat i" using kp by simp
  then have same: "rlog (servers s' ! w) ! nat i = rlog (servers s ! w) ! nat i" using k(1) by (simp add: nat_le_iff less_Suc_eq_le)
  have "rlog (servers s' ! v) ! nat i = x" if v: "v < length (servers s')" "has (rlog (servers s' ! v)) k t" for v
    using has_match [OF goesD(6,4) [OF g] v(1) _ v(2) has_take [OF kp w(2)] k(1)] w goesD(7) [OF g] same k(3) by simp
  then show ?thesis using k(1) chosen_mono [OF k(2) Un_upper1 goesD(7) [OF g]] unfolding settled_def by blast
qed

text \<open>What a server commits is settled.\<close>

lemma settled_commit:
  assumes sf: "safe St s" and m: "i < length (servers s)" "0 < j" "j \<le> commitIndex (servers s ! i)"
  shows "\<exists>t \<le> curTerm (servers s ! i). settled St s j t (rlog (servers s ! i) ! nat j)"
proof -
  obtain k t where k: "commitIndex (servers s ! i) \<le> int k" "chosen St s k t" "has (rlog (servers s ! i)) k t"
    using safeD(12) [OF sf] m unfolding commit_ok_def by (meson less_le_trans)
  have "rlog (servers s ! v) ! nat j = rlog (servers s ! i) ! nat j"
    if "v < length (servers s)" "has (rlog (servers s ! v)) k t" for v
    using has_match [OF safeD(3,1) [OF sf] that(1) m(1) that(2) k(3), of j] m(3) k(1) by simp
  moreover have "t \<le> curTerm (servers s ! i)" using cluster_okD(1) [OF safeD(1) [OF sf] m(1)] k(3) by (auto simp: raft_ok_def has_def)
  ultimately show ?thesis using k m(3) unfolding settled_def by (meson order_trans)
qed

lemma outputs_put:
  assumes "servers s' = (servers s)[i := rf]" and "i < length (servers s)" and "set (applyCh rf) \<subseteq> set (applyCh (servers s ! i)) \<union> M"
  shows "outputs s' \<subseteq> outputs s \<union> (\<lambda>m. (am_Index m, am_Command m)) ` M"
proof
  fix x
  assume "x \<in> outputs s'"
  then obtain m v where m: "x = (am_Index m, am_Command m)" "v < length (servers s)" "m \<in> set (applyCh (servers s' ! v))"
    using assms(1) by (auto simp: outputs_def)
  then show "x \<in> outputs s \<union> (\<lambda>m. (am_Index m, am_Command m)) ` M"
    using assms by (cases "v = i") (auto simp: outputs_def)
qed

lemma outputs_step:
  assumes "move s s'"
  shows "outputs s' \<subseteq> outputs s \<or> (\<exists>i j. i < length (servers s) \<and> 0 < j \<and> j \<le> commitIndex (servers s ! i) \<and>
    (\<forall>v < length (servers s). rlog (servers s' ! v) = rlog (servers s ! v)) \<and>
    outputs s' \<subseteq> insert (j, le_Command (rlog (servers s ! i) ! nat j)) (outputs s))"
  using assms
proof (cases rule: move.cases)
  case (Applied i rf m)
  have "rlog (servers s' ! v) = rlog (servers s ! v)" if "v < length (servers s)" for v using that Applied(2,3) by (cases "v = i") auto
  then show ?thesis using Applied outputs_put [OF Applied(2,1), of "{m}"] by (intro disjI2 exI [of _ i] exI [of _ "am_Index m"]) auto
next
  case (Local i rf)
  then show ?thesis using outputs_put [of s' s i rf "{}"] by (auto simp: still_def)
next
  case (Elect i rf)
  then show ?thesis using outputs_put [of s' s i rf "{}"] by (auto simp: still_def)
next
  case (Grant p rf c args n t)
  then show ?thesis using outputs_put [of s' s "nat p" rf "{}"] by (auto simp: still_def)
next
  case (Receive p c ps t args e)
  then show ?thesis using outputs_put [OF Receive(7,1), of "{}"] by auto
next
  case (Acked i p ps args reply c)
  then show ?thesis using outputs_put [OF Acked(7,1), of "{}"] by (auto simp: advanced_def Let_def split: if_splits)
next
  case (Append i rf x)
  then show ?thesis using outputs_put [of s' s i rf "{}"] by (auto simp: appends_def)
qed (auto simp: outputs_def)

lemma outs_ok_step:
  assumes sf: "safe St s" and g: "goes s s'" and ok: "outs_ok Out St s"
  shows "outs_ok (Out \<union> outputs s') (St \<union> stores s') s'"
proof -
  have old: "\<exists>t x. settled (St \<union> stores s') s' i t x \<and> le_Command x = cmd" if "(i, cmd) \<in> Out" for i cmd
    using ok that settled_step [OF sf g] unfolding outs_ok_def by blast
  have sub: "outputs s \<subseteq> Out" using ok by (simp add: outs_ok_def)
  have "\<exists>t x. settled (St \<union> stores s') s' i t x \<and> le_Command x = cmd" if out: "(i, cmd) \<in> outputs s'" for i cmd
    using outputs_step [OF goesD(1) [OF g]]
  proof (elim disjE exE conjE)
    assume "outputs s' \<subseteq> outputs s"
    then show ?thesis using old out sub by blast
  next
    fix a j
    assume a: "a < length (servers s)" "0 < j" "j \<le> commitIndex (servers s ! a)"
      and "outputs s' \<subseteq> insert (j, le_Command (rlog (servers s ! a) ! nat j)) (outputs s)"
    then consider "(i, cmd) \<in> Out" | "i = j" "cmd = le_Command (rlog (servers s ! a) ! nat j)" using out sub by blast
    then show ?thesis using old settled_commit [OF sf a] settled_step [OF sf g] by cases blast+
  qed
  then show ?thesis unfolding outs_ok_def using old by blast
qed

text \<open>Two chosen entries stand in one log, so what is applied at an index is unique.\<close>

lemma chosen_together:
  assumes sf: "safe St s" and c: "chosen St s k t" "chosen St s k' t'" and le: "t < t' \<or> t = t' \<and> k \<le> k'"
  shows "\<exists>v < length (servers s). has (rlog (servers s ! v)) k t \<and> has (rlog (servers s ! v)) k' t'"
proof -
  have k: "0 < k" "0 < k'" using c by (simp_all add: chosen_def)
  obtain v where v: "v < length (servers s)" "has (rlog (servers s ! v)) k t" by (rule chosen_server [OF sf c(1)])
  obtain w where w: "w < length (servers s)" "has (rlog (servers s ! w)) k' t'" by (rule chosen_server [OF sf c(2)])
  have "has (rlog (servers s ! w)) k t"
  proof (cases "t < t'")
    case True
    then show ?thesis
      using later_has [OF chosen_choosable [OF safeD(5) [OF sf] c(1)] safeD(2,5,6,3,7,4) [OF sf] w True k(2)] by blast
  next
    case False
    obtain u y where y: "(k, u, y) \<in> links s" "le_Term y = t" using has_link [OF v(2) k(1)] links_server [OF v(1)] by blast
    have "t' = t" "k \<le> k'" using le False by auto
    then show ?thesis using contig_has [OF safeD(4) [OF sf] w(1) y k(1), of k'] w(2) by simp
  qed
  then show ?thesis using w by blast
qed

lemma settled_unique:
  assumes sf: "safe St s" and x: "settled St s i t x" and y: "settled St s i u y"
  shows "x = y"
proof -
  obtain k where k: "chosen St s k t" "\<forall>v < length (servers s). has (rlog (servers s ! v)) k t \<longrightarrow> rlog (servers s ! v) ! nat i = x"
    using x unfolding settled_def by blast
  obtain j where j: "chosen St s j u" "\<forall>v < length (servers s). has (rlog (servers s ! v)) j u \<longrightarrow> rlog (servers s ! v) ! nat i = y"
    using y unfolding settled_def by blast
  consider "t < u \<or> t = u \<and> k \<le> j" | "u < t \<or> u = t \<and> j \<le> k" by linarith
  then show ?thesis using chosen_together [OF sf k(1) j(1)] chosen_together [OF sf j(1) k(1)] k(2) j(2) by cases blast+
qed

lemma outs_unique: "safe St s \<Longrightarrow> outs_ok Out St s \<Longrightarrow> (i, a) \<in> Out \<Longrightarrow> (i, b) \<in> Out \<Longrightarrow> a = b"
  using settled_unique unfolding outs_ok_def by metis

text \<open>A leader of the term of a chosen entry or of a later one has all that is settled by it.\<close>

lemma settled_leader:
  assumes sf: "safe St s" and x: "settled St s i t x" and i: "0 < i"
    and c: "c < length (servers s)" "rstate (servers s ! c) = leader" "t \<le> curTerm (servers s ! c)"
  shows "i < go_len (rlog (servers s ! c)) \<and> rlog (servers s ! c) ! nat i = x"
proof -
  obtain k where k: "i \<le> int k" "chosen St s k t"
    "\<forall>v < length (servers s). has (rlog (servers s ! v)) k t \<longrightarrow> rlog (servers s ! v) ! nat i = x"
    using x unfolding settled_def by blast
  have "has (rlog (servers s ! c)) k t"
  proof (cases "t = curTerm (servers s ! c)")
    case True
    obtain w where w: "w < length (servers s)" "has (rlog (servers s ! w)) k t" by (rule chosen_server [OF sf k(2)])
    obtain u y where "(k, u, y) \<in> links s" "le_Term y = t"
      using has_link [OF w(2)] links_server [OF w(1)] k(1) i by fastforce
    then show ?thesis using leader_has [OF safeD(3,1) [OF sf] c(1,2)] True by simp
  next
    case False
    then show ?thesis using leader_choosable [OF sf c(1,2) chosen_choosable [OF safeD(5) [OF sf] k(2)]] c(3) by simp
  qed
  then show ?thesis using k(1,3) c(1) by (auto simp: has_def go_len_def)
qed

section \<open>Runs in order\<close>

definition ostep :: "'c event \<Rightarrow> 'c cluster \<Rightarrow> 'c cluster option" where
  "ostep ev s = (if ordered ev s then tstep ev s else None)"

definition ordered_step :: "'c cluster \<Rightarrow> 'c cluster \<Rightarrow> bool" where
  "ordered_step s s' \<longleftrightarrow> (\<exists>ev. ostep ev s = Some s')"

type_synonym 'c history = "'c cluster \<times> (int \<times> nat \<times> int) set \<times> (int \<times> 'c option) set"

definition hist_init :: "'c history \<Rightarrow> bool" where
  "hist_init h \<longleftrightarrow> (case h of (s, St, Out) \<Rightarrow> is_boot s \<and> St = {} \<and> Out = {})"

definition hist_step :: "'c history \<Rightarrow> 'c history \<Rightarrow> bool" where
  "hist_step h h' \<longleftrightarrow> (case (h, h') of ((s, St, Out), (s', St', Out')) \<Rightarrow>
     ordered_step s s' \<and> St' = St \<union> stores s' \<and> Out' = Out \<union> outputs s')"

definition hist_ok :: "'c history \<Rightarrow> bool" where
  "hist_ok h \<longleftrightarrow> (case h of (s, St, Out) \<Rightarrow> safe St s \<and> outs_ok Out St s)"

lemma ordered_goes:
  assumes sf: "safe St s" and st: "ordered_step s s'"
  shows "goes s s'"
proof -
  obtain ev where ev: "tstep ev s = Some s'" "ordered ev s"
    using st by (auto simp: ordered_step_def ostep_def split: if_splits)
  then have c: "cstep ev s = Some s'" by (auto simp: tstep_def split: if_splits)
  have "timely_step s s'" using ev(1) by (auto simp: timely_step_def)
  from matched.step_inv [OF this] have "cluster_ok s' \<and> election_ok s' \<and> match_ok s'" using safeD(1-3) [OF sf] by blast
  then show ?thesis
    unfolding goes_def
    using cstep_move [OF safeD(1) [OF sf] c ev(2)] servers_step_cstep [OF safeD(1) [OF sf] c] votes_mono [OF c] by blast
qed

lemma boot_server:
  assumes "i < n"
  shows "rlog (servers (boot n e) ! i) = [\<lparr>le_Term = 0, le_Command = None\<rparr>]" "commitIndex (servers (boot n e) ! i) = 0"
    "rstate (servers (boot n e) ! i) = follower" "applyCh (servers (boot n e) ! i) = []"
  using assms by (simp_all add: boot_def rlog_Make) (simp_all add: Make_def Let_def)

lemma hist_ok_boot:
  assumes "0 < n"
  shows "hist_ok (boot n e :: 'c cluster, {}, {})"
proof -
  let ?s = "boot n e :: 'c cluster"
  have b: "length (servers ?s) = n" "votes ?s = []" "calls ?s = {}" by (simp_all add: boot_def calls_def)
  have "log_links (rlog rf) = {}" if "rf \<in> set (servers ?s)" for rf
    using that b(1) by (auto simp: in_set_conv_nth log_links_def boot_server(1))
  then have "links ?s = {}" unfolding links_calls b(3) by blast
  moreover have "stores ?s = {}" using b(1) by (auto simp: stores_def has_def boot_server(1) nat_less_iff)
  moreover have "cluster_ok ?s \<and> election_ok ?s \<and> match_ok ?s" using matched.init_inv assms by (auto simp: is_boot_def)
  moreover have "acks_ok {} ?s" "commit_ok {} ?s" "outputs ?s = {}"
    using b(1) by (auto simp: acks_ok_def commit_ok_def outputs_def boot_server)
  ultimately show ?thesis
    using b by (simp add: hist_ok_def safe_def contig_def stored_ok_def kept_ok_def later_ok_def voted_ok_def cands_ok_def outs_ok_def)
qed

interpretation history: invariant_system hist_init hist_step hist_ok
proof unfold_locales
  show "hist_ok h" if "hist_init h" for h :: "'c history" using that hist_ok_boot by (auto simp: hist_init_def is_boot_def)
  show "hist_ok h'" if "hist_step h h'" "hist_ok h" for h h' :: "'c history"
    using that safe_step outs_ok_step ordered_goes by (fastforce simp: hist_step_def hist_ok_def)
qed

text \<open>Every run in order has a history, which grows.\<close>

lemma history_next:
  assumes "reachable hist_init hist_step (s, St, Out)" and "ordered_step s s'"
  shows "reachable hist_init hist_step (s', St \<union> stores s', Out \<union> outputs s')"
  using assms(1) by (rule reachable.reach_step) (simp add: hist_step_def assms(2))

lemma run_history:
  assumes "reachable is_boot ordered_step s"
  shows "\<exists>St Out. reachable hist_init hist_step (s, St, Out) \<and> outputs s \<subseteq> Out"
  using assms
proof (induction rule: reachable.induct)
  case (reach_init s)
  then have i: "hist_init (s, {}, {})" by (simp add: hist_init_def)
  then have "outputs s \<subseteq> {}" using history.init_inv [of "(s, {}, {})"] by (simp add: hist_ok_def outs_ok_def)
  then show ?case using reachable.reach_init [of hist_init "(s, {}, {})" hist_step] i by blast
next
  case (reach_step s s')
  then obtain St Out where h: "reachable hist_init hist_step (s, St, Out)" by blast
  show ?case using history_next [OF h reach_step.hyps(2)] by blast
qed

lemma history_grows:
  assumes "ordered_step\<^sup>*\<^sup>* s s'" and "reachable hist_init hist_step (s, St, Out)"
  shows "\<exists>St' Out'. reachable hist_init hist_step (s', St', Out') \<and> Out \<subseteq> Out' \<and> (s = s' \<or> outputs s' \<subseteq> Out') \<and>
    (\<forall>i t x. settled St s i t x \<longrightarrow> settled St' s' i t x)"
  using assms
proof (induction rule: rtranclp_induct)
  case (step t u)
  then obtain St' Out' where h: "reachable hist_init hist_step (t, St', Out')" "Out \<subseteq> Out'"
    "\<forall>i v x. settled St s i v x \<longrightarrow> settled St' t i v x" by blast
  have sf: "safe St' t" using history.reachable_inv [OF h(1)] by (simp add: hist_ok_def)
  note settled_step [OF sf ordered_goes [OF sf step.hyps(2)]]
  then have "\<forall>i v x. settled St s i v x \<longrightarrow> settled (St' \<union> stores u) u i v x" using h(3) by blast
  then show ?case using history_next [OF h(1) step.hyps(2)] h(2) by blast
qed blast

lemma applied_agree:
  assumes "reachable is_boot ordered_step s" and "ordered_step\<^sup>*\<^sup>* s s'"
    and "(i, a) \<in> outputs s" and "(i, b) \<in> outputs s'"
  shows "a = b"
proof -
  obtain St Out where h: "reachable hist_init hist_step (s, St, Out)" "outputs s \<subseteq> Out" using run_history [OF assms(1)] by blast
  obtain St' Out' where h': "reachable hist_init hist_step (s', St', Out')" "Out \<subseteq> Out'" "s = s' \<or> outputs s' \<subseteq> Out'"
    using history_grows [OF assms(2) h(1)] by blast
  have "(i, a) \<in> Out'" "(i, b) \<in> Out'" using assms(3,4) h(2) h'(2,3) by auto
  then show ?thesis using history.reachable_inv [OF h'(1)] outs_unique by (auto simp: hist_ok_def)
qed

lemma committed_in_leader:
  assumes "reachable is_boot ordered_step s" and "ordered_step\<^sup>*\<^sup>* s s'"
    and v: "v < length (servers s)" "0 < j" "j \<le> commitIndex (servers s ! v)"
    and c: "c < length (servers s')" "rstate (servers s' ! c) = leader" "curTerm (servers s ! v) \<le> curTerm (servers s' ! c)"
  shows "j < go_len (rlog (servers s' ! c)) \<and> rlog (servers s' ! c) ! nat j = rlog (servers s ! v) ! nat j"
proof -
  obtain St Out where h: "reachable hist_init hist_step (s, St, Out)" using run_history [OF assms(1)] by blast
  obtain St' Out' where h': "reachable hist_init hist_step (s', St', Out')" "\<forall>i t x. settled St s i t x \<longrightarrow> settled St' s' i t x"
    using history_grows [OF assms(2) h] by blast
  have sf: "safe St s" "safe St' s'" using history.reachable_inv [OF h] history.reachable_inv [OF h'(1)] by (simp_all add: hist_ok_def)
  obtain t where t: "t \<le> curTerm (servers s ! v)" "settled St s j t (rlog (servers s ! v) ! nat j)"
    using settled_commit [OF sf(1) v] by blast
  have "settled St' s' j t (rlog (servers s ! v) ! nat j)" using h'(2) t(2) by blast
  then show ?thesis using settled_leader [OF sf(2) _ v(2) c(1,2)] t(1) c(3) by simp
qed

end
