(* ===== verification/Raft_Converge.thy ===== *)
theory Raft_Converge
  imports Raft_Replication
begin

text \<open>
  The loop of \<^verbatim>\<open>replicateTo\<close> run against one follower while nothing else happens: the leader sends, the
  follower handles, the leader looks at the reply and possibly goes round again. The outcomes of
  the calls are given, one per round; the result is None when they are used up and the loop still
  runs. The main lemma says how many are enough and what both logs are at the end. The cluster
  model interleaves the same critical sections with all others.
\<close>

datatype call_outcome = CallOk | LostRequest | LostReply

fun replicate_loop ::
  "call_outcome list \<Rightarrow> env \<Rightarrow> int \<Rightarrow> int \<Rightarrow> 'c Raft \<Rightarrow> 'c Raft \<Rightarrow> ('c Raft \<times> 'c Raft) result" where
  "replicate_loop [] e p t l f = None"
| "replicate_loop (c # cs) e p t l f =
     do {
       (l, out) \<leftarrow> replicate_send p t l;
       case out of
         None \<Rightarrow> Some (l, f)
       | Some args \<Rightarrow>
           if c = LostRequest then Some (l, f)
           else do {
             (f, reply) \<leftarrow> AppendEntries e args f;
             if c = LostReply then Some (l, f)
             else do {
               (l, again, gs) \<leftarrow> replicate_return e p t args reply l;
               if again then replicate_loop cs e p t l f else Some (l, f)
             }
           }
     }"

text \<open>
  How two logs of one history are related. Matching: entries of equal index and term have
  equal prefixes up to them. Aligned: a term starts at the same index wherever it occurs,
  because one leader wrote all its entries.
\<close>

definition matching :: "'c LogEntry list \<Rightarrow> 'c LogEntry list \<Rightarrow> bool" where
  "matching l m \<longleftrightarrow> (\<forall>i. i < length l \<and> i < length m \<and> le_Term (l ! i) = le_Term (m ! i) \<longrightarrow>
     take (Suc i) l = take (Suc i) m)"

definition starts_at :: "'c LogEntry list \<Rightarrow> nat \<Rightarrow> bool" where
  "starts_at l i \<longleftrightarrow> i < length l \<and> (i = 0 \<or> le_Term (l ! (i - 1)) \<noteq> le_Term (l ! i))"

definition aligned :: "'c LogEntry list \<Rightarrow> 'c LogEntry list \<Rightarrow> bool" where
  "aligned l m \<longleftrightarrow> (\<forall>i j. starts_at l i \<and> starts_at m j \<and> le_Term (l ! i) = le_Term (m ! j) \<longrightarrow> i = j)"

lemma start_exists:
  assumes "i < length l"
  shows "\<exists>j \<le> i. starts_at l j \<and> le_Term (l ! j) = le_Term (l ! i)"
  using assms
proof (induction i)
  case 0
  then show ?case by (intro exI [of _ 0]) (simp add: starts_at_def)
next
  case (Suc i)
  show ?case
  proof (cases "le_Term (l ! i) = le_Term (l ! Suc i)")
    case True
    with Suc obtain j where "j \<le> i" "starts_at l j" "le_Term (l ! j) = le_Term (l ! i)" by auto
    with True show ?thesis by (intro exI [of _ j]) auto
  next
    case False
    with Suc show ?thesis by (intro exI [of _ "Suc i"]) (auto simp: starts_at_def)
  qed
qed

text \<open>
  If the logs disagree on the term at an index, then a term that one log has there occurs
  in the other, if at all, before that index.
\<close>

lemma aligned_before:
  assumes "aligned l m" and "log_ok l" and "i < length l" and "i < length m"
    and "le_Term (l ! i) \<noteq> le_Term (m ! i)" and "j < length l" and "le_Term (l ! j) = le_Term (m ! i)"
  shows "j < i"
proof (rule ccontr)
  assume "\<not> j < i"
  then have ij: "i \<le> j" by simp
  obtain a where a: "a \<le> j" "starts_at l a" "le_Term (l ! a) = le_Term (l ! j)"
    using start_exists [OF assms(6)] by blast
  obtain b where b: "b \<le> i" "starts_at m b" "le_Term (m ! b) = le_Term (m ! i)"
    using start_exists [OF assms(4)] by blast
  have "a = b" using assms(1,7) a b by (auto simp: aligned_def)
  then have "le_Term (l ! a) \<le> le_Term (l ! i)"
    using log_ok_nth_mono [OF assms(2), of a i] b(1) assms(3) by simp
  moreover have "le_Term (l ! i) \<le> le_Term (l ! j)"
    using log_ok_nth_mono [OF assms(2) ij assms(6)] .
  ultimately show False using a(3) assms(5,7) by simp
qed

text \<open>A refused request makes the next index of the peer smaller.\<close>

lemma backtrack_decreases:
  assumes "raft_ok l" and "leader_ok l" and "raft_ok f" and "0 \<le> p" and "p < npeers l"
    and "aligned (rlog l) (rlog f)"
    and "AppendEntries e (request p l) f = Some (f', reply)" and "\<not> aer_Success reply"
    and "curTerm f \<le> curTerm l"
  shows "max 1 (backtrack reply l) < nextIndex l ! nat p"
proof -
  let ?n = "nextIndex l ! nat p" and ?args = "request p l"
  let ?ct = "termAtLocked (?n - 1) f"
  note n = leader_ok_nth [OF assms(2,4,5)]
  have prev: "aea_PrevLogIndex ?args = ?n - 1" "aea_Term ?args = curTerm l"
    "aea_PrevLogTerm ?args = le_Term (rlog l ! nat (?n - 1))"
    by (simp_all add: request_def)
  have p0: "0 \<le> aea_PrevLogIndex ?args" using n by (simp add: prev)
  note lok = raft_okD(5) [OF assms(1)] and fok = raft_okD(5) [OF assms(3)]
  show ?thesis
  proof (cases "go_len (rlog f) \<le> ?n - 1")
    case True
    then have "reply = \<lparr>aer_Term = curTerm f, aer_Success = False, aer_ConflictTerm = -1,
        aer_ConflictIndex = go_len (rlog f)\<rparr>"
      using assms(7,9) by (simp add: AppendEntries_eq [OF p0] prev)
    then show ?thesis
      using True fok by (simp add: backtrack_def log_ok_def flip: go_len_pos)
  next
    case False
    then have ct: "?ct = le_Term (rlog f ! nat (?n - 1))"
      using termAt_in [OF fok, of "?n - 1"] n by simp
    have "\<not> consistent ?args f"
      using AppendEntries_frame(9) [OF assms(7) p0] assms(8,9) by (auto simp: prev)
    then have ne: "le_Term (rlog l ! nat (?n - 1)) \<noteq> ?ct"
      using False by (auto simp: consistent_def prev)
    have reply: "aer_ConflictTerm reply = ?ct" "aer_ConflictIndex reply = conflict_first f ?ct (?n - 1)"
      using assms(7,9) False \<open>\<not> consistent ?args f\<close> by (auto simp: AppendEntries_eq [OF p0] prev)
    have len: "nat (?n - 1) < length (rlog l)" "nat (?n - 1) < length (rlog f)"
      using n False by (auto simp: go_len_def)
    have n1: "1 < ?n"
    proof (rule ccontr)
      assume "\<not> 1 < ?n"
      then have "nat (?n - 1) = 0" by simp
      then show False using ne ct lok fok by (auto simp: log_ok_def hd_conv_nth)
    qed
    obtain r where r: "conflict_last l ?ct (lastLogIndexLocked l) = Some r"
      "r = -1 \<or> 1 \<le> r \<and> r \<le> lastLogIndexLocked l \<and> le_Term (rlog l ! nat r) = ?ct"
      using conflict_last_spec [OF lok, of "lastLogIndexLocked l" ?ct] by (auto simp: lastLogIndexLocked_def)
    have "r + 1 < ?n" if "r \<noteq> -1"
    proof -
      have "nat r < length (rlog l)" using r(2) that by (auto simp: lastLogIndexLocked_def go_len_def)
      moreover have "le_Term (rlog l ! nat r) = le_Term (rlog f ! nat (?n - 1))"
        using r(2) that ct by simp
      ultimately have "nat r < nat (?n - 1)"
        using ne ct by (intro aligned_before [OF assms(6) lok len]) simp_all
      then show ?thesis using r(2) that by auto
    qed
    moreover have "conflict_first f ?ct (?n - 1) < ?n"
      using conflict_first_bounds [of "?n - 1" f ?ct] n1 by simp
    ultimately show ?thesis
      using n1 r(1) reply fok len(2) ct log_ok_nonneg [OF fok, of "rlog f ! nat (?n - 1)"]
      by (auto simp: backtrack_def)
  qed
qed

text \<open>An accepted request leaves the leader's log as a prefix of the follower's.\<close>

lemma appended_prefix:
  assumes "raft_ok l" and "leader_ok l" and "raft_ok f" and "0 \<le> p" and "p < npeers l"
    and "matching (rlog l) (rlog f)" and "consistent (request p l) f"
  shows "take (length (rlog l)) (rlog (appended e (request p l) f)) = rlog l"
proof -
  let ?n = "nextIndex l ! nat p" and ?L = "rlog l" and ?F = "rlog f"
  note n = leader_ok_nth [OF assms(2,4,5)]
  have "?n - 1 < go_len ?F" using assms(7) by (simp add: consistent_def request_def)
  then have len: "nat (?n - 1) < length ?L" "nat (?n - 1) < length ?F"
    and nn: "Suc (nat (?n - 1)) = nat ?n" "nat (?n - 1 + 1) = nat ?n"
    using n(3,4) by (auto simp: go_len_def)
  have "le_Term (?L ! nat (?n - 1)) = le_Term (?F ! nat (?n - 1))"
    using assms(7) n termAt_in [OF raft_okD(5) [OF assms(3)], of "?n - 1"]
    by (simp add: consistent_def request_def)
  then have pre: "take (nat ?n) ?L = take (nat ?n) ?F"
    using assms(6) len nn by (metis matching_def)
  have nF: "nat ?n \<le> length ?F" using len nn by simp
  have log: "rlog (appended e (request p l) f) = merge_log (nat ?n) (drop (nat ?n) ?L) ?F"
    by (simp add: request_def)
  show ?thesis
  proof (cases "drop (nat ?n) ?L = []")
    case True
    then have "nat ?n = length ?L" using len(1) nn by simp
    then show ?thesis using pre log True by (simp add: merge_log_def)
  next
    case False
    have "merge_log (nat ?n) (drop (nat ?n) ?L) ?F = take (nat ?n) ?F @ drop (nat ?n) ?L"
    proof (rule merge_log_installs [OF False nF])
      fix k
      assume k: "nat ?n + k < length ?F" "k < length (drop (nat ?n) ?L)"
        "le_Term (?F ! (nat ?n + k)) = le_Term (drop (nat ?n) ?L ! k)"
      then have "nat ?n + k < length ?L" "le_Term (?L ! (nat ?n + k)) = le_Term (?F ! (nat ?n + k))"
        using len(1) nn by (simp_all add: less_diff_conv add.commute)
      then have "take (Suc (nat ?n + k)) ?L = take (Suc (nat ?n + k)) ?F"
        using assms(6) k(1) by (simp add: matching_def)
      then show "?F ! (nat ?n + k) = drop (nat ?n) ?L ! k"
        using k nth_take_drop_eq [of "Suc (nat ?n + k)" ?L ?F "nat ?n + k"] by simp
    qed
    then show ?thesis using log pre by (metis append_take_drop_id take_all_iff order_refl)
  qed
qed

lemma replicate_loop_converges:
  assumes "raft_ok l" and "raft_ok f" and "rstate l = leader" and "curTerm f \<le> curTerm l"
    and "0 \<le> p" and "p < npeers l" and "matching (rlog l) (rlog f)" and "aligned (rlog l) (rlog f)"
    and "nextIndex l ! nat p < int (length cs)"
  shows "\<exists>l' f'. replicate_loop cs e p (curTerm l) l f = Some (l', f') \<and>
    rlog l' = rlog l \<and> rstate l' = leader \<and> curTerm l' = curTerm l \<and>
    (set cs \<subseteq> {CallOk} \<longrightarrow> matchIndex l' ! nat p = lastLogIndexLocked l \<and> curTerm f' = curTerm l \<and>
       take (length (rlog l)) (rlog f') = rlog l)"
  using assms
proof (induction cs arbitrary: l f)
  case Nil
  have "leader_ok l" using Nil by (simp add: raft_ok_def)
  then show ?case using Nil leader_ok_nth(3) [of l p] by simp
next
  case (Cons c cs)
  note ok = Cons.prems(1,2)
  have lead: "leader_ok l" using Cons.prems by (simp add: raft_ok_def)
  note n = leader_ok_nth [OF lead Cons.prems(5,6)]
  let ?args = "request p l"
  have send: "replicate_send p (curTerm l) l = Some (l, Some ?args)"
    using replicate_send_eq [OF ok(1) Cons.prems(5,6)] Cons.prems(3) by simp
  have aok: "args_ok ?args"
    and last: "aea_PrevLogIndex ?args + go_len (aea_Entries ?args) = lastLogIndexLocked l"
    using request_ok [OF ok(1) lead Cons.prems(5,6)] by (simp_all add: lastLogIndexLocked_def)
  have p0: "0 \<le> aea_PrevLogIndex ?args" using aok by (simp add: args_ok_def)
  obtain f1 reply where ae: "AppendEntries e ?args f = Some (f1, reply)" "raft_ok f1"
    "aer_ConflictIndex reply \<le> aea_PrevLogIndex ?args"
    using AppendEntries_total [OF ok(2) aok] by blast
  note fr = AppendEntries_frame [OF ae(1) p0]
  have t: "aea_Term ?args = curTerm l" by (simp add: request_def)
  have rt: "aer_Term reply \<le> curTerm l" using fr(12,13) Cons.prems(4) t by (cases "aer_Success reply") auto
  have f1: "curTerm f1 = curTerm l" using fr(5) Cons.prems(4) t by simp
  consider (accepted) "c = CallOk" "aer_Success reply" | (rejected) "c = CallOk" "\<not> aer_Success reply" | (lost) "c \<noteq> CallOk" by blast
  then show ?case
  proof cases
    case accepted
    note c = accepted(1) and True = accepted(2)
    have "sent_ok (curTerm l) ?args l" using last by (simp add: sent_ok_def lastLogIndexLocked_def)
    then obtain c gs where
      "replicate_return e p (curTerm l) ?args reply l = Some (advanced p ?args l\<lparr>commitIndex := c\<rparr>, False, gs)"
      using replicate_return_success [OF ok(1) Cons.prems(3) refl Cons.prems(5,6) True rt p0] by metis
    moreover have "matchIndex (advanced p ?args l) ! nat p = lastLogIndexLocked l"
      using n last by (auto simp: advanced_def Let_def in_range_nat lastLogIndexLocked_def)
    moreover have "take (length (rlog l)) (rlog f1) = rlog l"
      using fr(9,11) True appended_prefix [OF ok(1) lead ok(2) Cons.prems(5-7)] by simp
    ultimately show ?thesis
      using send ae(1) f1 c Cons.prems(3) by (simp add: advanced_def Let_def)
  next
    case rejected
    note c = rejected(1) and False = rejected(2)
    let ?l = "backed p (backtrack reply l) l"
    have dec: "max 1 (backtrack reply l) < nextIndex l ! nat p"
      using backtrack_decreases [OF ok(1) lead ok(2) Cons.prems(5,6,8) ae(1) False Cons.prems(4)] .
    have "raft_ok ?l" using ok(1) lead dec n by (intro backed_ok) auto
    moreover have sel: "rstate ?l = leader" "curTerm ?l = curTerm l" "rlog ?l = rlog l" "npeers ?l = npeers l"
      "lastLogIndexLocked ?l = lastLogIndexLocked l"
      using Cons.prems(3) by (simp_all add: backed_def lastLogIndexLocked_def)
    moreover have "nextIndex ?l ! nat p < int (length cs)"
      using dec n Cons.prems(9) by (simp add: backed_def in_range_nat)
    moreover have "rlog f1 = rlog f" using fr(10) False by simp
    ultimately have "\<exists>l' f'. replicate_loop cs e p (curTerm ?l) ?l f1 = Some (l', f') \<and>
        rlog l' = rlog ?l \<and> rstate l' = leader \<and> curTerm l' = curTerm ?l \<and>
        (set cs \<subseteq> {CallOk} \<longrightarrow> matchIndex l' ! nat p = lastLogIndexLocked ?l \<and> curTerm f' = curTerm ?l \<and>
           take (length (rlog ?l)) (rlog f') = rlog ?l)"
      using Cons.prems ae(2) f1 by (intro Cons.IH) auto
    then show ?thesis
      using send ae(1) sel c replicate_return_fail [OF ok(1) Cons.prems(3) refl Cons.prems(5,6) False rt]
      by simp
  next
    case lost
    then show ?thesis using send ae(1) Cons.prems(3) by (cases c) simp_all
  qed
qed

end
