(* ===== verification/Raft_Properties.thy ===== *)
theory Raft_Properties
  imports Raft_Commit Raft_Converge
begin

text \<open>
  The properties of the Raft implementation, stated over the model of its methods and of
  the cluster, with runs that show them at work and runs that show where they end.
\<close>

section \<open>Runs\<close>

text \<open>The clock at second \<open>t\<close>, with a random draw of 0.\<close>

definition at_sec :: "int \<Rightarrow> env" where
  "at_sec t = \<lparr>now = t * 1000000000, draw = 0\<rparr>"

definition booted :: "nat \<Rightarrow> nat cluster" where
  "booted n = boot n (\<lambda>i. at_sec 0)"

text \<open>
  Server 0 leads term 1 and replicates a command; server 1 restarts and takes over in
  term 2 while server 0 does not know yet.
\<close>

definition handover :: "nat event list" where
  "handover =
     [LifeRead 0, LifeAct 0 (at_sec 1), Deliver 0 (at_sec 1), Run 1 (at_sec 1),
      Client 0 (Some 10), Run 3 (at_sec 1), Deliver 4 (at_sec 1), Run 4 (at_sec 1), Apply 0,
      Restart 1 (at_sec 2), LifeRead 1, LifeAct 1 (at_sec 3), Deliver 8 (at_sec 3), Run 8 (at_sec 3)]"

definition handed_over :: "nat cluster" where
  "handed_over = the (exec ostep handover (booted 3))"

text \<open>Server 1 takes a command, replicates it to server 2, and applies both.\<close>

definition takeover :: "nat event list" where
  "takeover =
     [Client 1 (Some 7), Run 11 (at_sec 3), Deliver 11 (at_sec 3), Run 11 (at_sec 3), Run 11 (at_sec 3),
      Deliver 11 (at_sec 3), Run 11 (at_sec 3), Apply 1, Apply 1]"

definition taken_over :: "nat cluster" where
  "taken_over = the (exec ostep takeover handed_over)"

lemma timely_cluster: "reachable is_boot timely_step s \<Longrightarrow> reachable is_boot cluster_step s"
  by (erule reachable_mono) (auto simp: timely_step_def cluster_step_def tstep_def split: if_splits)

lemma ordered_timely: "reachable is_boot ordered_step s \<Longrightarrow> reachable is_boot timely_step s"
  by (erule reachable_mono) (auto simp: ordered_step_def timely_step_def ostep_def split: if_splits)

lemma handed_over_run: "exec ostep handover (booted 3) = Some handed_over"
proof -
  have "\<not> Option.is_none (exec ostep handover (booted 3))" by code_simp
  then show ?thesis by (auto simp: handed_over_def Option.is_none_def)
qed

lemma taken_over_run: "ordered_step\<^sup>*\<^sup>* handed_over taken_over"
proof -
  have "\<not> Option.is_none (exec ostep takeover handed_over)" by code_simp
  then have "exec ostep takeover handed_over = Some taken_over" by (auto simp: taken_over_def Option.is_none_def)
  then show ?thesis by (rule exec_steps) (auto simp: ordered_step_def)
qed

lemma reach_handed_over:
  "reachable is_boot timely_step handed_over" "reachable is_boot cluster_step handed_over" "reachable is_boot ordered_step handed_over"
proof -
  have "is_boot (booted 3)" unfolding is_boot_def booted_def by (intro exI [of _ 3]) auto
  then have "reachable is_boot ordered_step (booted 3)" by (rule reach_init)
  from exec_reachable [OF handed_over_run this] show o: "reachable is_boot ordered_step handed_over"
    by (auto simp: ordered_step_def)
  then show "reachable is_boot timely_step handed_over" "reachable is_boot cluster_step handed_over"
    using ordered_timely timely_cluster by blast+
qed

section \<open>The cluster\<close>

text \<open>C1: Election safety. In every run in which replies are handled in time (a granted vote is
  counted in the term it was given for, and a heartbeat reply that is newer than its heartbeat
  is newer than the server too), with any interleaving, message loss, reordering and restarts,
  no two servers lead the same term.\<close>

theorem election_safety:
  assumes "reachable is_boot timely_step s"
  shows "distinct (map curTerm (filter (\<lambda>rf. rstate rf = leader) (servers s)))"
proof -
  have ok: "election_ok s" using timely.reachable_inv [OF assms] by simp
  show ?thesis
    by (rule distinct_map_filter_nth) (rule election_ok_unique [OF ok])
qed

theorem election_safety_witness:
  "length (filter (\<lambda>rf. rstate rf = leader) (servers handed_over)) = 2 \<and>
   distinct (map curTerm (filter (\<lambda>rf. rstate rf = leader) (servers handed_over)))"
proof
  show "length (filter (\<lambda>rf. rstate rf = leader) (servers handed_over)) = 2" by code_simp
qed (rule election_safety [OF reach_handed_over(1)])

text \<open>C2: Log matching. In every run in which replies are handled in time, two logs with an entry of
  the same term at the same index are identical up to that index, whatever requests are delayed,
  reordered, repeated after a restart or lost.\<close>

theorem log_matching:
  assumes "reachable is_boot timely_step s" and "i < length (servers s)" and "j < length (servers s)"
    and "k < length (rlog (servers s ! i))" and "k < length (rlog (servers s ! j))"
    and "le_Term (rlog (servers s ! i) ! k) = le_Term (rlog (servers s ! j) ! k)"
  shows "take (Suc k) (rlog (servers s ! i)) = take (Suc k) (rlog (servers s ! j))"
proof -
  have "cluster_ok s" "match_ok s" using matched.reachable_inv [OF assms(1)] by blast+
  then show ?thesis using logs_match cluster_okD(4) assms(2-6) by blast
qed

theorem log_matching_witness:
  "take 2 (rlog (servers handed_over ! 0)) = take 2 (rlog (servers handed_over ! 1)) \<and>
   rlog (servers handed_over ! 0) ! 1 = \<lparr>le_Term = 1, le_Command = Some 10\<rparr>"
proof
  have "0 < length (servers handed_over)" "1 < length (servers handed_over)"
    "1 < length (rlog (servers handed_over ! 0))" "1 < length (rlog (servers handed_over ! 1))"
    "le_Term (rlog (servers handed_over ! 0) ! 1) = le_Term (rlog (servers handed_over ! 1) ! 1)" by code_simp+
  from log_matching [OF reach_handed_over(1) this]
  show "take 2 (rlog (servers handed_over ! 0)) = take 2 (rlog (servers handed_over ! 1))" by (simp add: numeral_2_eq_2)
  show "rlog (servers handed_over ! 0) ! 1 = \<lparr>le_Term = 1, le_Command = Some 10\<rparr>" by code_simp
qed

text \<open>C3: State machine safety. In every run in which replies are handled in time and no request
  reaches a follower that holds later entries of the same leader, with any interleaving, message
  loss and restarts, no two servers ever deliver different commands at an index to their services,
  at the same time or at different times, before or after restarts.\<close>

theorem state_machine_safety:
  assumes "reachable is_boot ordered_step s" and "ordered_step\<^sup>*\<^sup>* s s'"
    and "v < length (servers s)" and "m \<in> set (applyCh (servers s ! v))"
    and "w < length (servers s')" and "m' \<in> set (applyCh (servers s' ! w))" and "am_Index m' = am_Index m"
  shows "am_Command m' = am_Command m"
proof -
  have "(am_Index m, am_Command m') \<in> outputs s'" using outputs_in [OF assms(5,6)] assms(7) by simp
  from applied_agree [OF assms(1,2) outputs_in [OF assms(3,4)] this] show ?thesis by simp
qed

theorem state_machine_safety_witness:
  "map am_Command (applyCh (servers handed_over ! 0)) = [Some 10] \<and> am_Command (hd (applyCh (servers taken_over ! 1))) = Some 10 \<and>
   map am_Index (applyCh (servers taken_over ! 1)) = [1, 2]"
proof (intro conjI)
  have l: "0 < length (servers handed_over)" "1 < length (servers taken_over)" by code_simp+
  have a: "applyCh (servers handed_over ! 0) = [hd (applyCh (servers handed_over ! 0))]"
    "am_Command (hd (applyCh (servers handed_over ! 0))) = Some 10"
    "am_Index (hd (applyCh (servers taken_over ! 1))) = am_Index (hd (applyCh (servers handed_over ! 0)))"
    "applyCh (servers taken_over ! 1) \<noteq> []" by code_simp+
  have "hd (applyCh (servers handed_over ! 0)) \<in> set (applyCh (servers handed_over ! 0))" by (subst (2) a(1)) simp
  from state_machine_safety [OF reach_handed_over(3) taken_over_run l(1) this l(2) hd_in_set [OF a(4)] a(3)]
  show "am_Command (hd (applyCh (servers taken_over ! 1))) = Some 10" using a(2) by simp
  show "map am_Command (applyCh (servers handed_over ! 0)) = [Some 10]" "map am_Index (applyCh (servers taken_over ! 1)) = [1, 2]"
    by code_simp+
qed

text \<open>C4: Leader completeness. In the same runs, once a server has committed an index, every leader of its
  term or of a later term has, then and for ever, the same entry at that index.\<close>

theorem leader_completeness:
  assumes "reachable is_boot ordered_step s" and "ordered_step\<^sup>*\<^sup>* s s'"
    and "v < length (servers s)" and "0 < j" and "j \<le> commitIndex (servers s ! v)"
    and "c < length (servers s')" and "rstate (servers s' ! c) = leader"
    and "curTerm (servers s ! v) \<le> curTerm (servers s' ! c)"
  shows "j < go_len (rlog (servers s' ! c)) \<and> rlog (servers s' ! c) ! nat j = rlog (servers s ! v) ! nat j"
  using assms by (rule committed_in_leader)

theorem leader_completeness_witness:
  "rlog (servers taken_over ! 1) ! 1 = rlog (servers handed_over ! 0) ! 1 \<and>
   map rstate (servers taken_over) = [leader, leader, follower] \<and> map curTerm (servers taken_over) = [1, 2, 2]"
proof (intro conjI)
  have f: "0 < length (servers handed_over)" "1 \<le> commitIndex (servers handed_over ! 0)" "1 < length (servers taken_over)"
    "rstate (servers taken_over ! 1) = leader" "curTerm (servers handed_over ! 0) \<le> curTerm (servers taken_over ! 1)"
    by code_simp+
  from leader_completeness [OF reach_handed_over(3) taken_over_run f(1) zero_less_one f(2-5)]
  show "rlog (servers taken_over ! 1) ! 1 = rlog (servers handed_over ! 0) ! 1" by simp
  show "map rstate (servers taken_over) = [leader, leader, follower]" "map curTerm (servers taken_over) = [1, 2, 2]" by code_simp+
qed

text \<open>C5: No critical section panics. In every reachable state of the cluster, with no assumption
  on the order of replies, all indexing and slicing of logs and of per-peer tables has been in
  range, and every server satisfies its invariant.\<close>

theorem no_panic:
  assumes "reachable is_boot cluster_step s"
  shows "\<not> panicked s \<and> list_all raft_ok (servers s)"
  using cluster.reachable_inv [OF assms]
  by (auto simp: cluster_ok_def server_ok_def list_all_length)

theorem no_panic_witness: "\<not> panicked handed_over \<and> list_all raft_ok (servers handed_over)"
  by (rule no_panic [OF reach_handed_over(2)])

text \<open>C6: In every step of the cluster the term of a server does not decrease, and a server that
  stays the leader of a term only appends to its log.\<close>

theorem leader_append_only:
  assumes "reachable is_boot cluster_step s" and "cstep ev s = Some s'"
  shows "list_all2 (\<lambda>rf rf'. curTerm rf \<le> curTerm rf' \<and>
      (rstate rf = leader \<and> rstate rf' = leader \<and> curTerm rf = curTerm rf' \<longrightarrow>
        prefix (rlog rf) (rlog rf'))) (servers s) (servers s')"
  using servers_step_cstep [OF cluster.reachable_inv [OF assms(1)] assms(2)]
  by (auto simp: servers_step_def srv_step_def list_all2_conv_all_nth)

theorem leader_append_only_witness:
  "prefix (rlog (servers handed_over ! 1))
     (rlog (servers (the (cstep (Client 1 (Some 7)) handed_over)) ! 1)) \<and>
   length (rlog (servers (the (cstep (Client 1 (Some 7)) handed_over)) ! 1)) = 3"
proof
  let ?s = "the (cstep (Client 1 (Some 7)) handed_over)"
  have "\<not> Option.is_none (cstep (Client 1 (Some 7)) handed_over)" by code_simp
  then have "cstep (Client 1 (Some 7)) handed_over = Some ?s" by (auto simp: Option.is_none_def)
  note step = leader_append_only [OF reach_handed_over(2) this]
  have "1 < length (servers handed_over)" "rstate (servers handed_over ! 1) = leader"
    "rstate (servers ?s ! 1) = leader" "curTerm (servers handed_over ! 1) = curTerm (servers ?s ! 1)"
    by code_simp+
  then show "prefix (rlog (servers handed_over ! 1)) (rlog (servers ?s ! 1))"
    using list_all2_nthD [OF step, of 1] by blast
  show "length (rlog (servers ?s ! 1)) = 3" by code_simp
qed

text \<open>C7: Crash recovery. A server of any reachable state that is made again from its persister
  has the term, the vote and the log it had.\<close>

theorem crash_recovery:
  assumes "reachable is_boot cluster_step s" and "rf \<in> set (servers s)"
    and "rf' = Make e (npeers rf) (me rf) (Copy (persister rf))"
  shows "curTerm rf' = curTerm rf \<and> votedFor rf' = votedFor rf \<and> rlog rf' = rlog rf \<and>
    rstate rf' = follower \<and> raft_ok rf'"
proof -
  have "raft_ok rf"
    using cluster.reachable_inv [OF assms(1)] assms(2)
    by (auto simp: cluster_ok_def server_ok_def in_set_conv_nth)
  then show ?thesis unfolding assms(3) by (simp add: restart_sel raft_ok_restart)
qed

theorem crash_recovery_witness:
  "rlog (Make (at_sec 9) 3 1 (Copy (persister (servers handed_over ! 1)))) = rlog (servers handed_over ! 1) \<and>
   votedFor (servers handed_over ! 1) = 1 \<and> length (rlog (servers handed_over ! 1)) = 2"
proof (intro conjI)
  have *: "npeers (servers handed_over ! 1) = 3" "me (servers handed_over ! 1) = 1"
    "1 < length (servers handed_over)"
    by code_simp+
  then have "servers handed_over ! 1 \<in> set (servers handed_over)" by simp
  from crash_recovery [OF reach_handed_over(2) this refl, of "at_sec 9"] *
  show "rlog (Make (at_sec 9) 3 1 (Copy (persister (servers handed_over ! 1)))) = rlog (servers handed_over ! 1)"
    by simp
  show "votedFor (servers handed_over ! 1) = 1" "length (rlog (servers handed_over ! 1)) = 2"
    by code_simp+
qed

text \<open>C8: Since it was made, a server has delivered the messages with the indices \<open>1\<close> to
  \<open>lastApplied\<close> to its service, each once and in this order.\<close>

theorem applied_in_order:
  assumes "reachable is_boot cluster_step s"
  shows "list_all (\<lambda>rf. map am_Index (applyCh rf) = [1..lastApplied rf]) (servers s)"
  using cluster.reachable_inv [OF assms]
  by (auto simp: cluster_ok_def server_ok_def list_all_length raft_ok_def applied_ok_def)

theorem applied_in_order_witness:
  "list_all (\<lambda>rf. map am_Index (applyCh rf) = [1..lastApplied rf]) (servers handed_over) \<and>
   map lastApplied (servers handed_over) = [1, 0, 0]"
proof
  show "map lastApplied (servers handed_over) = [1, 0, 0]" by code_simp
qed (rule applied_in_order [OF reach_handed_over(2)])

lemma handed_over_ok: "i < 3 \<Longrightarrow> raft_ok (servers handed_over ! i)"
proof -
  have "length (servers handed_over) = 3" by code_simp
  then show "i < 3 \<Longrightarrow> raft_ok (servers handed_over ! i)"
    using cluster_okD(1) [OF cluster.reachable_inv [OF reach_handed_over(2)]] by simp
qed

section \<open>Where the safety properties end\<close>



text \<open>The votes of several replies, each with the term of its election, counted one after the other.\<close>

fun count_votes :: "env \<Rightarrow> int \<Rightarrow> (RequestVoteReply \<times> int) list \<Rightarrow> 'c Raft \<Rightarrow> 'c Raft result" where
  "count_votes e n [] rf = Some rf"
| "count_votes e n ((r, t) # rs) rf = do { (rf, gs) \<leftarrow> VoteReturn e r n t rf; count_votes e n rs rf }"

lemma count_stale:
  "\<forall>(r, t) \<in> set rs. rvr_Vote r \<and> rvr_ElectionTerm r \<le> curTerm rf \<and> t < curTerm rf \<Longrightarrow>
     count_votes e n rs rf = Some (rf\<lparr>voteCount := voteCount rf + int (length rs)\<rparr>)"
  by (induction rs arbitrary: rf) (auto simp: VoteReturn_def Let_def ac_simps)

text \<open>C20: Votes of earlier elections elect. Whatever granted votes of earlier elections a candidate gets,
  each is added to its count, and the next vote of the current election makes it the leader exactly
  when they are more than half together (\<^verbatim>\<open>StartElection\<close> does not compare the term of a vote with that of
  the count), although only one of them may be of the current term.\<close>

theorem stale_votes_elect:
  assumes "raft_ok rf" and "rstate rf = candidate"
    and "\<forall>(r, t) \<in> set rs. rvr_Vote r \<and> rvr_ElectionTerm r \<le> curTerm rf \<and> t < curTerm rf"
    and "rvr_Vote r" and "rvr_ElectionTerm r \<le> curTerm rf"
  shows "\<exists>rf'. count_votes e n (rs @ [(r, curTerm rf)]) rf = Some rf' \<and> curTerm rf' = curTerm rf \<and>
    (rstate rf' = leader \<longleftrightarrow> voteCount rf + int (length rs) + 1 > n div 2)"
proof -
  have split: "count_votes e n (rs @ qs) rf = (case count_votes e n rs rf of None \<Rightarrow> None | Some rf \<Rightarrow> count_votes e n qs rf)" for qs
    by (induction rs arbitrary: rf) (auto split: option.splits bind_splits)
  let ?rf = "rf\<lparr>voteCount := voteCount rf + int (length rs)\<rparr>"
  have ok: "raft_ok ?rf" using assms(1) by (simp add: raft_ok_voteCount)
  then obtain rf' gs where v: "VoteReturn e r n (curTerm rf) ?rf = Some (rf', gs)" using VoteReturn_total by blast
  then have "curTerm rf' = curTerm rf \<and> (rstate rf' = leader \<longleftrightarrow> voteCount rf + int (length rs) + 1 > n div 2)"
    using ok by (cases rule: VoteReturn_cases) (use assms(2,4,5) in auto)
  then show ?thesis using v count_stale [OF assms(3), of e n] by (simp add: split)
qed

text \<open>A candidate of term 2 among five servers with only its own vote.\<close>

definition two_elections :: "nat event list" where
  "two_elections = [LifeRead 0, LifeAct 0 (at_sec 1), LifeRead 0, LifeAct 0 (at_sec 2)]"

definition five_servers :: "nat cluster" where
  "five_servers = the (exec cstep two_elections (booted 5))"

lemma five_candidate_ok: "raft_ok (servers five_servers ! 0)"
proof -
  have "\<not> Option.is_none (exec cstep two_elections (booted 5))" by code_simp
  then have run: "exec cstep two_elections (booted 5) = Some five_servers" by (auto simp: five_servers_def Option.is_none_def)
  have "is_boot (booted 5)" unfolding is_boot_def booted_def by (intro exI [of _ 5]) auto
  then have "reachable is_boot cluster_step five_servers"
    by (intro exec_reachable [OF run reach_init]) (auto simp: cluster_step_def)
  moreover have "0 < length (servers five_servers)" by code_simp
  ultimately show ?thesis using cluster_okD(1) [OF cluster.reachable_inv] by blast
qed

theorem stale_votes_elect_witness:
  "\<exists>rf'. count_votes (at_sec 3) 5 [(\<lparr>rvr_ElectionTerm = 1, rvr_Vote = True\<rparr>, 1), (\<lparr>rvr_ElectionTerm = 2, rvr_Vote = True\<rparr>, 2)] (servers five_servers ! 0) =
     Some rf' \<and> rstate rf' = leader \<and> curTerm rf' = 2"
proof -
  let ?old = "(\<lparr>rvr_ElectionTerm = 1, rvr_Vote = True\<rparr>, 1 :: int)" and ?new = "\<lparr>rvr_ElectionTerm = 2, rvr_Vote = True\<rparr>"
  have "rstate (servers five_servers ! 0) = candidate" "curTerm (servers five_servers ! 0) = 2" "voteCount (servers five_servers ! 0) = 1" by code_simp+
  then show ?thesis using stale_votes_elect [OF five_candidate_ok, of "[?old]" ?new "at_sec 3" 5] by auto
qed




section \<open>Where the safety properties end, in runs\<close>

text \<open>The reply of a heartbeat of an old term makes a server forget its vote in the current
  term (\<^verbatim>\<open>StartHeartbeat\<close> compares the reply with the term of the heartbeat and not with that
  of the server): three servers can elect two leaders of term 2.\<close>

lemma stale_heartbeat_two_leaders:
  "map_option (\<lambda>s. map (\<lambda>rf. (rstate rf, curTerm rf)) (servers s))
     (exec cstep [LifeRead 0, LifeAct 0 (at_sec 1), Deliver 0 (at_sec 1), Run 1 (at_sec 1),
        Deliver 0 (at_sec 1), Run 1 (at_sec 1), LifeRead 2, LifeAct 2 (at_sec 2),
        Deliver 3 (at_sec 2), Deliver 3 (at_sec 2), Run 5 (at_sec 2), Run 4 (at_sec 2),
        LifeRead 1, LifeAct 1 (at_sec 3), Deliver 7 (at_sec 3), Run 8 (at_sec 3)] (booted 3)) =
   Some [(follower, 2), (leader, 2), (leader, 2)]"
  by code_simp

text \<open>A vote that was granted for an earlier election counts in the current one
  (\<^verbatim>\<open>StartElection\<close> does not compare the term of the reply): five servers can elect two
  leaders of term 2.\<close>

lemma stale_vote_two_leaders:
  "map_option (\<lambda>s. map (\<lambda>rf. (rstate rf, curTerm rf)) (servers s))
     (exec cstep [LifeRead 0, LifeAct 0 (at_sec 1), Deliver 0 (at_sec 1), Deliver 0 (at_sec 1),
        LifeRead 0, LifeAct 0 (at_sec 2), Run 2 (at_sec 2), Run 2 (at_sec 2),
        Deliver 2 (at_sec 2), Run 5 (at_sec 2), LifeRead 2, LifeAct 2 (at_sec 3),
        Deliver 9 (at_sec 3), Deliver 9 (at_sec 3), Run 9 (at_sec 3), Run 9 (at_sec 3)] (booted 5)) =
   Some [(leader, 2), (follower, 2), (leader, 2), (follower, 2), (follower, 2)]"
  by code_simp

text \<open>A delayed request whose entries the follower already has makes it drop what follows
  them (\<^verbatim>\<open>syncLocked\<close> truncates although every entry matched): a committed entry is lost, and
  two servers apply different commands at index 2, even when all replies are handled in time.\<close>

lemma truncation_loses_committed:
  "map_option (\<lambda>s. map (\<lambda>rf. map am_Command (applyCh rf)) (servers s))
     (exec tstep [LifeRead 0, LifeAct 0 (at_sec 1), Deliver 0 (at_sec 1), Run 1 (at_sec 1),
        Client 0 (Some 10), Run 3 (at_sec 1), Client 0 (Some 20), Run 5 (at_sec 1),
        Deliver 6 (at_sec 1), Run 6 (at_sec 1), Apply 0, Apply 0, Deliver 4 (at_sec 1),
        LifeRead 1, LifeAct 1 (at_sec 2), Deliver 10 (at_sec 2), Run 10 (at_sec 2),
        Client 1 (Some 30), Run 13 (at_sec 2), Deliver 13 (at_sec 2), Run 13 (at_sec 2),
        Run 13 (at_sec 2), Deliver 13 (at_sec 2), Run 13 (at_sec 2), Apply 1, Apply 1] (booted 3)) =
   Some [[Some 10, Some 20], [Some 10, Some 30], []]"
  by code_simp

section \<open>The handlers\<close>

text \<open>C35: A call of \<^verbatim>\<open>RequestVote\<close> returns. The vote is granted exactly when the candidate's
  term is not older, the voter has no other vote in that term and the candidate's log is at
  least as up to date; the voter then has the candidate's term and the vote. Its term becomes
  the maximum of both, its log stays, and a call of an older term changes nothing.\<close>

theorem RequestVote_spec:
  assumes "raft_ok rf" and "0 \<le> rva_CandidateID args" and "rva_CandidateID args < npeers rf"
  shows "\<exists>rf' reply. RequestVote e args rf = Some (rf', reply) \<and> raft_ok rf' \<and> rlog rf' = rlog rf \<and>
    curTerm rf' = max (rva_ElectionTerm args) (curTerm rf) \<and>
    (rvr_Vote reply \<longleftrightarrow> curTerm rf \<le> rva_ElectionTerm args \<and>
       (curTerm rf = rva_ElectionTerm args \<longrightarrow> votedFor rf = -1 \<or> votedFor rf = rva_CandidateID args) \<and>
       (rva_LastLogTerm args > le_Term (last (rlog rf)) \<or>
        rva_LastLogTerm args = le_Term (last (rlog rf)) \<and> rva_LastLogIndex args \<ge> go_len (rlog rf) - 1)) \<and>
    (rvr_Vote reply \<longrightarrow> votedFor rf' = rva_CandidateID args \<and> curTerm rf' = rva_ElectionTerm args) \<and>
    (rva_ElectionTerm args < curTerm rf \<longrightarrow> rf' = rf)"
proof -
  obtain rf' reply where r: "RequestVote e args rf = Some (rf', reply)" "raft_ok rf'"
    using RequestVote_total [OF assms] by blast
  note fr = RequestVote_frame [OF r(1) raft_okD(3) [OF assms(1)]]
  have "rf' = rf" if "rva_ElectionTerm args < curTerm rf"
    using r(1) that RequestVote_eq [OF raft_okD(3) [OF assms(1)]] by simp
  then show ?thesis
    using r fr by (auto simp: grants_def up_to_date_def lastLogIndexLocked_def)
qed

theorem RequestVote_spec_witness:
  "\<exists>rf' reply. RequestVote (at_sec 4) \<lparr>rva_ElectionTerm = 5, rva_CandidateID = 2,
      rva_LastLogIndex = 1, rva_LastLogTerm = 1\<rparr> (servers handed_over ! 0) = Some (rf', reply) \<and>
    rvr_Vote reply \<and> votedFor rf' = 2 \<and> curTerm rf' = 5"
proof -
  let ?args = "\<lparr>rva_ElectionTerm = 5, rva_CandidateID = 2, rva_LastLogIndex = 1, rva_LastLogTerm = 1\<rparr>"
  have "npeers (servers handed_over ! 0) = 3" "curTerm (servers handed_over ! 0) = 1"
    "le_Term (last (rlog (servers handed_over ! 0))) = 1" "go_len (rlog (servers handed_over ! 0)) = 2"
    by code_simp+
  then show ?thesis
    using RequestVote_spec [OF handed_over_ok [of 0], of ?args "at_sec 4"] by fastforce
qed

text \<open>C36: A call of \<^verbatim>\<open>AppendEntries\<close> with a request as leaders build them returns. It succeeds
  exactly when the request is not of an older term and the follower has an entry of the given
  term at the previous index. On success the follower keeps its log up to there and has the
  terms of the sent entries after it; otherwise its log and commit index stay.\<close>

theorem AppendEntries_spec:
  assumes "raft_ok rf" and "args_ok args"
  shows "\<exists>rf' reply. AppendEntries e args rf = Some (rf', reply) \<and> raft_ok rf' \<and>
    curTerm rf' = max (aea_Term args) (curTerm rf) \<and>
    (aer_Success reply \<longleftrightarrow> curTerm rf \<le> aea_Term args \<and> aea_PrevLogIndex args < go_len (rlog rf) \<and>
       le_Term (rlog rf ! nat (aea_PrevLogIndex args)) = aea_PrevLogTerm args) \<and>
    (aer_Success reply \<longrightarrow>
       take (nat (aea_PrevLogIndex args + 1)) (rlog rf') = take (nat (aea_PrevLogIndex args + 1)) (rlog rf) \<and>
       (if aea_Entries args = [] then rlog rf' = rlog rf
        else map le_Term (drop (nat (aea_PrevLogIndex args + 1)) (rlog rf')) = map le_Term (aea_Entries args))) \<and>
    (\<not> aer_Success reply \<longrightarrow> rlog rf' = rlog rf \<and> commitIndex rf' = commitIndex rf)"
proof -
  let ?p = "nat (aea_PrevLogIndex args + 1)" and ?es = "aea_Entries args"
  have p0: "0 \<le> aea_PrevLogIndex args" using assms(2) by (simp add: args_ok_def)
  obtain rf' reply where r: "AppendEntries e args rf = Some (rf', reply)" "raft_ok rf'"
    using AppendEntries_total [OF assms] by blast
  note fr = AppendEntries_frame [OF r(1) p0]
  have con: "consistent args rf \<longleftrightarrow> aea_PrevLogIndex args < go_len (rlog rf) \<and>
      le_Term (rlog rf ! nat (aea_PrevLogIndex args)) = aea_PrevLogTerm args"
    using termAt_in [OF raft_okD(5) [OF assms(1)] p0] by (auto simp: consistent_def)
  have "take ?p (rlog rf') = take ?p (rlog rf) \<and>
      (if ?es = [] then rlog rf' = rlog rf else map le_Term (drop ?p (rlog rf')) = map le_Term ?es)"
    if "aer_Success reply"
  proof -
    have log: "rlog rf' = merge_log ?p ?es (rlog rf)" using fr(11) [OF that] by simp
    have le: "?p \<le> length (rlog rf)" using fr(9) that con p0 by (auto simp: go_len_def)
    have "drop ?p (map le_Term (rlog rf')) = map le_Term ?es" if "?es \<noteq> []"
      unfolding log merge_log_terms [OF that le] using le by simp
    then show ?thesis using log merge_log_prefix [OF order_refl le] by (auto simp: drop_map merge_log_def)
  qed
  with r fr con show ?thesis by (intro exI [of _ rf'] exI [of _ reply]) auto
qed

theorem AppendEntries_spec_witness:
  "\<exists>rf' reply. AppendEntries (at_sec 4) \<lparr>aea_Term = 2, aea_LeaderID = 1, aea_PrevLogIndex = 1,
      aea_PrevLogTerm = 1, aea_Entries = [\<lparr>le_Term = 2, le_Command = Some 7\<rparr>], aea_LeaderCommit = 1\<rparr>
      (servers handed_over ! 0) = Some (rf', reply) \<and>
    aer_Success reply \<and> curTerm rf' = 2 \<and> map le_Term (drop 2 (rlog rf')) = [2]"
proof -
  let ?args = "\<lparr>aea_Term = 2, aea_LeaderID = 1, aea_PrevLogIndex = 1, aea_PrevLogTerm = 1,
    aea_Entries = [\<lparr>le_Term = 2, le_Command = Some 7\<rparr>], aea_LeaderCommit = 1\<rparr>"
  have "curTerm (servers handed_over ! 0) = 1" "go_len (rlog (servers handed_over ! 0)) = 2"
    "le_Term (rlog (servers handed_over ! 0) ! 1) = 1"
    by code_simp+
  moreover have "args_ok ?args" by (simp add: args_ok_def)
  ultimately show ?thesis
    using AppendEntries_spec [OF handed_over_ok [of 0], of ?args "at_sec 4"] by fastforce
qed

text \<open>The merge loop of \<^verbatim>\<open>syncLocked\<close> computes the merge of logs: the entries up to the start
  index and those that agree by term are kept, and the rest of the sent entries follow.\<close>

lemma syncLocked_merges:
  assumes "0 \<le> s" and "s \<le> go_len (rlog rf)" and "es \<noteq> []"
  shows "syncLocked s es rf =
    (let k = matched_len (drop (nat s) (rlog rf)) es
     in Some (rf\<lparr>rlog := take (nat s + k) (rlog rf) @ drop k es\<rparr>))"
  using syncLocked_eq [OF assms(1,2), of es] assms(3) by (simp add: merge_log_def Let_def)

text \<open>C37: The commit rule. \<^verbatim>\<open>tryAdvanceCommitLocked\<close> returns, never lowers the commit index,
  advances it only to an entry of the leader's own term that a majority is known to hold, and
  leaves no such entry uncommitted.\<close>

theorem commit_rule:
  assumes "raft_ok rf" and "rstate rf = leader"
  shows "\<exists>c gs. tryAdvanceCommitLocked rf = Some (rf\<lparr>commitIndex := c\<rparr>, gs) \<and>
    (c = commitIndex rf \<or> commitIndex rf < c \<and> in_range (rlog rf) c \<and>
       le_Term (rlog rf ! nat c) = curTerm rf \<and> majority (npeers rf) (holders rf c)) \<and>
    (\<forall>k. c < k \<longrightarrow> \<not> (in_range (rlog rf) k \<and> le_Term (rlog rf ! nat k) = curTerm rf \<and>
       majority (npeers rf) (holders rf k)))"
proof -
  have "leader_ok rf" using assms by (simp add: raft_ok_def)
  from tryAdvance_total [OF assms(1) this] show ?thesis
    by (auto simp: commit_ready_def in_range_def) metis+
qed

theorem commit_rule_witness:
  "\<exists>c gs. tryAdvanceCommitLocked ((servers handed_over ! 0)\<lparr>commitIndex := 0\<rparr>) =
      Some ((servers handed_over ! 0)\<lparr>commitIndex := c\<rparr>, gs) \<and> c = 1 \<and>
      majority 3 (holders ((servers handed_over ! 0)\<lparr>commitIndex := 0\<rparr>) c)"
proof -
  let ?rf = "(servers handed_over ! 0)\<lparr>commitIndex := 0\<rparr>"
  have "raft_ok ?rf" using handed_over_ok [of 0] by (simp add: raft_ok_commit)
  moreover have f: "rstate ?rf = leader" "npeers ?rf = 3"
    "map_option (\<lambda>(rf, gs). commitIndex rf) (tryAdvanceCommitLocked ?rf) = Some 1"
    by code_simp+
  ultimately obtain c gs where c: "tryAdvanceCommitLocked ?rf = Some (?rf\<lparr>commitIndex := c\<rparr>, gs)"
    "c = commitIndex ?rf \<or> commitIndex ?rf < c \<and> majority (npeers ?rf) (holders ?rf c)"
    using commit_rule [of ?rf] by blast
  then show ?thesis using f by auto
qed

text \<open>The hint of a rejected request. When the follower has an entry of another term at the
  previous index, the reply names that term and the first index of its run in the follower's log.\<close>

lemma conflict_hint:
  assumes "AppendEntries e args rf = Some (rf', reply)" and "log_ok (rlog rf)" and "\<not> aer_Success reply"
    and "curTerm rf \<le> aea_Term args" and "0 \<le> aea_PrevLogIndex args"
    and "aea_PrevLogIndex args < go_len (rlog rf)"
  shows "aer_ConflictTerm reply = le_Term (rlog rf ! nat (aea_PrevLogIndex args)) \<and>
    0 \<le> aer_ConflictIndex reply \<and> aer_ConflictIndex reply \<le> aea_PrevLogIndex args \<and>
    (\<forall>k. aer_ConflictIndex reply \<le> k \<and> k \<le> aea_PrevLogIndex args \<longrightarrow>
       le_Term (rlog rf ! nat k) = aer_ConflictTerm reply) \<and>
    (0 < aer_ConflictIndex reply \<longrightarrow>
       le_Term (rlog rf ! nat (aer_ConflictIndex reply - 1)) \<noteq> aer_ConflictTerm reply)"
proof -
  let ?p = "aea_PrevLogIndex args" let ?ct = "termAtLocked ?p rf"
  have tm: "termAtLocked k rf = le_Term (rlog rf ! nat k)" if "0 \<le> k" "k \<le> ?p" for k
    using that assms(2,6) by (simp add: termAt_in)
  have reply: "aer_ConflictTerm reply = ?ct" "aer_ConflictIndex reply = conflict_first rf ?ct ?p"
    using assms(1,3-6) by (auto simp: AppendEntries_eq split: if_splits)
  note b = conflict_first_bounds [OF assms(5), of rf ?ct]
  let ?ci = "conflict_first rf ?ct ?p"
  have "le_Term (rlog rf ! nat k) = ?ct" if "?ci \<le> k" "k \<le> ?p" for k
    using conflict_first_least [OF refl that] tm [of k] that b by linarith
  moreover have "le_Term (rlog rf ! nat (?ci - 1)) \<noteq> ?ct" if "0 < ?ci"
    using conflict_first_stop [OF that] tm [of "?ci - 1"] that b by simp
  moreover have "?ct = le_Term (rlog rf ! nat ?p)" using assms(5) by (intro tm) simp_all
  ultimately show ?thesis
    unfolding reply using b by blast
qed

text \<open>C38: The loop of \<^verbatim>\<open>replicateTo\<close> ends, and with answers it succeeds. Run alone against a follower whose term is
  not newer and whose log matches and is aligned with the leader's, more rounds than the leader's
  next index for it are always enough for the loop to return, whichever calls fail, with the leader
  and its log as they were; when no call fails, the leader's whole log is then at the front of the
  follower's and the match index is at the leader's last entry.\<close>

theorem replicate_converges:
  assumes "raft_ok l" and "raft_ok f" and "rstate l = leader" and "curTerm f \<le> curTerm l"
    and "0 \<le> p" and "p < npeers l" and "matching (rlog l) (rlog f)" and "aligned (rlog l) (rlog f)"
    and "nextIndex l ! nat p < int (length cs)"
  shows "\<exists>l' f'. replicate_loop cs e p (curTerm l) l f = Some (l', f') \<and>
    rlog l' = rlog l \<and> rstate l' = leader \<and> curTerm l' = curTerm l \<and>
    (set cs \<subseteq> {CallOk} \<longrightarrow> matchIndex l' ! nat p = lastLogIndexLocked l \<and> prefix (rlog l) (rlog f'))"
proof -
  obtain l' f' where r: "replicate_loop cs e p (curTerm l) l f = Some (l', f')" "rlog l' = rlog l"
    "rstate l' = leader" "curTerm l' = curTerm l"
    "set cs \<subseteq> {CallOk} \<longrightarrow> matchIndex l' ! nat p = lastLogIndexLocked l \<and> take (length (rlog l)) (rlog f') = rlog l"
    using replicate_loop_converges [OF assms] by blast
  have "prefix (rlog l) (rlog f')" if "set cs \<subseteq> {CallOk}" using r(5) that take_is_prefix by metis
  with r show ?thesis by blast
qed

theorem replicate_converges_witness:
  "\<exists>l' f'. replicate_loop [CallOk, CallOk, CallOk, CallOk] (at_sec 4) 2 2 (servers handed_over ! 1) (servers handed_over ! 2) = Some (l', f') \<and>
     prefix (rlog (servers handed_over ! 1)) (rlog f')"
proof -
  let ?l = "servers handed_over ! 1" and ?f = "servers handed_over ! 2"
  have logs: "rlog ?l = [\<lparr>le_Term = 0, le_Command = None\<rparr>, \<lparr>le_Term = 1, le_Command = Some 10\<rparr>]"
    "rlog ?f = [\<lparr>le_Term = 0, le_Command = None\<rparr>]"
    by code_simp+
  have "matching (rlog ?l) (rlog ?f)" "aligned (rlog ?l) (rlog ?f)"
    unfolding logs by (auto simp: matching_def aligned_def starts_at_def less_Suc_eq)
  moreover have "rstate ?l = leader" "curTerm ?f = 2" "curTerm ?l = 2" "npeers ?l = 3" "nextIndex ?l ! nat 2 = 2"
    by code_simp+
  ultimately show ?thesis
    using replicate_converges [OF handed_over_ok [of 1] handed_over_ok [of 2], of 2 "[CallOk, CallOk, CallOk, CallOk]" "at_sec 4"] by auto
qed

end
