(* ===== verification/Strconv.thy ===== *)
theory Strconv
  imports Prelude
begin

text \<open>
  The part of Go's \<^verbatim>\<open>strconv\<close> and \<^verbatim>\<open>strings\<close> that the programs use: decimal output and
  input of integers, splitting at a separator and trimming of space. Strings are lists of
  characters with codes below 256.
\<close>

section \<open>Numbers\<close>

definition digit :: "nat \<Rightarrow> char" where
  "digit d = char_of (48 + d)"

fun digits :: "nat \<Rightarrow> string" where
  "digits n = (if n < 10 then [digit n] else digits (n div 10) @ [digit (n mod 10)])"

declare digits.simps [simp del]

definition Itoa :: "int \<Rightarrow> string" where
  "Itoa i = (if i < 0 then CHR ''-'' # digits (nat (- i)) else digits (nat i))"

text \<open>
  \<^verbatim>\<open>ParseUint\<close> in base 10 with 64 bits: \<open>Inl True\<close> is a range error, \<open>Inl False\<close> a syntax
  error. The loop stops at the first digit that overflows.
\<close>

definition maxUint64 :: nat where
  "maxUint64 = 2 ^ 64 - 1"

definition digit_val :: "char \<Rightarrow> nat option" where
  "digit_val c = (let n = of_char c in if 48 \<le> n \<and> n \<le> 57 then Some (n - 48) else None)"

fun parse_uint :: "nat \<Rightarrow> string \<Rightarrow> bool + nat" where
  "parse_uint n [] = Inr n"
| "parse_uint n (c # cs) =
     (case digit_val c of
        None \<Rightarrow> Inl False
      | Some d \<Rightarrow>
          if n * 10 + d > maxUint64 then Inl True else parse_uint (n * 10 + d) cs)"

definition ParseUint :: "string \<Rightarrow> bool + nat" where
  "ParseUint s = (if s = [] then Inl False else parse_uint 0 s)"

text \<open>The value that \<^verbatim>\<open>Atoi\<close> returns, also where it returns an error.\<close>

definition Atoi :: "string \<Rightarrow> int" where
  "Atoi s =
     (let neg = (s \<noteq> [] \<and> hd s = CHR ''-'');
          rest = (if s \<noteq> [] \<and> (hd s = CHR ''-'' \<or> hd s = CHR ''+'') then tl s else s)
      in case ParseUint rest of
        Inl False \<Rightarrow> 0
      | Inl True \<Rightarrow> if neg then - (2 ^ 63) else 2 ^ 63 - 1
      | Inr n \<Rightarrow>
          if \<not> neg \<and> int n \<ge> 2 ^ 63 then 2 ^ 63 - 1
          else if neg \<and> int n > 2 ^ 63 then - (2 ^ 63)
          else if neg then - int n else int n)"

section \<open>Splitting and trimming\<close>

text \<open>\<^verbatim>\<open>strings.Split(s, sep)\<close> for a separator of one character.\<close>

fun Split :: "string \<Rightarrow> char \<Rightarrow> string list" where
  "Split [] sep = [[]]"
| "Split (c # cs) sep =
     (if c = sep then [] # Split cs sep
      else (case Split cs sep of [] \<Rightarrow> [[c]] | p # ps \<Rightarrow> (c # p) # ps))"

text \<open>\<^verbatim>\<open>unicode.IsSpace\<close> below code 256.\<close>

definition IsSpace :: "char \<Rightarrow> bool" where
  "IsSpace c \<longleftrightarrow> of_char c \<in> {9, 10, 11, 12, 13, 32, 133, 160 :: nat}"

definition TrimSpace :: "string \<Rightarrow> string" where
  "TrimSpace s = rev (dropWhile IsSpace (rev (dropWhile IsSpace s)))"

section \<open>Decimal digits\<close>

lemma digit_val_digit [simp]: "d < 10 \<Longrightarrow> digit_val (digit d) = Some d"
  by (simp add: digit_val_def digit_def Let_def)

lemma digits_not_Nil [simp]: "digits n \<noteq> []"
  by (subst digits.simps) auto

lemma digits_chars: "c \<in> set (digits n) \<Longrightarrow> \<exists>d < 10. c = digit d"
proof (induction n rule: digits.induct)
  case (1 n)
  have "\<exists>d < 10. digit (n mod 10) = digit d" by (rule exI [of _ "n mod 10"]) simp
  with 1 show ?case by (auto simp: digits.simps [of n] split: if_splits)
qed

lemma digit_code: "d < 10 \<Longrightarrow> (of_char (digit d) :: nat) = 48 + d"
  by (simp add: digit_def)

lemma digit_inj:
  assumes "digit d = digit e" and "d < 10" and "e < 10"
  shows "d = e"
proof -
  have "(of_char (digit d) :: nat) = of_char (digit e)" using assms(1) by (rule arg_cong)
  then show ?thesis unfolding digit_code [OF assms(2)] digit_code [OF assms(3)] by simp
qed

lemma digit_not_sign: "d < 10 \<Longrightarrow> digit d \<noteq> CHR ''-''" "d < 10 \<Longrightarrow> digit d \<noteq> CHR ''+''"
proof -
  have "(of_char CHR ''-'' :: nat) = 45" "(of_char CHR ''+'' :: nat) = 43" by simp_all
  then show "d < 10 \<Longrightarrow> digit d \<noteq> CHR ''-''" "d < 10 \<Longrightarrow> digit d \<noteq> CHR ''+''"
    using digit_code [of d] by force+
qed

lemma parse_uint_append:
  "parse_uint n (xs @ ys) = (case parse_uint n xs of Inl e \<Rightarrow> Inl e | Inr m \<Rightarrow> parse_uint m ys)"
  by (induction xs arbitrary: n) (auto split: option.splits)

lemma parse_digits: "n \<le> maxUint64 \<Longrightarrow> parse_uint 0 (digits n) = Inr n"
proof (induction n rule: digits.induct)
  case (1 n)
  show ?case
  proof (cases "n < 10")
    case True
    then show ?thesis using 1(2) by (simp add: digits.simps [of n])
  next
    case False
    have "n div 10 * 10 + n mod 10 = n" by simp
    then show ?thesis using 1 False by (simp add: digits.simps [of n] parse_uint_append)
  qed
qed

lemma digits_inj: "digits m = digits n \<Longrightarrow> m = n"
proof (induction m arbitrary: n rule: digits.induct)
  case (1 m)
  have last: "last (digits k) = digit (k mod 10)" "butlast (digits k) = (if k < 10 then [] else digits (k div 10))" for k
    by (simp_all add: digits.simps [of k])
  have "digit (m mod 10) = digit (n mod 10)"
    using arg_cong [OF 1(2), of last] unfolding last .
  then have md: "m mod 10 = n mod 10" by (rule digit_inj) simp_all
  have bl: "(if m < 10 then [] else digits (m div 10)) = (if n < 10 then [] else digits (n div 10))"
    using arg_cong [OF 1(2), of butlast] unfolding last .
  have "m div 10 = n div 10"
  proof (cases "m < 10")
    case True
    then show ?thesis using bl digits_not_Nil [THEN not_sym] by (cases "n < 10") simp_all
  next
    case False
    then show ?thesis using bl 1(1) [OF False, of "n div 10"] by (cases "n < 10") simp_all
  qed
  with md show ?case by (metis div_mult_mod_eq)
qed

lemma digits_no_minus: "hd (digits n) \<noteq> CHR ''-''" "hd (digits n) \<noteq> CHR ''+''"
proof -
  obtain d where "d < 10" "hd (digits n) = digit d" using digits_chars [of "hd (digits n)" n] by auto
  then show "hd (digits n) \<noteq> CHR ''-''" "hd (digits n) \<noteq> CHR ''+''"
    using digit_not_sign by metis+
qed

lemma Itoa_inj: "Itoa i = Itoa j \<Longrightarrow> i = j"
  using digits_no_minus [of "nat i"] digits_no_minus [of "nat j"]
  by (auto simp: Itoa_def dest!: digits_inj split: if_splits) (metis list.sel(1))+

lemma Itoa_chars: "c \<in> set (Itoa i) \<Longrightarrow> c = CHR ''-'' \<or> (\<exists>d < 10. c = digit d)"
  by (auto simp: Itoa_def dest: digits_chars split: if_splits)

lemma Atoi_Itoa:
  assumes "- (2 ^ 63) \<le> i" and "i < 2 ^ 63"
  shows "Atoi (Itoa i) = i"
proof (cases "i < 0")
  case True
  then have "nat (- i) \<le> maxUint64" using assms by (simp add: maxUint64_def)
  then show ?thesis
    using True assms parse_digits by (simp add: Atoi_def Itoa_def ParseUint_def Let_def)
next
  case False
  then have "nat i \<le> maxUint64" using assms by (simp add: maxUint64_def)
  then show ?thesis
    using False assms parse_digits digits_no_minus
    by (simp add: Atoi_def Itoa_def ParseUint_def Let_def)
qed

section \<open>Pieces\<close>

lemma Split_not_Nil [simp]: "Split s sep \<noteq> []"
  by (induction s) (auto split: list.splits)

lemma Split_pieces: "p \<in> set (Split s sep) \<Longrightarrow> sep \<notin> set p \<and> set p \<subseteq> set s"
  by (induction s arbitrary: p) (fastforce split: list.splits if_splits)+

lemma Split_none: "sep \<notin> set s \<Longrightarrow> Split s sep = [s]"
  by (induction s) auto

lemma Split_append: "sep \<notin> set p \<Longrightarrow> Split (p @ sep # s) sep = p # Split s sep"
  by (induction p) auto

fun Join :: "string list \<Rightarrow> char \<Rightarrow> string" where
  "Join [] sep = []"
| "Join [p] sep = p"
| "Join (p # q # ps) sep = p @ sep # Join (q # ps) sep"

lemma Split_Join: "ps \<noteq> [] \<Longrightarrow> (\<And>p. p \<in> set ps \<Longrightarrow> sep \<notin> set p) \<Longrightarrow> Split (Join ps sep) sep = ps"
  by (induction ps sep rule: Join.induct) (auto simp: Split_none Split_append)

lemma Join_Split: "Join (Split s sep) sep = s"
proof (induction s)
  case (Cons c cs)
  then show ?case by (cases "Split cs sep"; cases "tl (Split cs sep)") auto
qed simp

lemma dropWhile_id: "(s \<noteq> [] \<Longrightarrow> \<not> P (hd s)) \<Longrightarrow> dropWhile P s = s"
  by (cases s) auto

lemma TrimSpace_id:
  "(s \<noteq> [] \<Longrightarrow> \<not> IsSpace (hd s) \<and> \<not> IsSpace (last s)) \<Longrightarrow> TrimSpace s = s"
  by (cases "s = []") (simp_all add: TrimSpace_def dropWhile_id hd_rev)

lemma TrimSpace_ends:
  assumes "TrimSpace s \<noteq> []"
  shows "\<not> IsSpace (hd (TrimSpace s))" "\<not> IsSpace (last (TrimSpace s))"
proof -
  let ?t = "dropWhile IsSpace (rev (dropWhile IsSpace s))"
  have ne: "?t \<noteq> []" using assms by (simp add: TrimSpace_def)
  then show "\<not> IsSpace (last (TrimSpace s))"
    by (simp add: TrimSpace_def last_rev hd_dropWhile)
  have d: "dropWhile IsSpace s \<noteq> []" using ne by (metis dropWhile.simps(1) rev.simps(1))
  then have "last ?t = hd (dropWhile IsSpace s)"
    using ne by (metis last_rev last_appendR takeWhile_dropWhile_id)
  then show "\<not> IsSpace (hd (TrimSpace s))"
    using hd_dropWhile [OF d] by (simp add: TrimSpace_def hd_rev)
qed

lemma TrimSpace_set: "set (TrimSpace s) \<subseteq> set s"
proof -
  have d: "set (dropWhile P t) \<subseteq> set t" for P and t :: string by (auto dest: set_dropWhileD)
  have "set (TrimSpace s) \<subseteq> set (dropWhile IsSpace s)"
    using d [of IsSpace "rev (dropWhile IsSpace s)"] by (simp add: TrimSpace_def)
  also have "\<dots> \<subseteq> set s" by (rule d)
  finally show ?thesis .
qed

end
