(* ===== verification/Labrpc.thy ===== *)
theory Labrpc
  imports Strconv
begin

text \<open>
  The RPC library of the Raft tests (\<^verbatim>\<open>src/labrpc/labrpc.go\<close>): services, servers, the network
  with its client ends, and the parts of \<^verbatim>\<open>ProcessReq\<close> between its blocking operations.
  A server is known by its address, an index of a heap, because the code compares pointers.
  The objects that handle calls are one state \<open>'s\<close>; a method of a receiver is a function on it.
\<close>

section \<open>Values\<close>

text \<open>Names of ends and servers are values of any type; nil is the zero value.\<close>

datatype iface = INil | IStr string | IInt int

type_synonym bytes = string

text \<open>
  Types of the language, by name, as \<^verbatim>\<open>reflect.TypeOf\<close> gives them; a nil interface has none.
  \<^verbatim>\<open>encoding/gob\<close> for arguments and replies: \<^verbatim>\<open>Encode\<close> panics on a nil pointer and otherwise leaves some
  bytes, also after an error. The decoder of arguments yields what is in a fresh variable of the
  given type afterwards, also after an error; the decoder of a reply writes into the reply of the
  caller, and None is an error.
\<close>

type_synonym gotype = string

record ('a, 'r) codecs =
  TypeOf :: "'a \<Rightarrow> gotype option"
  nilPointer :: "'a \<Rightarrow> bool"
  encArgs :: "'a \<Rightarrow> bytes"
  decArgs :: "gotype \<Rightarrow> bytes \<Rightarrow> 'a"
  encReply :: "'r \<Rightarrow> bytes"
  decReply :: "bytes \<Rightarrow> 'r \<Rightarrow> 'r option"

record reqMsg =
  rq_endname :: iface
  rq_svcMeth :: string
  rq_argsType :: "gotype option"
  rq_args :: bytes

record replyMsg =
  rp_ok :: bool
  rp_reply :: bytes

definition failed :: replyMsg where
  "failed = \<lparr>rp_ok = False, rp_reply = []\<rparr>"

text \<open>
  How the program stops: a slice out of range, a nil pointer, a nil pointer given to gob, an error
  of reflection, a panic of a handler, or \<^verbatim>\<open>log.Fatalf\<close>.
\<close>

datatype rpc_stop = SlicePanic | NilPanic | GobPanic | ReflectPanic | HandlerPanic | LogFatal

section \<open>Services\<close>

text \<open>
  What reflection tells of a method of the receiver: its package path, the numbers of its
  parameters and results, the types that can be assigned to the second parameter, whether the third
  one is a pointer, the zero value of the reply, and the function itself, bound to the receiver;
  None is a panic of the function.
\<close>

record ('a, 'r, 's) Method =
  PkgPath :: string
  NumIn :: int
  In1 :: "gotype \<Rightarrow> bool"
  In2Ptr :: bool
  NumOut :: int
  zeroReply :: 'r
  Func :: "'a \<Rightarrow> 'r \<Rightarrow> 's \<Rightarrow> ('r \<times> 's) option"

record ('a, 'r, 's) Service =
  svc_name :: string
  methods :: "string \<rightharpoonup> ('a, 'r, 's) Method"

definition suitable :: "('a, 'r, 's) Method \<Rightarrow> bool" where
  "suitable m \<longleftrightarrow> \<not> (PkgPath m \<noteq> [] \<or> NumIn m \<noteq> 3 \<or> \<not> In2Ptr m \<or> NumOut m \<noteq> 0)"

definition MakeService :: "string \<Rightarrow> (string \<times> ('a, 'r, 's) Method) list \<Rightarrow> ('a, 'r, 's) Service" where
  "MakeService nm ms = \<lparr>svc_name = nm,
     methods = fold (\<lambda>(n, m) f. if suitable m then f(n \<mapsto> m) else f) ms Map.empty\<rparr>"

text \<open>\<^verbatim>\<open>reflect.New\<close> panics without a type, and \<^verbatim>\<open>Call\<close> when the argument cannot be assigned to the parameter.\<close>

definition Service_dispatch ::
  "('a, 'r) codecs \<Rightarrow> string \<Rightarrow> reqMsg \<Rightarrow> ('a, 'r, 's) Service \<Rightarrow> 's \<Rightarrow> rpc_stop + ('r \<times> replyMsg \<times> 's)" where
  "Service_dispatch g methname req svc st =
     (case methods svc methname of
        None \<Rightarrow> Inl LogFatal
      | Some m \<Rightarrow>
          (case rq_argsType req of
             None \<Rightarrow> Inl ReflectPanic
           | Some T \<Rightarrow>
               let a = decArgs g T (rq_args req)
               in if \<not> In1 m T then Inl ReflectPanic
                  else (case Func m a (zeroReply m) st of
                          None \<Rightarrow> Inl HandlerPanic
                        | Some (r, st) \<Rightarrow> Inr (r, \<lparr>rp_ok = True, rp_reply = encReply g r\<rparr>, st))))"

section \<open>Servers\<close>

record ('a, 'r, 's) Server =
  services :: "string \<rightharpoonup> ('a, 'r, 's) Service"
  rcount :: int

definition MakeServer :: "('a, 'r, 's) Server" where
  "MakeServer = \<lparr>services = Map.empty, rcount = 0\<rparr>"

definition AddService :: "('a, 'r, 's) Service \<Rightarrow> ('a, 'r, 's) Server \<Rightarrow> ('a, 'r, 's) Server" where
  "AddService svc rs = rs\<lparr>services := (services rs)(svc_name svc \<mapsto> svc)\<rparr>"

text \<open>\<^verbatim>\<open>strings.LastIndex\<close> for one character.\<close>

fun LastIndex :: "string \<Rightarrow> char \<Rightarrow> int" where
  "LastIndex [] c = -1"
| "LastIndex (x # xs) c =
     (let i = LastIndex xs c in if i \<ge> 0 then i + 1 else if x = c then 0 else -1)"

text \<open>The reply value is returned beside its encoding, for the history of the network.\<close>

definition Server_dispatch ::
  "('a, 'r) codecs \<Rightarrow> reqMsg \<Rightarrow> ('a, 'r, 's) Server \<Rightarrow> 's \<Rightarrow>
     rpc_stop + (('a, 'r, 's) Server \<times> 'r \<times> replyMsg \<times> 's)" where
  "Server_dispatch g req rs st =
     (let rs = rs\<lparr>rcount := rcount rs + 1\<rparr>;
          dot = LastIndex (rq_svcMeth req) CHR ''.''
      in case (go_upto (rq_svcMeth req) dot, go_from (rq_svcMeth req) (dot + 1)) of
        (Some serviceName, Some methodName) \<Rightarrow>
          (case services rs serviceName of
             None \<Rightarrow> Inl LogFatal
           | Some svc \<Rightarrow>
               (case Service_dispatch g methodName req svc st of
                  Inl e \<Rightarrow> Inl e
                | Inr (r, rep, st) \<Rightarrow> Inr (rs, r, rep, st)))
      | _ \<Rightarrow> Inl SlicePanic)"

section \<open>The network\<close>

text \<open>Reading a missing key of a map yields the zero value.\<close>

record Network =
  reliable :: bool
  longDelays :: bool
  longReordering :: bool
  ends :: "iface \<Rightarrow> bool"
  enabled :: "iface \<Rightarrow> bool"
  nservers :: "iface \<Rightarrow> nat option"
  connections :: "iface \<Rightarrow> iface"

definition MakeNetwork :: Network where
  "MakeNetwork = \<lparr>reliable = True, longDelays = False, longReordering = False, ends = (\<lambda>_. False),
     enabled = (\<lambda>_. False), nservers = (\<lambda>_. None), connections = (\<lambda>_. INil)\<rparr>"

definition Reliable :: "bool \<Rightarrow> Network \<Rightarrow> Network" where
  "Reliable yes rn = rn\<lparr>reliable := yes\<rparr>"

definition LongReordering :: "bool \<Rightarrow> Network \<Rightarrow> Network" where
  "LongReordering yes rn = rn\<lparr>longReordering := yes\<rparr>"

definition LongDelays :: "bool \<Rightarrow> Network \<Rightarrow> Network" where
  "LongDelays yes rn = rn\<lparr>longDelays := yes\<rparr>"

definition MakeEnd :: "iface \<Rightarrow> Network \<Rightarrow> rpc_stop + Network" where
  "MakeEnd e rn =
     (if ends rn e then Inl LogFatal
      else Inr (rn\<lparr>ends := (ends rn)(e := True), enabled := (enabled rn)(e := False),
        connections := (connections rn)(e := INil)\<rparr>))"

definition AddServer :: "iface \<Rightarrow> nat \<Rightarrow> Network \<Rightarrow> Network" where
  "AddServer servername rs rn = rn\<lparr>nservers := (nservers rn)(servername := Some rs)\<rparr>"

definition DeleteServer :: "iface \<Rightarrow> Network \<Rightarrow> Network" where
  "DeleteServer servername rn = rn\<lparr>nservers := (nservers rn)(servername := None)\<rparr>"

definition Connect :: "iface \<Rightarrow> iface \<Rightarrow> Network \<Rightarrow> Network" where
  "Connect e servername rn = rn\<lparr>connections := (connections rn)(e := servername)\<rparr>"

definition Enable :: "iface \<Rightarrow> bool \<Rightarrow> Network \<Rightarrow> Network" where
  "Enable e b rn = rn\<lparr>enabled := (enabled rn)(e := b)\<rparr>"

text \<open>The count of a server that was never added, or was deleted, reads through a nil pointer.\<close>

definition GetCount :: "iface \<Rightarrow> ('a, 'r, 's) Server list \<Rightarrow> Network \<Rightarrow> rpc_stop + int" where
  "GetCount servername heap rn =
     (case nservers rn servername of None \<Rightarrow> Inl NilPanic | Some p \<Rightarrow> Inr (rcount (heap ! p)))"

definition ReadEndnameInfo :: "iface \<Rightarrow> Network \<Rightarrow> bool \<times> iface \<times> nat option \<times> bool \<times> bool" where
  "ReadEndnameInfo e rn =
     (let servername = connections rn e;
          server = (if servername \<noteq> INil then nservers rn servername else None)
      in (enabled rn e, servername, server, reliable rn, longReordering rn))"

definition IsServerDead :: "iface \<Rightarrow> iface \<Rightarrow> nat \<Rightarrow> Network \<Rightarrow> bool" where
  "IsServerDead e servername server rn \<longleftrightarrow> enabled rn e = False \<or> nservers rn servername \<noteq> Some server"

section \<open>Processing a request\<close>

text \<open>
  What \<^verbatim>\<open>ProcessReq\<close> does before it waits: None answers the request with a failure, otherwise the
  call of the handler is started and the values read are kept. \<open>lose\<close> is the outcome of the
  random choice.
\<close>

record pinfo =
  pi_servername :: iface
  pi_server :: nat
  pi_reliable :: bool
  pi_longreordering :: bool

definition ProcessReq_start :: "bool \<Rightarrow> reqMsg \<Rightarrow> Network \<Rightarrow> pinfo option" where
  "ProcessReq_start lose req rn =
     (let (en, servername, server, rel, longre) = ReadEndnameInfo (rq_endname req) rn
      in case server of
        None \<Rightarrow> None
      | Some p \<Rightarrow>
          if en \<and> servername \<noteq> INil
          then if \<not> rel \<and> lose then None
            else Some \<lparr>pi_servername = servername, pi_server = p, pi_reliable = rel, pi_longreordering = longre\<rparr>
          else None)"

text \<open>The wait loop after 100 ms without a reply: does it stop?\<close>

definition ProcessReq_poll :: "reqMsg \<Rightarrow> pinfo \<Rightarrow> Network \<Rightarrow> bool" where
  "ProcessReq_poll req i rn = IsServerDead (rq_endname req) (pi_servername i) (pi_server i) rn"

text \<open>
  The answer once the wait loop has stopped with the reply of the handler, if any. A reply that
  is delayed for reordering is the same reply.
\<close>

definition ProcessReq_answer :: "bool \<Rightarrow> reqMsg \<Rightarrow> pinfo \<Rightarrow> replyMsg option \<Rightarrow> Network \<Rightarrow> replyMsg" where
  "ProcessReq_answer lose req i rep rn =
     (let serverDead = IsServerDead (rq_endname req) (pi_servername i) (pi_server i) rn
      in case rep of
        None \<Rightarrow> failed
      | Some r \<Rightarrow> if serverDead then failed else if \<not> pi_reliable i \<and> lose then failed else r)"

text \<open>The client: the request it sends, and what \<^verbatim>\<open>Call\<close> returns with the answer.\<close>

definition Call_request :: "('a, 'r) codecs \<Rightarrow> iface \<Rightarrow> string \<Rightarrow> 'a \<Rightarrow> rpc_stop + reqMsg" where
  "Call_request g e sm a =
     (if nilPointer g a then Inl GobPanic
      else Inr \<lparr>rq_endname = e, rq_svcMeth = sm, rq_argsType = TypeOf g a, rq_args = encArgs g a\<rparr>)"

definition Call_return :: "('a, 'r) codecs \<Rightarrow> replyMsg \<Rightarrow> 'r \<Rightarrow> rpc_stop + (bool \<times> 'r)" where
  "Call_return g rep r =
     (if rp_ok rep
      then (case decReply g (rp_reply rep) r of None \<Rightarrow> Inl LogFatal | Some r \<Rightarrow> Inr (True, r))
      else Inr (False, r))"

section \<open>Names of methods\<close>

lemma LastIndex_range: "-1 \<le> LastIndex s c \<and> LastIndex s c < go_len s"
  by (induction s c rule: LastIndex.induct) (auto simp: Let_def)

lemma LastIndex_none: "c \<notin> set s \<Longrightarrow> LastIndex s c = -1"
  by (induction s) auto

lemma LastIndex_append: "c \<notin> set t \<Longrightarrow> LastIndex (s @ c # t) c = go_len s"
  by (induction s) (simp_all add: LastIndex_none)

lemma LastIndex_neg: "LastIndex s c < 0 \<longleftrightarrow> c \<notin> set s"
proof (induction s)
  case (Cons x xs)
  then show ?case using LastIndex_range [of xs c] by (auto simp: Let_def)
qed simp

text \<open>A method name \<open>Service.Method\<close> is taken apart at its last dot.\<close>

lemma split_name:
  assumes "CHR ''.'' \<notin> set m"
  shows "go_upto (s @ CHR ''.'' # m) (LastIndex (s @ CHR ''.'' # m) CHR ''.'') = Some s"
    "go_from (s @ CHR ''.'' # m) (LastIndex (s @ CHR ''.'' # m) CHR ''.'' + 1) = Some m"
  unfolding LastIndex_append [OF assms] by (simp_all add: go_upto_def go_from_def nat_add_distrib)

lemma no_dot: "CHR ''.'' \<notin> set sm \<Longrightarrow> go_upto sm (LastIndex sm CHR ''.'') = None"
  by (simp add: LastIndex_none go_upto_def)

end
