(* ===== verification/Raft_Harness.thy ===== *)
theory Raft_Harness
  imports Raft_Safety Labrpc "HOL-Library.Word" "HOL-Library.AList"
begin

text \<open>
  The tester of the Raft library (\<^verbatim>\<open>src/raft/config.go\<close>) on the network of
  \<^verbatim>\<open>src/labrpc/labrpc.go\<close>: starting, crashing, connecting and disconnecting servers, the readers of
  the apply channels, and the checks. None is a stop of the program by a panic or
  \<^verbatim>\<open>log.Fatalf\<close>. What the servers do meanwhile is an argument of the checks.
\<close>

section \<open>Names of ends\<close>

text \<open>\<^verbatim>\<open>base64.URLEncoding\<close>\<close>

definition b64_char :: "nat \<Rightarrow> char" where
  "b64_char k = (''ABCDEFGHIJKLMNOPQRSTUVWXYZabcdefghijklmnopqrstuvwxyz0123456789-_'') ! k"

fun b64 :: "nat list \<Rightarrow> string" where
  "b64 [] = []"
| "b64 [a] = [b64_char (a div 4), b64_char (a mod 4 * 16), CHR ''='', CHR ''='']"
| "b64 [a, b] = [b64_char (a div 4), b64_char (a mod 4 * 16 + b div 16), b64_char (b mod 16 * 4), CHR ''='']"
| "b64 (a # b # c # xs) =
     [b64_char (a div 4), b64_char (a mod 4 * 16 + b div 16), b64_char (b mod 16 * 4 + c div 64), b64_char (c mod 64)]
     @ b64 xs"

text \<open>The bytes read from \<^verbatim>\<open>crypto/rand\<close> are an argument.\<close>

definition randstring :: "8 word list \<Rightarrow> int \<Rightarrow> string result" where
  "randstring b n = go_upto (b64 (map unat b)) n"

section \<open>State\<close>

text \<open>
  Commands are values of any type; the tests use integers. \<open>saved\<close> is the content of the persister
  of a server that does not run; a running server shares its persister with the tester.
  \<open>nsrv\<close> counts the \<^verbatim>\<open>labrpc\<close> servers made so far.
\<close>

type_synonym rf = "iface Raft"

record config =
  cnet :: Network
  cn :: int
  cdone :: int
  rafts :: "rf option list"
  applyErr :: "string list"
  connected :: "bool list"
  saved :: "iface gob Persister option list"
  endnames :: "string list option list"
  logs :: "(int \<rightharpoonup> int) list"
  nsrv :: nat

definition persister_of :: "int \<Rightarrow> config \<Rightarrow> iface gob Persister option result" where
  "persister_of i cfg =
     do {
       r \<leftarrow> go_index (rafts cfg) i;
       case r of None \<Rightarrow> go_index (saved cfg) i | Some rf \<Rightarrow> Some (Some (persister rf))
     }"

section \<open>Connecting\<close>

definition end_at :: "int \<Rightarrow> int \<Rightarrow> config \<Rightarrow> string result" where
  "end_at i j cfg =
     do {
       row \<leftarrow> go_index (endnames cfg) i;
       case row of None \<Rightarrow> None | Some r \<Rightarrow> go_index r j
     }"

definition set_enabled :: "bool \<Rightarrow> string \<Rightarrow> config \<Rightarrow> config" where
  "set_enabled b e cfg = cfg\<lparr>cnet := Enable (IStr e) b (cnet cfg)\<rparr>"

text \<open>The two loops of \<^verbatim>\<open>connect\<close> differ in the ends they enable.\<close>

fun connect_loop :: "(int \<Rightarrow> config \<Rightarrow> string result) \<Rightarrow> int list \<Rightarrow> config \<Rightarrow> config result" where
  "connect_loop nm [] cfg = Some cfg"
| "connect_loop nm (j # js) cfg =
     do {
       c \<leftarrow> go_index (connected cfg) j;
       cfg \<leftarrow> (if c then do { e \<leftarrow> nm j cfg; Some (set_enabled True e cfg) } else Some cfg);
       connect_loop nm js cfg
     }"

definition connect :: "int \<Rightarrow> config \<Rightarrow> config result" where
  "connect i cfg =
     do {
       cs \<leftarrow> go_update (connected cfg) i True;
       let cfg = cfg\<lparr>connected := cs\<rparr>;
       cfg \<leftarrow> connect_loop (\<lambda>j. end_at i j) (go_range (cn cfg)) cfg;
       connect_loop (\<lambda>j. end_at j i) (go_range (cn cfg)) cfg
     }"

text \<open>The loops of \<^verbatim>\<open>disconnect\<close> skip servers that have no ends yet; \<open>src j\<close> and \<open>dst j\<close> are the
  indices of the end.\<close>

fun disconnect_loop :: "(int \<Rightarrow> int) \<Rightarrow> (int \<Rightarrow> int) \<Rightarrow> int list \<Rightarrow> config \<Rightarrow> config result" where
  "disconnect_loop src dst [] cfg = Some cfg"
| "disconnect_loop src dst (j # js) cfg =
     do {
       row \<leftarrow> go_index (endnames cfg) (src j);
       cfg \<leftarrow> (case row of
           None \<Rightarrow> Some cfg
         | Some r \<Rightarrow> do { e \<leftarrow> go_index r (dst j); Some (set_enabled False e cfg) });
       disconnect_loop src dst js cfg
     }"

definition disconnect :: "int \<Rightarrow> config \<Rightarrow> config result" where
  "disconnect i cfg =
     do {
       cs \<leftarrow> go_update (connected cfg) i False;
       let cfg = cfg\<lparr>connected := cs\<rparr>;
       cfg \<leftarrow> disconnect_loop (\<lambda>j. i) (\<lambda>j. j) (go_range (cn cfg)) cfg;
       disconnect_loop (\<lambda>j. j) (\<lambda>j. i) (go_range (cn cfg)) cfg
     }"

section \<open>Crashing and starting\<close>

definition crash1 :: "int \<Rightarrow> config \<Rightarrow> config result" where
  "crash1 i cfg =
     do {
       cfg \<leftarrow> disconnect i cfg;
       let cfg = cfg\<lparr>cnet := DeleteServer (IInt i) (cnet cfg)\<rparr>;
       p \<leftarrow> persister_of i cfg;
       sv \<leftarrow> go_update (saved cfg) i (map_option Copy p);
       rs \<leftarrow> go_update (rafts cfg) i None;
       let cfg = cfg\<lparr>saved := sv, rafts := rs\<rparr>;
       p \<leftarrow> go_index (saved cfg) i;
       sv \<leftarrow> go_update (saved cfg) i (map_option (\<lambda>p. SaveRaftState (ReadRaftState p) MakePersister) p);
       Some (cfg\<lparr>saved := sv\<rparr>)
     }"

text \<open>The names of the ends of one server, from the bytes drawn for each.\<close>

fun new_names :: "(int \<Rightarrow> 8 word list) \<Rightarrow> int list \<Rightarrow> string list result" where
  "new_names bs [] = Some []"
| "new_names bs (j # js) = do { s \<leftarrow> randstring (bs j) 20; ss \<leftarrow> new_names bs js; Some (s # ss) }"

fun make_ends :: "int \<Rightarrow> string list \<Rightarrow> Network \<Rightarrow> Network result" where
  "make_ends j [] rn = Some rn"
| "make_ends j (e # es) rn =
     (case MakeEnd (IStr e) rn of
        Inl x \<Rightarrow> None
      | Inr rn \<Rightarrow> make_ends (j + 1) es (Connect (IStr e) (IInt j) rn))"

text \<open>\<open>bs\<close> are the random bytes for the name of each end; \<open>ev\<close> is what \<^verbatim>\<open>Make\<close> draws.\<close>

definition start1 :: "env \<Rightarrow> (int \<Rightarrow> 8 word list) \<Rightarrow> int \<Rightarrow> config \<Rightarrow> config result" where
  "start1 ev bs i cfg =
     do {
       cfg \<leftarrow> crash1 i cfg;
       names \<leftarrow> new_names bs (go_range (cn cfg));
       es \<leftarrow> go_update (endnames cfg) i (Some names);
       rn \<leftarrow> make_ends 0 names (cnet cfg);
       let cfg = cfg\<lparr>endnames := es, cnet := rn\<rparr>;
       p \<leftarrow> go_index (saved cfg) i;
       let p = (case p of None \<Rightarrow> MakePersister | Some p \<Rightarrow> Copy p);
       sv \<leftarrow> go_update (saved cfg) i (Some p);
       rs \<leftarrow> go_update (rafts cfg) i (Some (Make ev (cn cfg) i p));
       Some (cfg\<lparr>saved := sv, rafts := rs, cnet := AddServer (IInt i) (nsrv cfg) (cnet cfg), nsrv := Suc (nsrv cfg)\<rparr>)
     }"

definition setunreliable :: "bool \<Rightarrow> config \<Rightarrow> config" where
  "setunreliable unrel cfg = cfg\<lparr>cnet := Reliable (\<not> unrel) (cnet cfg)\<rparr>"

definition setlongreordering :: "bool \<Rightarrow> config \<Rightarrow> config" where
  "setlongreordering longrel cfg = cfg\<lparr>cnet := LongReordering longrel (cnet cfg)\<rparr>"

fun start_all :: "(int \<Rightarrow> env) \<Rightarrow> (int \<Rightarrow> int \<Rightarrow> 8 word list) \<Rightarrow> int list \<Rightarrow> config \<Rightarrow> config result" where
  "start_all ev bss [] cfg = Some cfg"
| "start_all ev bss (i # is) cfg =
     do {
       ls \<leftarrow> go_update (logs cfg) i Map.empty;
       cfg \<leftarrow> start1 (ev i) (bss i) i (cfg\<lparr>logs := ls\<rparr>);
       start_all ev bss is cfg
     }"

fun connect_all :: "int list \<Rightarrow> config \<Rightarrow> config result" where
  "connect_all [] cfg = Some cfg"
| "connect_all (i # is) cfg = do { cfg \<leftarrow> connect i cfg; connect_all is cfg }"

definition blank_config :: "nat \<Rightarrow> config" where
  "blank_config n = \<lparr>cnet = MakeNetwork, cn = int n, cdone = 0, rafts = replicate n None, applyErr = replicate n [],
     connected = replicate n False, saved = replicate n None, endnames = replicate n None,
     logs = replicate n Map.empty, nsrv = 0\<rparr>"

definition make_config :: "(int \<Rightarrow> env) \<Rightarrow> (int \<Rightarrow> int \<Rightarrow> 8 word list) \<Rightarrow> nat \<Rightarrow> bool \<Rightarrow> config result" where
  "make_config ev bss n unreliable =
     do {
       let cfg = setunreliable unreliable (blank_config n);
       let cfg = cfg\<lparr>cnet := LongDelays True (cnet cfg)\<rparr>;
       cfg \<leftarrow> start_all ev bss (go_range (cn cfg)) cfg;
       connect_all (go_range (cn cfg)) cfg
     }"

definition cleanup :: "config \<Rightarrow> config" where
  "cleanup cfg = cfg\<lparr>cdone := 1\<rparr>"

definition rpcCount :: "int \<Rightarrow> ('a, 'r, 's) Server list \<Rightarrow> config \<Rightarrow> rpc_stop + int" where
  "rpcCount server heap cfg = GetCount (IInt server) heap (cnet cfg)"

section \<open>The readers of the apply channels\<close>

datatype apply_err = Mismatch | OutOfOrder | NotInt

definition as_int :: "iface option \<Rightarrow> int option" where
  "as_int c = (case c of Some (IInt v) \<Rightarrow> Some v | _ \<Rightarrow> None)"

text \<open>One message for server \<open>i\<close>; an error stops the program. A later error replaces an earlier one.\<close>

definition apply_reader :: "nat \<Rightarrow> iface ApplyMsg \<Rightarrow> (int \<rightharpoonup> int) list \<Rightarrow> apply_err + (int \<rightharpoonup> int) list" where
  "apply_reader i m ls =
     (if am_UseSnapshot m then Inr ls
      else case as_int (am_Command m) of
        None \<Rightarrow> Inl NotInt
      | Some v \<Rightarrow>
          let clash = list_ex (\<lambda>l. case l (am_Index m) of None \<Rightarrow> False | Some old \<Rightarrow> old \<noteq> v) ls;
              prevok = ((ls ! i) (am_Index m - 1) \<noteq> None);
              ls = ls[i := (ls ! i)(am_Index m \<mapsto> v)]
          in if am_Index m > 1 \<and> \<not> prevok then Inl OutOfOrder
             else if clash then Inl Mismatch
             else Inr ls)"

section \<open>Checks\<close>

text \<open>How a check ends otherwise: a nil pointer, an index out of range, or \<^verbatim>\<open>t.Fatalf\<close>.\<close>

datatype check_stop = CPanic | ManyLeaders | NoLeader | UnexpectedLeader | TermsDiffer | ApplyError | ValuesDiffer | TooFew | NoAgreement

text \<open>\<open>see i\<close> is the state of server \<open>i\<close> when it is asked, None if there is no server.\<close>

fun poll_leaders ::
  "(int \<Rightarrow> rf option) \<Rightarrow> bool list \<Rightarrow> int list \<Rightarrow> (int \<times> int list) list \<Rightarrow> check_stop + (int \<times> int list) list" where
  "poll_leaders see con [] ls = Inr ls"
| "poll_leaders see con (i # is) ls =
     (case go_index con i of
        None \<Rightarrow> Inl CPanic
      | Some False \<Rightarrow> poll_leaders see con is ls
      | Some True \<Rightarrow>
          (case see i of
             None \<Rightarrow> Inl CPanic
           | Some rf \<Rightarrow>
               let (t, lead) = GetState rf
               in poll_leaders see con is
                 (if lead then AList.update t ((case map_of ls t of None \<Rightarrow> [] | Some is \<Rightarrow> is) @ [i]) ls else ls)))"

definition pick_leader :: "(int \<times> int list) list \<Rightarrow> check_stop + int option" where
  "pick_leader ls =
     (if list_ex (\<lambda>(t, is). go_len is > 1) ls then Inl ManyLeaders
      else if go_len ls \<noteq> 0
      then (let lastTermWithLeader = fold (\<lambda>(t, is) m. max m t) ls (-1)
            in case map_of ls lastTermWithLeader of
              Some (i # is) \<Rightarrow> Inr (Some i)
            | _ \<Rightarrow> Inl CPanic)
      else Inr None)"

fun leader_rounds :: "(nat \<Rightarrow> int \<Rightarrow> rf option) \<Rightarrow> config \<Rightarrow> nat list \<Rightarrow> check_stop + int" where
  "leader_rounds see cfg [] = Inl NoLeader"
| "leader_rounds see cfg (k # ks) =
     (case poll_leaders (see k) (connected cfg) (go_range (cn cfg)) [] of
        Inl e \<Rightarrow> Inl e
      | Inr ls \<Rightarrow>
          (case pick_leader ls of
             Inl e \<Rightarrow> Inl e
           | Inr (Some i) \<Rightarrow> Inr i
           | Inr None \<Rightarrow> leader_rounds see cfg ks))"

definition checkOneLeader :: "(nat \<Rightarrow> int \<Rightarrow> rf option) \<Rightarrow> config \<Rightarrow> check_stop + int" where
  "checkOneLeader see cfg = leader_rounds see cfg [0..<10]"

fun term_loop :: "(int \<Rightarrow> rf option) \<Rightarrow> bool list \<Rightarrow> int list \<Rightarrow> int \<Rightarrow> check_stop + int" where
  "term_loop see con [] t = Inr t"
| "term_loop see con (i # is) t =
     (case go_index con i of
        None \<Rightarrow> Inl CPanic
      | Some False \<Rightarrow> term_loop see con is t
      | Some True \<Rightarrow>
          (case see i of
             None \<Rightarrow> Inl CPanic
           | Some rf \<Rightarrow>
               let (xterm, lead) = GetState rf
               in if t = -1 then term_loop see con is xterm
                  else if t \<noteq> xterm then Inl TermsDiffer
                  else term_loop see con is t))"

definition checkTerms :: "(int \<Rightarrow> rf option) \<Rightarrow> config \<Rightarrow> check_stop + int" where
  "checkTerms see cfg = term_loop see (connected cfg) (go_range (cn cfg)) (-1)"

fun no_leader_loop :: "(int \<Rightarrow> rf option) \<Rightarrow> bool list \<Rightarrow> int list \<Rightarrow> check_stop option" where
  "no_leader_loop see con [] = None"
| "no_leader_loop see con (i # is) =
     (case go_index con i of
        None \<Rightarrow> Some CPanic
      | Some False \<Rightarrow> no_leader_loop see con is
      | Some True \<Rightarrow>
          (case see i of
             None \<Rightarrow> Some CPanic
           | Some rf \<Rightarrow> if snd (GetState rf) then Some UnexpectedLeader else no_leader_loop see con is))"

definition checkNoLeader :: "(int \<Rightarrow> rf option) \<Rightarrow> config \<Rightarrow> check_stop option" where
  "checkNoLeader see cfg = no_leader_loop see (connected cfg) (go_range (cn cfg))"

fun committed_loop ::
  "int \<Rightarrow> (string \<times> (int \<rightharpoonup> int)) list \<Rightarrow> int \<Rightarrow> int \<Rightarrow> check_stop + (int \<times> int)" where
  "committed_loop index [] cnt cmd = Inr (cnt, cmd)"
| "committed_loop index ((err, l) # ls) cnt cmd =
     (if err \<noteq> [] then Inl ApplyError
      else case l index of
        None \<Rightarrow> committed_loop index ls cnt cmd
      | Some cmd1 \<Rightarrow>
          if cnt > 0 \<and> cmd \<noteq> cmd1 then Inl ValuesDiffer
          else committed_loop index ls (cnt + 1) cmd1)"

definition nCommitted :: "int \<Rightarrow> config \<Rightarrow> check_stop + (int \<times> int)" where
  "nCommitted index cfg = committed_loop index (zip (applyErr cfg) (logs cfg)) 0 (-1)"

text \<open>
  \<^verbatim>\<open>wait\<close> sees the logs of the tester in the state \<open>at k\<close> and then the servers \<open>see k\<close> in round \<open>k\<close>,
  and the tester in the state \<open>fin\<close> after the rounds. The rounds end with False when the wait is
  given up.
\<close>

fun moved_on :: "int \<Rightarrow> rf option list \<Rightarrow> check_stop + bool" where
  "moved_on startTerm [] = Inr False"
| "moved_on startTerm (None # rs) = Inl CPanic"
| "moved_on startTerm (Some rf # rs) = (if fst (GetState rf) > startTerm then Inr True else moved_on startTerm rs)"

fun wait_rounds ::
  "(nat \<Rightarrow> config) \<Rightarrow> (nat \<Rightarrow> rf option list) \<Rightarrow> int \<Rightarrow> int \<Rightarrow> int \<Rightarrow> nat list \<Rightarrow> check_stop + bool" where
  "wait_rounds at see index n startTerm [] = Inr True"
| "wait_rounds at see index n startTerm (k # ks) =
     (case nCommitted index (at k) of
        Inl e \<Rightarrow> Inl e
      | Inr (nd, cmd) \<Rightarrow>
          if nd \<ge> n then Inr True
          else if startTerm > -1
          then (case moved_on startTerm (see k) of
                  Inl e \<Rightarrow> Inl e
                | Inr True \<Rightarrow> Inr False
                | Inr False \<Rightarrow> wait_rounds at see index n startTerm ks)
          else wait_rounds at see index n startTerm ks)"

definition wait ::
  "(nat \<Rightarrow> config) \<Rightarrow> (nat \<Rightarrow> rf option list) \<Rightarrow> config \<Rightarrow> int \<Rightarrow> int \<Rightarrow> int \<Rightarrow> check_stop + int" where
  "wait at see fin index n startTerm =
     (case wait_rounds at see index n startTerm [0..<30] of
        Inl e \<Rightarrow> Inl e
      | Inr False \<Rightarrow> Inr (-1)
      | Inr True \<Rightarrow>
          (case nCommitted index fin of
             Inl e \<Rightarrow> Inl e
           | Inr (nd, cmd) \<Rightarrow> if nd < n then Inl TooFew else Inr cmd))"

text \<open>
  \<^verbatim>\<open>one\<close> asks the next server in the state \<open>tries k si\<close> of the tester, and counts in the states
  \<open>polls k\<close> until two seconds have passed; \<open>rounds\<close> is how often it starts again before ten
  seconds have passed. What \<^verbatim>\<open>Start\<close> makes of the server is a change of \<open>rafts\<close>.
\<close>

fun try_servers :: "int \<Rightarrow> int \<Rightarrow> config list \<Rightarrow> check_stop + (int \<times> int \<times> config option)" where
  "try_servers cmd starts [] = Inr (starts, -1, None)"
| "try_servers cmd starts (cfg # cfgs) =
     (let starts = (starts + 1) mod cn cfg
      in case go_index (connected cfg) starts of
           None \<Rightarrow> Inl CPanic
         | Some False \<Rightarrow> try_servers cmd starts cfgs
         | Some True \<Rightarrow>
             (case go_index (rafts cfg) starts of
                None \<Rightarrow> Inl CPanic
              | Some None \<Rightarrow> try_servers cmd starts cfgs
              | Some (Some rf) \<Rightarrow>
                  (case Start (Some (IInt cmd)) rf of
                     None \<Rightarrow> Inl CPanic
                   | Some (rf, (index1, t, ok), gs) \<Rightarrow>
                       if ok then Inr (starts, index1, Some (cfg\<lparr>rafts := (rafts cfg)[nat starts := Some rf]\<rparr>))
                       else try_servers cmd starts cfgs)))"

fun await_agreement :: "int \<Rightarrow> int \<Rightarrow> int \<Rightarrow> config list \<Rightarrow> check_stop + bool" where
  "await_agreement cmd expectedServers index [] = Inr False"
| "await_agreement cmd expectedServers index (cfg # cfgs) =
     (case nCommitted index cfg of
        Inl e \<Rightarrow> Inl e
      | Inr (nd, cmd1) \<Rightarrow>
          if nd > 0 \<and> nd \<ge> expectedServers \<and> cmd1 = cmd then Inr True
          else await_agreement cmd expectedServers index cfgs)"

fun one_rounds ::
  "int \<Rightarrow> int \<Rightarrow> int \<Rightarrow> (nat \<Rightarrow> nat \<Rightarrow> config) \<Rightarrow> (nat \<Rightarrow> config list) \<Rightarrow> int \<Rightarrow> nat list \<Rightarrow> check_stop + int" where
  "one_rounds cmd expectedServers n tries polls starts [] = Inl NoAgreement"
| "one_rounds cmd expectedServers n tries polls starts (k # ks) =
     (case try_servers cmd starts (map (tries k) [0..<nat n]) of
        Inl e \<Rightarrow> Inl e
      | Inr (starts, index, cfg) \<Rightarrow>
          if index \<noteq> -1
          then (case await_agreement cmd expectedServers index (polls k) of
                  Inl e \<Rightarrow> Inl e
                | Inr True \<Rightarrow> Inr index
                | Inr False \<Rightarrow> one_rounds cmd expectedServers n tries polls starts ks)
          else one_rounds cmd expectedServers n tries polls starts ks)"

definition one :: "int \<Rightarrow> int \<Rightarrow> int \<Rightarrow> (nat \<Rightarrow> nat \<Rightarrow> config) \<Rightarrow> (nat \<Rightarrow> config list) \<Rightarrow> nat \<Rightarrow> check_stop + int" where
  "one cmd expectedServers n tries polls rounds = one_rounds cmd expectedServers n tries polls 0 [0..<rounds]"

end
