(* ===== verification/Harness_Topology.thy ===== *)
theory Harness_Topology
  imports Raft_Harness
begin

text \<open>
  The network that the tester of \<^verbatim>\<open>src/raft/config.go\<close> maintains: after any sequence of starts,
  crashes, connections and disconnections the enabled ends are those between connected servers,
  and an end of a server that was replaced is never enabled again.
\<close>

section \<open>Histories of the tester\<close>

text \<open>
  The calls of the tests, and meanwhile any change of the running servers and of the logs of
  the tester.
\<close>

datatype hevent =
    HStart env "int \<Rightarrow> 8 word list" int
  | HCrash int
  | HConnect int
  | HDisconnect int
  | HUnreliable bool
  | HLongReordering bool
  | HServer nat rf
  | HApply nat "iface ApplyMsg"

fun hstep :: "hevent \<Rightarrow> config \<Rightarrow> config option" where
  "hstep (HStart e bs i) cfg = start1 e bs i cfg"
| "hstep (HCrash i) cfg = crash1 i cfg"
| "hstep (HConnect i) cfg = connect i cfg"
| "hstep (HDisconnect i) cfg = disconnect i cfg"
| "hstep (HUnreliable b) cfg = Some (setunreliable b cfg)"
| "hstep (HLongReordering b) cfg = Some (setlongreordering b cfg)"
| "hstep (HServer i r) cfg =
     (if i < length (rafts cfg) \<and> rafts cfg ! i \<noteq> None then Some (cfg\<lparr>rafts := (rafts cfg)[i := Some r]\<rparr>) else None)"
| "hstep (HApply i m) cfg =
     (if i < length (logs cfg)
      then (case apply_reader i m (logs cfg) of Inl e \<Rightarrow> None | Inr ls \<Rightarrow> Some (cfg\<lparr>logs := ls\<rparr>))
      else None)"

section \<open>The invariant\<close>

text \<open>The end from server \<open>i\<close> to server \<open>j\<close>.\<close>

definition is_end :: "config \<Rightarrow> nat \<Rightarrow> nat \<Rightarrow> iface \<Rightarrow> bool" where
  "is_end cfg i j e \<longleftrightarrow> i < length (endnames cfg) \<and>
     (case endnames cfg ! i of None \<Rightarrow> False | Some r \<Rightarrow> j < length r \<and> e = IStr (r ! j))"

definition sizes_ok :: "config \<Rightarrow> bool" where
  "sizes_ok cfg \<longleftrightarrow> 0 \<le> cn cfg \<and> length (rafts cfg) = nat (cn cfg) \<and> length (applyErr cfg) = nat (cn cfg) \<and>
     length (connected cfg) = nat (cn cfg) \<and> length (saved cfg) = nat (cn cfg) \<and>
     length (endnames cfg) = nat (cn cfg) \<and> length (logs cfg) = nat (cn cfg) \<and>
     (\<forall>i < length (endnames cfg). \<forall>r. endnames cfg ! i = Some r \<longrightarrow> length r = nat (cn cfg))"

definition topology_ok :: "config \<Rightarrow> bool" where
  "topology_ok cfg \<longleftrightarrow>
     (\<forall>i j e. is_end cfg i j e \<longrightarrow> ends (cnet cfg) e \<and> connections (cnet cfg) e = IInt (int j)) \<and>
     (\<forall>i j i' j' e. is_end cfg i j e \<longrightarrow> is_end cfg i' j' e \<longrightarrow> i = i' \<and> j = j') \<and>
     (\<forall>e. enabled (cnet cfg) e \<longleftrightarrow> (\<exists>i j. is_end cfg i j e \<and> connected cfg ! i \<and> connected cfg ! j)) \<and>
     (\<forall>i < length (connected cfg). connected cfg ! i \<longrightarrow> endnames cfg ! i \<noteq> None) \<and>
     (\<forall>i < length (rafts cfg). (nservers (cnet cfg) (IInt (int i)) \<noteq> None) = (rafts cfg ! i \<noteq> None))"

definition harness_ok :: "config \<Rightarrow> bool" where
  "harness_ok cfg \<longleftrightarrow> sizes_ok cfg \<and> topology_ok cfg"

section \<open>Loops\<close>

lemma end_at_Some: "end_at (int i) (int j) cfg = Some e \<longleftrightarrow> is_end cfg i j (IStr e)"
  by (auto simp: end_at_def is_end_def go_index_def in_range_nat split: option.splits)

lemma set_enabled_sel [simp]:
  "cn (set_enabled b e cfg) = cn cfg" "rafts (set_enabled b e cfg) = rafts cfg"
  "applyErr (set_enabled b e cfg) = applyErr cfg" "connected (set_enabled b e cfg) = connected cfg"
  "saved (set_enabled b e cfg) = saved cfg" "endnames (set_enabled b e cfg) = endnames cfg"
  "logs (set_enabled b e cfg) = logs cfg" "nsrv (set_enabled b e cfg) = nsrv cfg"
  "enabled (cnet (set_enabled b e cfg)) = (enabled (cnet cfg))(IStr e := b)"
  "ends (cnet (set_enabled b e cfg)) = ends (cnet cfg)"
  "connections (cnet (set_enabled b e cfg)) = connections (cnet cfg)"
  "nservers (cnet (set_enabled b e cfg)) = nservers (cnet cfg)"
  by (simp_all add: set_enabled_def Enable_def)

text \<open>Everything but the enabled ends is as before.\<close>

definition same_but_enabled :: "config \<Rightarrow> config \<Rightarrow> bool" where
  "same_but_enabled cfg cfg' \<longleftrightarrow> cfg' = cfg\<lparr>cnet := (cnet cfg)\<lparr>enabled := enabled (cnet cfg')\<rparr>\<rparr>"

lemma same_but_enabled_refl [simp]: "same_but_enabled cfg cfg"
  by (simp add: same_but_enabled_def)

lemma same_but_enabled_trans:
  assumes "same_but_enabled a b" and "same_but_enabled b c"
  shows "same_but_enabled a c"
proof -
  note ab = assms(1) [unfolded same_but_enabled_def] and bc = assms(2) [unfolded same_but_enabled_def]
  have "b\<lparr>cnet := (cnet b)\<lparr>enabled := enabled (cnet c)\<rparr>\<rparr> = a\<lparr>cnet := (cnet a)\<lparr>enabled := enabled (cnet c)\<rparr>\<rparr>"
    by (subst (1 2) ab) simp
  then show ?thesis unfolding same_but_enabled_def using bc by metis
qed

lemma same_but_enabled_set: "same_but_enabled (set_enabled b e cfg) cfg' \<Longrightarrow> same_but_enabled cfg cfg'"
  by (simp add: same_but_enabled_def set_enabled_def Enable_def)

lemma same_but_enabledD:
  assumes "same_but_enabled cfg cfg'"
  shows "cn cfg' = cn cfg" "rafts cfg' = rafts cfg" "applyErr cfg' = applyErr cfg" "connected cfg' = connected cfg"
    "saved cfg' = saved cfg" "endnames cfg' = endnames cfg" "logs cfg' = logs cfg" "nsrv cfg' = nsrv cfg"
    "ends (cnet cfg') = ends (cnet cfg)" "connections (cnet cfg') = connections (cnet cfg)"
    "nservers (cnet cfg') = nservers (cnet cfg)" "is_end cfg' = is_end cfg"
proof -
  note eq = assms [unfolded same_but_enabled_def]
  show "cn cfg' = cn cfg" "rafts cfg' = rafts cfg" "applyErr cfg' = applyErr cfg" "connected cfg' = connected cfg"
    "saved cfg' = saved cfg" "endnames cfg' = endnames cfg" "logs cfg' = logs cfg" "nsrv cfg' = nsrv cfg"
    "ends (cnet cfg') = ends (cnet cfg)" "connections (cnet cfg') = connections (cnet cfg)"
    "nservers (cnet cfg') = nservers (cnet cfg)"
    by (subst eq, simp)+
  then show "is_end cfg' = is_end cfg" by (simp add: fun_eq_iff is_end_def)
qed

lemma connect_loop_Some:
  assumes "\<And>j e c. nm j (set_enabled True e c) = nm j c"
  shows "connect_loop nm js cfg = Some cfg' \<Longrightarrow> same_but_enabled cfg cfg' \<and>
    (\<forall>e. enabled (cnet cfg') e \<longleftrightarrow> enabled (cnet cfg) e \<or>
       (\<exists>j \<in> set js. connected cfg ! nat j \<and> (\<exists>x. nm j cfg = Some x \<and> e = IStr x))) \<and>
    (\<forall>j \<in> set js. connected cfg ! nat j \<longrightarrow> nm j cfg \<noteq> None)"
proof (induction js arbitrary: cfg)
  case (Cons j js)
  obtain c where c: "in_range (connected cfg) j" "connected cfg ! nat j = c"
    using Cons.prems by (auto simp: go_slice_iff Option.bind_eq_Some_conv)
  show ?case
  proof (cases c)
    case True
    then obtain x where x: "nm j cfg = Some x" "connect_loop nm js (set_enabled True x cfg) = Some cfg'"
      using Cons.prems c by (auto simp: go_index_in Option.bind_eq_Some_conv)
    from Cons.IH [OF x(2)] show ?thesis
      using x(1) c True assms same_but_enabled_set by (auto split: if_splits)
  next
    case False
    then have "connect_loop nm js cfg = Some cfg'" using Cons.prems c by (simp add: go_index_in)
    from Cons.IH [OF this] show ?thesis using c False by auto
  qed
qed simp

lemma disconnect_loop_Some:
  "disconnect_loop src dst js cfg = Some cfg' \<Longrightarrow> same_but_enabled cfg cfg' \<and>
    (\<forall>e. enabled (cnet cfg') e \<longleftrightarrow> enabled (cnet cfg) e \<and>
       \<not> (\<exists>j \<in> set js. \<exists>x. end_at (src j) (dst j) cfg = Some x \<and> e = IStr x))"
proof (induction js arbitrary: cfg)
  case (Cons j js)
  obtain row where row: "go_index (endnames cfg) (src j) = Some row"
    using Cons.prems by (auto simp: Option.bind_eq_Some_conv)
  have at: "end_at i k (set_enabled False x cfg) = end_at i k cfg" for i k x by (simp add: end_at_def)
  show ?case
  proof (cases row)
    case None
    then have "disconnect_loop src dst js cfg = Some cfg'" using Cons.prems row by simp
    from Cons.IH [OF this] show ?thesis using row None by (auto simp: end_at_def)
  next
    case (Some r)
    then obtain x where x: "go_index r (dst j) = Some x" "disconnect_loop src dst js (set_enabled False x cfg) = Some cfg'"
      using Cons.prems row by (auto simp: Option.bind_eq_Some_conv)
    have "end_at (src j) (dst j) cfg = Some x" using row Some x(1) by (simp add: end_at_def)
    then show ?thesis
      using Cons.IH [OF x(2)] same_but_enabled_set by (auto simp: at split: if_splits)
  qed
qed simp

text \<open>An end of row \<open>i\<close>, or of column \<open>i\<close>, of the table of ends.\<close>

lemma end_name: "is_end cfg i j e \<Longrightarrow> \<exists>x. e = IStr x"
  by (auto simp: is_end_def split: option.splits)

lemma ends_out:
  "(\<exists>j \<in> {0..<n}. P (nat j) \<and> (\<exists>x. end_at (int i) j cfg = Some x \<and> e = IStr x)) \<longleftrightarrow>
   (\<exists>j < nat n. P j \<and> is_end cfg i j e)"
proof -
  have "(\<exists>x. end_at (int i) (int j) cfg = Some x \<and> e = IStr x) \<longleftrightarrow> is_end cfg i j e" for j
    unfolding end_at_Some using end_name [of cfg i j e] by auto
  then show ?thesis by (simp add: bex_range)
qed

lemma ends_in:
  "(\<exists>j \<in> {0..<n}. P (nat j) \<and> (\<exists>x. end_at j (int i) cfg = Some x \<and> e = IStr x)) \<longleftrightarrow>
   (\<exists>j < nat n. P j \<and> is_end cfg j i e)"
proof -
  have "(\<exists>x. end_at (int j) (int i) cfg = Some x \<and> e = IStr x) \<longleftrightarrow> is_end cfg j i e" for j
    unfolding end_at_Some using end_name [of cfg j i e] by auto
  then show ?thesis by (simp add: bex_range)
qed

lemma is_end_sizes:
  assumes "sizes_ok cfg" and "is_end cfg i j e"
  shows "i < nat (cn cfg)" "j < nat (cn cfg)"
  using assms by (auto simp: sizes_ok_def is_end_def split: option.splits)

lemma is_end_connected [simp]: "is_end (cfg\<lparr>connected := c\<rparr>) = is_end cfg"
  by (simp add: fun_eq_iff is_end_def)

lemma end_at_connected [simp]: "end_at i j (cfg\<lparr>connected := c\<rparr>) = end_at i j cfg"
  by (simp add: end_at_def)

lemma end_at_same: "same_but_enabled cfg cfg' \<Longrightarrow> end_at i j cfg' = end_at i j cfg"
  by (simp add: end_at_def same_but_enabledD(6))

section \<open>The operations keep the invariant\<close>

text \<open>What \<^verbatim>\<open>connect\<close> and \<^verbatim>\<open>disconnect\<close> do to the enabled ends.\<close>

lemma connect_Some:
  assumes "connect (int i) cfg = Some cfg'" and sz: "sizes_ok cfg"
  shows "i < nat (cn cfg) \<and> same_but_enabled (cfg\<lparr>connected := (connected cfg)[i := True]\<rparr>) cfg' \<and>
    (\<forall>e. enabled (cnet cfg') e \<longleftrightarrow> enabled (cnet cfg) e \<or>
       (\<exists>j. (connected cfg)[i := True] ! j \<and> (is_end cfg i j e \<or> is_end cfg j i e))) \<and>
    endnames cfg ! i \<noteq> None"
proof -
  let ?cs = "(connected cfg)[i := True]"
  let ?c = "cfg\<lparr>connected := ?cs\<rparr>"
  obtain c1 where i: "in_range (connected cfg) (int i)"
    and l1: "connect_loop (\<lambda>j. end_at (int i) j) (go_range (cn cfg)) ?c = Some c1"
    and l2: "connect_loop (\<lambda>j. end_at j (int i)) (go_range (cn c1)) c1 = Some cfg'"
    using assms(1) by (auto simp: connect_def Option.bind_eq_Some_conv go_update_Some Let_def)
  have "end_at a b (set_enabled True x c) = end_at a b c" for a b x c by (simp add: end_at_def)
  note loops = connect_loop_Some [OF this l1] connect_loop_Some [OF this l2]
  have s1: "same_but_enabled ?c c1" using loops(1) by blast
  then have s2: "same_but_enabled ?c cfg'" by (rule same_but_enabled_trans) (use loops(2) in blast)
  have n: "i < nat (cn cfg)" using i sz by (simp add: in_range_nat sizes_ok_def)
  have "int i \<in> set (go_range (cn cfg))" "?cs ! nat (int i)" using n sz by (simp_all add: sizes_ok_def)
  then have "end_at (int i) (int i) ?c \<noteq> None" using loops(1) by simp
  then have row: "endnames cfg ! i \<noteq> None"
    using n by (auto simp: end_at_def go_index_def split: if_splits option.splits)
  have "enabled (cnet cfg') e \<longleftrightarrow> enabled (cnet cfg) e \<or>
      (\<exists>j < nat (cn cfg). ?cs ! j \<and> is_end cfg i j e) \<or> (\<exists>j < nat (cn cfg). ?cs ! j \<and> is_end cfg j i e)" for e
    using loops ends_out [of "cn cfg" "\<lambda>j. ?cs ! j" i cfg e] ends_in [of "cn cfg" "\<lambda>j. ?cs ! j" i cfg e]
    by (simp add: same_but_enabledD(1,4) [OF s1] end_at_same [OF s1])
  then show ?thesis using n s2 row is_end_sizes [OF sz] by blast
qed

lemma disconnect_Some:
  assumes "disconnect (int i) cfg = Some cfg'" and sz: "sizes_ok cfg"
  shows "i < nat (cn cfg) \<and> same_but_enabled (cfg\<lparr>connected := (connected cfg)[i := False]\<rparr>) cfg' \<and>
    (\<forall>e. enabled (cnet cfg') e \<longleftrightarrow> enabled (cnet cfg) e \<and> \<not> (\<exists>j. is_end cfg i j e \<or> is_end cfg j i e))"
proof -
  let ?c = "cfg\<lparr>connected := (connected cfg)[i := False]\<rparr>"
  obtain c1 where i: "in_range (connected cfg) (int i)"
    and l1: "disconnect_loop (\<lambda>j. int i) (\<lambda>j. j) (go_range (cn cfg)) ?c = Some c1"
    and l2: "disconnect_loop (\<lambda>j. j) (\<lambda>j. int i) (go_range (cn c1)) c1 = Some cfg'"
    using assms(1) by (auto simp: disconnect_def Option.bind_eq_Some_conv go_update_Some Let_def)
  note loops = disconnect_loop_Some [OF l1] disconnect_loop_Some [OF l2]
  have s1: "same_but_enabled ?c c1" using loops(1) by blast
  then have s2: "same_but_enabled ?c cfg'" by (rule same_but_enabled_trans) (use loops(2) in blast)
  have n: "i < nat (cn cfg)" using i sz by (simp add: in_range_nat sizes_ok_def)
  have "enabled (cnet cfg') e \<longleftrightarrow> enabled (cnet cfg) e \<and>
      \<not> (\<exists>j < nat (cn cfg). is_end cfg i j e) \<and> \<not> (\<exists>j < nat (cn cfg). is_end cfg j i e)" for e
    using loops ends_out [of "cn cfg" "\<lambda>j. True" i cfg e] ends_in [of "cn cfg" "\<lambda>j. True" i cfg e]
    by (simp add: same_but_enabledD(1,4) [OF s1] end_at_same [OF s1]) blast
  then show ?thesis using n s2 is_end_sizes [OF sz] by blast
qed

lemma sizes_same: "same_but_enabled cfg cfg' \<Longrightarrow> sizes_ok cfg' = sizes_ok cfg"
  by (simp add: sizes_ok_def same_but_enabledD)

lemma sizes_connected [simp]: "sizes_ok (cfg\<lparr>connected := (connected cfg)[i := b]\<rparr>) = sizes_ok cfg"
  by (simp add: sizes_ok_def)

lemma topology_okD:
  assumes "topology_ok cfg"
  shows "is_end cfg i j e \<Longrightarrow> ends (cnet cfg) e" "is_end cfg i j e \<Longrightarrow> connections (cnet cfg) e = IInt (int j)"
    "is_end cfg i j e \<Longrightarrow> is_end cfg i' j' e \<Longrightarrow> i = i' \<and> j = j'"
    "enabled (cnet cfg) e \<longleftrightarrow> (\<exists>i j. is_end cfg i j e \<and> connected cfg ! i \<and> connected cfg ! j)"
    "i < length (connected cfg) \<Longrightarrow> connected cfg ! i \<Longrightarrow> endnames cfg ! i \<noteq> None"
    "i < length (rafts cfg) \<Longrightarrow> (nservers (cnet cfg) (IInt (int i)) \<noteq> None) = (rafts cfg ! i \<noteq> None)"
  using assms unfolding topology_ok_def by blast+

lemma connect_ok:
  assumes ok: "harness_ok cfg" and c: "connect (int i) cfg = Some cfg'"
  shows "harness_ok cfg'"
proof -
  have sz: "sizes_ok cfg" and top: "topology_ok cfg" using ok by (simp_all add: harness_ok_def)
  let ?cs = "(connected cfg)[i := True]"
  note c' = connect_Some [OF c sz]
  have i: "i < length (connected cfg)" using c' sz by (simp add: sizes_ok_def)
  have same: "same_but_enabled (cfg\<lparr>connected := ?cs\<rparr>) cfg'" using c' by blast
  have cs: "?cs ! a \<longleftrightarrow> a = i \<or> connected cfg ! a" for a using i by (auto simp: nth_list_update)
  have "enabled (cnet cfg') e \<longleftrightarrow> (\<exists>a b. is_end cfg a b e \<and> ?cs ! a \<and> ?cs ! b)" for e
  proof -
    have "(\<exists>a b. is_end cfg a b e \<and> ?cs ! a \<and> ?cs ! b) \<longleftrightarrow>
        (\<exists>a b. is_end cfg a b e \<and> connected cfg ! a \<and> connected cfg ! b) \<or>
        (\<exists>j. ?cs ! j \<and> (is_end cfg i j e \<or> is_end cfg j i e))"
      unfolding cs by blast
    then show ?thesis using c' topology_okD(4) [OF top, of e] by simp
  qed
  moreover have "endnames cfg ! a \<noteq> None" if "a < length (connected cfg)" "?cs ! a" for a
    using that c' topology_okD(5) [OF top] by (cases "a = i") auto
  ultimately have "topology_ok cfg'"
    using topology_okD(1-3,6) [OF top] unfolding topology_ok_def same_but_enabledD [OF same] by simp
  then show ?thesis using sz sizes_same [OF same] by (simp add: harness_ok_def)
qed

lemma disconnect_ok:
  assumes ok: "harness_ok cfg" and c: "disconnect (int i) cfg = Some cfg'"
  shows "harness_ok cfg'"
proof -
  have sz: "sizes_ok cfg" and top: "topology_ok cfg" using ok by (simp_all add: harness_ok_def)
  let ?cs = "(connected cfg)[i := False]"
  note c' = disconnect_Some [OF c sz]
  have i: "i < length (connected cfg)" using c' sz by (simp add: sizes_ok_def)
  have same: "same_but_enabled (cfg\<lparr>connected := ?cs\<rparr>) cfg'" using c' by blast
  have cs: "?cs ! a \<longleftrightarrow> a \<noteq> i \<and> connected cfg ! a" for a using i by (auto simp: nth_list_update)
  have "enabled (cnet cfg') e \<longleftrightarrow> (\<exists>a b. is_end cfg a b e \<and> ?cs ! a \<and> ?cs ! b)" for e
  proof -
    have "(\<exists>a b. is_end cfg a b e \<and> ?cs ! a \<and> ?cs ! b) \<longleftrightarrow>
        (\<exists>a b. is_end cfg a b e \<and> a \<noteq> i \<and> b \<noteq> i \<and> connected cfg ! a \<and> connected cfg ! b)"
      unfolding cs by blast
    also have "\<dots> \<longleftrightarrow> (\<exists>a b. is_end cfg a b e \<and> connected cfg ! a \<and> connected cfg ! b) \<and>
        \<not> (\<exists>j. is_end cfg i j e \<or> is_end cfg j i e)"
      using topology_okD(3) [OF top] by metis
    finally show ?thesis using c' topology_okD(4) [OF top, of e] by simp
  qed
  moreover have "endnames cfg ! a \<noteq> None" if "a < length (connected cfg)" "?cs ! a" for a
    using that topology_okD(5) [OF top] i by (cases "a = i") auto
  ultimately have "topology_ok cfg'"
    using topology_okD(1-3,6) [OF top] unfolding topology_ok_def same_but_enabledD [OF same] by simp
  then show ?thesis using sz sizes_same [OF same] by (simp add: harness_ok_def)
qed

text \<open>A crash disconnects the server, removes it and keeps its Raft state.\<close>

lemma crash1_Some:
  assumes ok: "harness_ok cfg" and c: "crash1 (int i) cfg = Some cfg'"
  shows "harness_ok cfg' \<and> i < nat (cn cfg') \<and> cn cfg' = cn cfg \<and> \<not> connected cfg' ! i \<and> nsrv cfg' = nsrv cfg \<and>
    saved cfg' ! i = map_option (\<lambda>p. SaveRaftState (ReadRaftState p) MakePersister) (the (persister_of (int i) cfg)) \<and>
    persister_of (int i) cfg \<noteq> None"
proof -
  obtain c1 where d: "disconnect (int i) cfg = Some c1"
    using c by (auto simp: crash1_def Option.bind_eq_Some_conv)
  have "persister_of (int i) (c1\<lparr>cnet := rn\<rparr>) = persister_of (int i) c1" for rn
    by (simp add: persister_of_def cong: option.case_cong)
  then obtain p where p: "persister_of (int i) c1 = Some p"
    and cfg': "cfg' = c1\<lparr>cnet := DeleteServer (IInt (int i)) (cnet c1), rafts := (rafts c1)[i := None],
      saved := (saved c1)[i := map_option (\<lambda>p. SaveRaftState (ReadRaftState p) MakePersister) (map_option Copy p)]\<rparr>"
    using c d by (auto simp: crash1_def Option.bind_eq_Some_conv go_slice_iff in_range_nat Let_def)
  have ok1: "harness_ok c1" by (rule disconnect_ok [OF ok d])
  have sz: "sizes_ok cfg" "sizes_ok c1" and top: "topology_ok c1" using ok ok1 by (simp_all add: harness_ok_def)
  have i: "i < nat (cn cfg)" and same: "same_but_enabled (cfg\<lparr>connected := (connected cfg)[i := False]\<rparr>) c1"
    using disconnect_Some [OF d sz(1)] by blast+
  have "is_end cfg' = is_end c1" using cfg' by (simp add: fun_eq_iff is_end_def)
  then have "topology_ok cfg'"
    using topology_okD [OF top] sz(2) cfg'
    by (auto simp: topology_ok_def DeleteServer_def sizes_ok_def nth_list_update)
  moreover have "sizes_ok cfg'" using sz(2) cfg' by (auto simp: sizes_ok_def)
  moreover have "persister_of (int i) cfg = Some p"
    using p same_but_enabledD [OF same] by (simp add: persister_of_def cong: option.case_cong)
  ultimately show ?thesis
    using i sz same_but_enabledD [OF same] cfg'
    by (auto simp: harness_ok_def sizes_ok_def persister_defs option.map_comp comp_def)
qed

lemma make_ends_Some:
  "make_ends j es rn = Some rn' \<Longrightarrow> distinct es \<and> (\<forall>e \<in> set es. \<not> ends rn (IStr e)) \<and>
    (\<forall>x. ends rn' x \<longleftrightarrow> ends rn x \<or> x \<in> IStr ` set es) \<and>
    (\<forall>x. enabled rn' x \<longleftrightarrow> enabled rn x \<and> x \<notin> IStr ` set es) \<and>
    (\<forall>k < length es. connections rn' (IStr (es ! k)) = IInt (j + int k)) \<and>
    (\<forall>x. x \<notin> IStr ` set es \<longrightarrow> connections rn' x = connections rn x) \<and> nservers rn' = nservers rn"
proof (induction es arbitrary: j rn)
  case (Cons e es)
  let ?rn = "Connect (IStr e) (IInt j) (rn\<lparr>ends := (ends rn)(IStr e := True), enabled := (enabled rn)(IStr e := False),
    connections := (connections rn)(IStr e := INil)\<rparr>)"
  have new: "\<not> ends rn (IStr e)" and rest: "make_ends (j + 1) es ?rn = Some rn'"
    using Cons.prems by (auto simp: MakeEnd_def split: if_splits)
  have IH: "distinct es" "\<And>x. x \<in> set es \<Longrightarrow> \<not> ends ?rn (IStr x)"
    "\<And>x. ends rn' x \<longleftrightarrow> ends ?rn x \<or> x \<in> IStr ` set es" "\<And>x. enabled rn' x \<longleftrightarrow> enabled ?rn x \<and> x \<notin> IStr ` set es"
    "\<And>k. k < length es \<Longrightarrow> connections rn' (IStr (es ! k)) = IInt (j + 1 + int k)"
    "\<And>x. x \<notin> IStr ` set es \<Longrightarrow> connections rn' x = connections ?rn x" "nservers rn' = nservers ?rn"
    using Cons.IH [OF rest] by blast+
  have e: "e \<notin> set es" using IH(2) [of e] by (auto simp: Connect_def)
  have old: "\<not> ends rn (IStr x)" if "x \<in> set es" for x using IH(2) [OF that] that e by (auto simp: Connect_def split: if_splits)
  have "connections rn' (IStr ((e # es) ! k)) = IInt (j + int k)" if "k < length (e # es)" for k
  proof (cases k)
    case 0
    then show ?thesis using IH(6) [of "IStr e"] e by (auto simp: Connect_def)
  next
    case (Suc m)
    then show ?thesis using IH(5) [of m] that by (simp add: add.assoc)
  qed
  then show ?case using IH(1,3,4,6,7) e new old by (auto simp: Connect_def)
qed simp

lemma new_names_length: "new_names bs js = Some ns \<Longrightarrow> length ns = length js"
  by (induction js arbitrary: ns) (auto simp: Option.bind_eq_Some_conv)

lemma start1_Some:
  assumes ok: "harness_ok cfg" and c: "start1 ev bs (int i) cfg = Some cfg'"
  obtains c1 names rn p where "crash1 (int i) cfg = Some c1" "length names = nat (cn c1)"
    "make_ends 0 names (cnet c1) = Some rn" "p = (case saved c1 ! i of None \<Rightarrow> MakePersister | Some p \<Rightarrow> Copy p)"
    "cfg' = c1\<lparr>endnames := (endnames c1)[i := Some names], saved := (saved c1)[i := Some p],
       rafts := (rafts c1)[i := Some (Make ev (cn c1) (int i) p)],
       cnet := AddServer (IInt (int i)) (nsrv c1) rn, nsrv := Suc (nsrv c1)\<rparr>"
proof -
  obtain c1 where c1: "crash1 (int i) cfg = Some c1" using c by (auto simp: start1_def Option.bind_eq_Some_conv)
  obtain names rn where "new_names bs (go_range (cn c1)) = Some names" "make_ends 0 names (cnet c1) = Some rn"
    "cfg' = c1\<lparr>endnames := (endnames c1)[i := Some names],
       saved := (saved c1)[i := Some (case saved c1 ! i of None \<Rightarrow> MakePersister | Some p \<Rightarrow> Copy p)],
       rafts := (rafts c1)[i := Some (Make ev (cn c1) (int i) (case saved c1 ! i of None \<Rightarrow> MakePersister | Some p \<Rightarrow> Copy p))],
       cnet := AddServer (IInt (int i)) (nsrv c1) rn, nsrv := Suc (nsrv c1)\<rparr>"
    using c c1 by (auto simp: start1_def Option.bind_eq_Some_conv go_slice_iff Let_def)
  then show thesis using that c1 new_names_length by fastforce
qed

lemma start1_ok:
  assumes ok: "harness_ok cfg" and c: "start1 ev bs (int i) cfg = Some cfg'"
  shows "harness_ok cfg'"
proof -
  obtain c1 names rn p where c1: "crash1 (int i) cfg = Some c1" and len: "length names = nat (cn c1)"
    and rn: "make_ends 0 names (cnet c1) = Some rn"
    and cfg': "cfg' = c1\<lparr>endnames := (endnames c1)[i := Some names], saved := (saved c1)[i := Some p],
       rafts := (rafts c1)[i := Some (Make ev (cn c1) (int i) p)],
       cnet := AddServer (IInt (int i)) (nsrv c1) rn, nsrv := Suc (nsrv c1)\<rparr>"
    by (rule start1_Some [OF ok c])
  have sz: "sizes_ok c1" and top: "topology_ok c1" and i: "i < nat (cn c1)" and off: "\<not> connected c1 ! i"
    using crash1_Some [OF ok c1] unfolding harness_ok_def by blast+
  have ends': "is_end cfg' a b e \<longleftrightarrow> (if a = i then b < length names \<and> e = IStr (names ! b) else is_end c1 a b e)" for a b e
    using cfg' i sz by (auto simp: is_end_def sizes_ok_def)
  note rn' = make_ends_Some [OF rn]
  have fresh: "e \<notin> IStr ` set names" if "is_end c1 a b e" for a b e
    using topology_okD(1) [OF top that] rn' by blast
  have "ends (cnet cfg') e \<and> connections (cnet cfg') e = IInt (int b)" if "is_end cfg' a b e" for a b e
  proof (cases "a = i")
    case True
    then show ?thesis using that ends' rn' cfg' by (auto simp: AddServer_def)
  next
    case False
    then have "is_end c1 a b e" using that ends' by simp
    then show ?thesis using fresh topology_okD(1,2) [OF top] rn' cfg' by (simp add: AddServer_def)
  qed
  moreover have "a = a' \<and> b = b'" if "is_end cfg' a b e" "is_end cfg' a' b' e" for a b a' b' e
    using that ends' fresh [of a b e] fresh [of a' b' e] topology_okD(3) [OF top] rn'
    by (auto simp: nth_eq_iff_index_eq split: if_splits)
  moreover have "enabled (cnet cfg') e \<longleftrightarrow> (\<exists>a b. is_end cfg' a b e \<and> connected cfg' ! a \<and> connected cfg' ! b)" for e
  proof -
    have "enabled (cnet cfg') e \<longleftrightarrow> enabled (cnet c1) e \<and> e \<notin> IStr ` set names"
      using rn' cfg' by (simp add: AddServer_def)
    also have "\<dots> \<longleftrightarrow> enabled (cnet c1) e" using topology_okD(4) [OF top, of e] fresh by blast
    finally have "enabled (cnet cfg') e \<longleftrightarrow> enabled (cnet c1) e" .
    moreover have "connected cfg' = connected c1" using cfg' by simp
    ultimately show ?thesis unfolding ends' using topology_okD(4) [OF top, of e] off by metis
  qed
  moreover have "endnames cfg' ! a \<noteq> None" if "a < length (connected cfg')" "connected cfg' ! a" for a
    using that cfg' off topology_okD(5) [OF top] by (cases "a = i") auto
  moreover have "(nservers (cnet cfg') (IInt (int a)) \<noteq> None) = (rafts cfg' ! a \<noteq> None)" if "a < length (rafts cfg')" for a
    using that cfg' topology_okD(6) [OF top] rn' by (cases "a = i") (auto simp: AddServer_def)
  ultimately have "topology_ok cfg'" unfolding topology_ok_def by blast
  moreover have "sizes_ok cfg'" using cfg' sz i len by (auto simp: sizes_ok_def nth_list_update)
  ultimately show ?thesis by (simp add: harness_ok_def)
qed

text \<open>Operations on an index that is no server stop.\<close>

lemma valid_index:
  "connect i cfg = Some c \<Longrightarrow> i = int (nat i)" "disconnect i cfg = Some c \<Longrightarrow> i = int (nat i)"
  "crash1 i cfg = Some c \<Longrightarrow> i = int (nat i)" "start1 ev bs i cfg = Some c \<Longrightarrow> i = int (nat i)"
  by (auto simp: connect_def disconnect_def crash1_def start1_def Option.bind_eq_Some_conv go_update_Some in_range_def)

lemma harness_ok_rest:
  assumes "harness_ok cfg"
  shows "harness_ok (setunreliable b cfg)" "harness_ok (setlongreordering b cfg)"
    "harness_ok (cfg\<lparr>cnet := LongDelays b (cnet cfg)\<rparr>)"
    "i < length (rafts cfg) \<Longrightarrow> rafts cfg ! i \<noteq> None \<Longrightarrow> harness_ok (cfg\<lparr>rafts := (rafts cfg)[i := Some r]\<rparr>)"
    "length ls = length (logs cfg) \<Longrightarrow> harness_ok (cfg\<lparr>logs := ls\<rparr>)"
  using assms
  by (auto simp: harness_ok_def sizes_ok_def topology_ok_def is_end_def setunreliable_def setlongreordering_def
      Reliable_def LongReordering_def LongDelays_def nth_list_update)

lemma apply_reader_length: "apply_reader i m ls = Inr ls' \<Longrightarrow> length ls' = length ls"
  by (auto simp: apply_reader_def Let_def split: if_splits option.splits)

lemma harness_ok_step:
  assumes "harness_ok cfg" and "hstep ev cfg = Some cfg'"
  shows "harness_ok cfg'"
proof (cases ev)
  case (HStart e bs i)
  then show ?thesis using assms start1_ok [of cfg e bs "nat i"] valid_index(4) by (metis hstep.simps(1))
next
  case (HCrash i)
  then show ?thesis using assms crash1_Some [of cfg "nat i"] valid_index(3) by (metis hstep.simps(2))
next
  case (HConnect i)
  then show ?thesis using assms connect_ok [of cfg "nat i"] valid_index(1) by (metis hstep.simps(3))
next
  case (HDisconnect i)
  then show ?thesis using assms disconnect_ok [of cfg "nat i"] valid_index(2) by (metis hstep.simps(4))
qed (use assms harness_ok_rest in \<open>auto split: if_splits sum.splits dest: apply_reader_length\<close>)

lemma harness_ok_exec: "exec hstep evs cfg = Some cfg' \<Longrightarrow> harness_ok cfg \<Longrightarrow> harness_ok cfg'"
  by (induction evs arbitrary: cfg) (auto split: option.splits dest: harness_ok_step)

lemma blank_config_ok: "harness_ok (blank_config n)"
  by (auto simp: harness_ok_def sizes_ok_def topology_ok_def is_end_def blank_config_def MakeNetwork_def)

lemma start_all_ok: "start_all ev bs is cfg = Some cfg' \<Longrightarrow> harness_ok cfg \<Longrightarrow> harness_ok cfg'"
proof (induction "is" arbitrary: cfg)
  case (Cons i "is")
  then obtain ls c1 where "length ls = length (logs cfg)" and c1: "start1 (ev i) (bs i) i (cfg\<lparr>logs := ls\<rparr>) = Some c1"
    and rest: "start_all ev bs is c1 = Some cfg'"
    by (auto simp: Option.bind_eq_Some_conv dest: go_update_length)
  then have "harness_ok c1"
    using harness_ok_rest(5) [OF Cons.prems(2)] start1_ok [of _ "ev i" "bs i" "nat i"] valid_index(4) [OF c1] by metis
  then show ?case by (rule Cons.IH [OF rest])
qed simp

lemma connect_all_ok: "connect_all is cfg = Some cfg' \<Longrightarrow> harness_ok cfg \<Longrightarrow> harness_ok cfg'"
proof (induction "is" arbitrary: cfg)
  case (Cons i "is")
  then obtain c1 where c1: "connect i cfg = Some c1" and rest: "connect_all is c1 = Some cfg'"
    by (auto simp: Option.bind_eq_Some_conv)
  have "harness_ok c1" using connect_ok [OF Cons.prems(2), of "nat i"] c1 valid_index(1) [OF c1] by metis
  then show ?case by (rule Cons.IH [OF rest])
qed simp

lemma make_config_ok:
  assumes "make_config ev bs n u = Some cfg"
  shows "harness_ok cfg"
proof -
  let ?c = "setunreliable u (blank_config n)"
  obtain c1 where c1: "start_all ev bs (go_range (cn ?c)) (?c\<lparr>cnet := LongDelays True (cnet ?c)\<rparr>) = Some c1"
    and c: "connect_all (go_range (cn c1)) c1 = Some cfg"
    using assms by (auto simp: make_config_def Option.bind_eq_Some_conv Let_def)
  have "harness_ok (?c\<lparr>cnet := LongDelays True (cnet ?c)\<rparr>)" by (intro harness_ok_rest blank_config_ok)
  from connect_all_ok [OF c start_all_ok [OF c1 this]] show ?thesis .
qed

section \<open>What the tests rely on\<close>

text \<open>C14: The tester partitions the network as it says: after any sequence of starts, crashes,
  connections and disconnections, whatever the servers do meanwhile, an end is enabled exactly
  when it is the current end between two connected servers, and a request from server \<open>i\<close> to server
  \<open>j\<close> that is not dropped reaches a handler exactly when both are connected and \<open>j\<close> runs.\<close>

theorem network_partition:
  assumes "make_config ev bs n u = Some cfg0" and "exec hstep evs cfg0 = Some cfg"
  shows "(\<forall>e. enabled (cnet cfg) e \<longleftrightarrow> (\<exists>i j. is_end cfg i j e \<and> connected cfg ! i \<and> connected cfg ! j)) \<and>
    (\<forall>i j e. is_end cfg i j e \<longrightarrow>
       (ProcessReq_start False \<lparr>rq_endname = e, rq_svcMeth = sm, rq_argsType = T, rq_args = b\<rparr> (cnet cfg) \<noteq> None \<longleftrightarrow>
        connected cfg ! i \<and> connected cfg ! j \<and> rafts cfg ! j \<noteq> None))"
proof -
  have ok: "harness_ok cfg" by (rule harness_ok_exec [OF assms(2) make_config_ok [OF assms(1)]])
  then have sz: "sizes_ok cfg" and top: "topology_ok cfg" by (simp_all add: harness_ok_def)
  have "ProcessReq_start False \<lparr>rq_endname = e, rq_svcMeth = sm, rq_argsType = T, rq_args = b\<rparr> (cnet cfg) \<noteq> None \<longleftrightarrow>
        connected cfg ! i \<and> connected cfg ! j \<and> rafts cfg ! j \<noteq> None" if e: "is_end cfg i j e" for i j e
  proof -
    have "enabled (cnet cfg) e \<longleftrightarrow> connected cfg ! i \<and> connected cfg ! j"
      using topology_okD(3,4) [OF top] e by blast
    moreover have "(nservers (cnet cfg) (IInt (int j)) \<noteq> None) = (rafts cfg ! j \<noteq> None)"
      using topology_okD(6) [OF top, of j] is_end_sizes [OF sz e] sz by (simp add: sizes_ok_def)
    ultimately show ?thesis
      using topology_okD(2) [OF top e] by (auto simp: ProcessReq_start_def ReadEndnameInfo_def Let_def split: option.splits)
  qed
  then show ?thesis using topology_okD(4) [OF top] by blast
qed

text \<open>Two servers; server 1 is disconnected, then server 0 is started again and connected.\<close>

definition demo_env :: env where
  "demo_env = \<lparr>now = 0, draw = 0\<rparr>"

definition demo_bytes :: "int \<Rightarrow> int \<Rightarrow> 8 word list" where
  "demo_bytes i j = of_int (16 * i + j) # replicate 39 0"

definition demo_cfg :: config where
  "demo_cfg = the (make_config (\<lambda>_. demo_env) demo_bytes 2 False)"

definition demo_split :: config where
  "demo_split = the (exec hstep [HDisconnect 1, HStart demo_env (demo_bytes 2) (int 0), HConnect 0] demo_cfg)"

lemma demo_cfg_runs:
  "make_config (\<lambda>_. demo_env) demo_bytes 2 False = Some demo_cfg"
  "exec hstep [HDisconnect 1, HStart demo_env (demo_bytes 2) (int 0), HConnect 0] demo_cfg = Some demo_split"
proof -
  have "\<not> Option.is_none (make_config (\<lambda>_. demo_env) demo_bytes 2 False)" by code_simp
  then show "make_config (\<lambda>_. demo_env) demo_bytes 2 False = Some demo_cfg"
    unfolding demo_cfg_def by (simp add: Option.is_none_def)
  have "\<not> Option.is_none (exec hstep [HDisconnect 1, HStart demo_env (demo_bytes 2) (int 0), HConnect 0] demo_cfg)"
    by code_simp
  then show "exec hstep [HDisconnect 1, HStart demo_env (demo_bytes 2) (int 0), HConnect 0] demo_cfg = Some demo_split"
    unfolding demo_split_def by (simp add: Option.is_none_def)
qed

theorem network_partition_witness:
  "\<exists>e. is_end demo_split 0 1 e \<and> \<not> enabled (cnet demo_split) e \<and>
    ProcessReq_start False \<lparr>rq_endname = e, rq_svcMeth = ''Raft.RequestVote'', rq_argsType = Some ''*raft.RequestVoteArgs'', rq_args = []\<rparr> (cnet demo_split) = None"
proof -
  let ?e = "IStr (the (endnames demo_split ! 0) ! 1)"
  have e: "is_end demo_split 0 1 ?e" "\<not> connected demo_split ! 1" by code_simp+
  note p = network_partition [OF demo_cfg_runs, where sm = "''Raft.RequestVote''" and T = "Some ''*raft.RequestVoteArgs''" and b = "[]"]
  have "ProcessReq_start False \<lparr>rq_endname = ?e, rq_svcMeth = ''Raft.RequestVote'', rq_argsType = Some ''*raft.RequestVoteArgs'', rq_args = []\<rparr> (cnet demo_split) = None"
    using p e by blast
  moreover have "\<not> enabled (cnet demo_split) ?e" by code_simp
  ultimately show ?thesis using e(1) by blast
qed

section \<open>Ends of replaced servers\<close>

definition retired :: "iface \<Rightarrow> config \<Rightarrow> bool" where
  "retired e cfg \<longleftrightarrow> ends (cnet cfg) e \<and> (\<forall>i j. \<not> is_end cfg i j e)"

lemma retired_same: "same_but_enabled (cfg\<lparr>connected := c\<rparr>) cfg' \<Longrightarrow> retired e cfg' = retired e cfg"
  using same_but_enabledD(9,12) [of "cfg\<lparr>connected := c\<rparr>" cfg'] by (simp add: retired_def)

lemma crash1_ends:
  assumes "harness_ok cfg" and "crash1 (int i) cfg = Some c1"
  shows "ends (cnet c1) = ends (cnet cfg)" "is_end c1 = is_end cfg"
proof -
  have sz: "sizes_ok cfg" using assms(1) by (simp add: harness_ok_def)
  obtain c where d: "disconnect (int i) cfg = Some c"
    and c1: "cnet c1 = DeleteServer (IInt (int i)) (cnet c)" "endnames c1 = endnames c"
    using assms(2) by (auto simp: crash1_def Option.bind_eq_Some_conv Let_def)
  note same = same_but_enabledD(6,9) [OF disconnect_Some [OF d sz, THEN conjunct2, THEN conjunct1]]
  show "ends (cnet c1) = ends (cnet cfg)" using c1 same by (simp add: DeleteServer_def)
  show "is_end c1 = is_end cfg" using c1 same by (simp add: fun_eq_iff is_end_def)
qed

lemma start1_ends:
  assumes ok: "harness_ok cfg" and "start1 ev bs (int i) cfg = Some cfg'" and "ends (cnet cfg) e"
  shows "ends (cnet cfg') e" "\<not> is_end cfg' i j e" "a \<noteq> i \<Longrightarrow> is_end cfg' a j e = is_end cfg a j e"
proof -
  obtain c1 names rn p where c1: "crash1 (int i) cfg = Some c1"
    and rn: "make_ends 0 names (cnet c1) = Some rn"
    and cfg': "cfg' = c1\<lparr>endnames := (endnames c1)[i := Some names], saved := (saved c1)[i := Some p],
       rafts := (rafts c1)[i := Some (Make ev (cn c1) (int i) p)],
       cnet := AddServer (IInt (int i)) (nsrv c1) rn, nsrv := Suc (nsrv c1)\<rparr>"
    by (rule start1_Some [OF assms(1,2)])
  have i: "i < length (endnames c1)" using crash1_Some [OF ok c1] by (auto simp: harness_ok_def sizes_ok_def)
  have e: "ends (cnet c1) e" "is_end c1 = is_end cfg" using assms(3) crash1_ends [OF ok c1] by simp_all
  show "ends (cnet cfg') e" using make_ends_Some [OF rn] e(1) cfg' by (simp add: AddServer_def)
  have "e \<notin> IStr ` set names" using make_ends_Some [OF rn] e(1) by blast
  then show "\<not> is_end cfg' i j e" using cfg' i by (auto simp: is_end_def)
  have "is_end cfg' a j e = is_end c1 a j e" if "a \<noteq> i" using cfg' that by (simp add: is_end_def)
  then show "a \<noteq> i \<Longrightarrow> is_end cfg' a j e = is_end cfg a j e" using e(2) by simp
qed

lemma retired_step:
  assumes ok: "harness_ok cfg" and st: "hstep ev cfg = Some cfg'" and r: "retired e cfg"
  shows "retired e cfg'"
proof -
  have sz: "sizes_ok cfg" using ok by (simp add: harness_ok_def)
  show ?thesis
  proof (cases ev)
    case (HStart v bs i)
    then have "start1 v bs (int (nat i)) cfg = Some cfg'" using st valid_index(4) by (metis hstep.simps(1))
    note s = start1_ends [OF ok this]
    have "ends (cnet cfg) e" "\<And>a j. \<not> is_end cfg a j e" using r by (simp_all add: retired_def)
    then show ?thesis using s unfolding retired_def by metis
  next
    case (HCrash i)
    then have "crash1 (int (nat i)) cfg = Some cfg'" using st valid_index(3) by (metis hstep.simps(2))
    from crash1_ends [OF ok this] show ?thesis using r by (simp add: retired_def)
  next
    case (HConnect i)
    then have "connect (int (nat i)) cfg = Some cfg'" using st valid_index(1) by (metis hstep.simps(3))
    then show ?thesis using r connect_Some [OF _ sz] retired_same by blast
  next
    case (HDisconnect i)
    then have "disconnect (int (nat i)) cfg = Some cfg'" using st valid_index(2) by (metis hstep.simps(4))
    then show ?thesis using r disconnect_Some [OF _ sz] retired_same by blast
  qed (use st r in \<open>auto simp: retired_def is_end_def setunreliable_def setlongreordering_def Reliable_def
      LongReordering_def split: if_splits sum.splits\<close>)
qed

lemma retired_exec:
  "exec hstep evs cfg = Some cfg' \<Longrightarrow> harness_ok cfg \<Longrightarrow> retired e cfg \<Longrightarrow> retired e cfg'"
  by (induction evs arbitrary: cfg) (auto split: option.splits dest: harness_ok_step retired_step)

text \<open>A replaced server cannot send: once a server is started again, no request through an end of
  its earlier instance is ever delivered, in any continuation.\<close>

lemma old_ends_dead:
  assumes "make_config ev bs n u = Some cfg0" and "exec hstep evs cfg0 = Some cfg" and "is_end cfg i j e"
    and "exec hstep (HStart v bs' (int i) # evs') cfg = Some cfg'"
  shows "ProcessReq_start lose \<lparr>rq_endname = e, rq_svcMeth = sm, rq_argsType = T, rq_args = b\<rparr> (cnet cfg') = None"
proof -
  have ok: "harness_ok cfg" by (rule harness_ok_exec [OF assms(2) make_config_ok [OF assms(1)]])
  then have top: "topology_ok cfg" by (simp add: harness_ok_def)
  obtain c1 where c1: "start1 v bs' (int i) cfg = Some c1" and run: "exec hstep evs' c1 = Some cfg'"
    using assms(4) by (auto split: option.splits)
  have "\<not> is_end c1 a k e" for a k
    using start1_ends [OF ok c1 topology_okD(1) [OF top assms(3)]] topology_okD(3) [OF top assms(3)] by metis
  then have "retired e c1" using start1_ends(1) [OF ok c1 topology_okD(1) [OF top assms(3)]] by (simp add: retired_def)
  moreover have ok1: "harness_ok c1" by (rule start1_ok [OF ok c1])
  ultimately have "retired e cfg'" by (rule retired_exec [OF run, rotated])
  moreover have "topology_ok cfg'" using harness_ok_exec [OF run ok1] by (simp add: harness_ok_def)
  ultimately have "\<not> enabled (cnet cfg') e" using topology_okD(4) by (simp add: retired_def)
  then show ?thesis by (auto simp: ProcessReq_start_def ReadEndnameInfo_def Let_def split: option.splits)
qed

section \<open>Restarting\<close>

text \<open>Starting a server again restores its persistent state: the new instance has the term, the vote
  and the log of the instance it replaces, is a follower that has applied nothing, and satisfies
  the invariant of servers; a snapshot is not kept.\<close>

lemma start1_recovers:
  assumes "make_config ev bs n u = Some cfg0" and "exec hstep evs cfg0 = Some cfg"
    and "i < length (rafts cfg)" and "rafts cfg ! i = Some rf" and "raft_ok rf" and "me rf = int i" and "npeers rf = cn cfg"
    and "start1 v bs' (int i) cfg = Some cfg'"
  shows "\<exists>rf'. rafts cfg' ! i = Some rf' \<and> curTerm rf' = curTerm rf \<and> votedFor rf' = votedFor rf \<and> rlog rf' = rlog rf \<and>
    rstate rf' = follower \<and> lastApplied rf' = 0 \<and> raft_ok rf' \<and> ReadSnapshot (persister rf') = []"
proof -
  have ok: "harness_ok cfg" by (rule harness_ok_exec [OF assms(2) make_config_ok [OF assms(1)]])
  obtain c1 names rn p where c1: "crash1 (int i) cfg = Some c1"
    and p: "p = (case saved c1 ! i of None \<Rightarrow> MakePersister | Some p \<Rightarrow> Copy p)"
    and cfg': "cfg' = c1\<lparr>endnames := (endnames c1)[i := Some names], saved := (saved c1)[i := Some p],
       rafts := (rafts c1)[i := Some (Make v (cn c1) (int i) p)],
       cnet := AddServer (IInt (int i)) (nsrv c1) rn, nsrv := Suc (nsrv c1)\<rparr>"
    by (rule start1_Some [OF ok assms(8)])
  note cr = crash1_Some [OF ok c1]
  have "persister_of (int i) cfg = Some (Some (persister rf))"
    using assms(3,4) by (simp add: persister_of_def go_index_def in_range_nat)
  then have p': "p = \<lparr>raftstate = raftstate (persister rf), snapshot = []\<rparr>"
    using cr p by (simp add: persister_defs)
  have "i < length (rafts c1)" using cr by (auto simp: harness_ok_def sizes_ok_def)
  then have rf': "rafts cfg' ! i = Some (Make v (npeers rf) (me rf) p)" using cfg' cr assms(6,7) by simp
  let ?rf = "rf\<lparr>persister := p\<rparr>"
  have ok0: "raft_ok ?rf"
    using assms(5) p'
    by (simp add: raft_ok_def persisted_def persister_defs timeout_ok_def applied_ok_def leader_ok_def split: if_splits)
  have copy: "Copy (persister ?rf) = p" using p' by (simp add: persister_defs)
  have "ReadSnapshot (persister (Make v (npeers rf) (me rf) p)) = []" "lastApplied (Make v (npeers rf) (me rf) p) = 0"
    using p' by (simp_all add: Make_def readPersist_def persister_defs raft_state_defs split: option.splits)
  then show ?thesis
    using rf' restart_sel(1-4) [OF ok0, of v "npeers rf" "me rf", unfolded copy] raft_ok_restart [OF ok0, of v, unfolded copy]
    by simp
qed

end
