(* ===== verification/Harness_Checks.thy ===== *)
theory Harness_Checks
  imports Harness_Topology Raft_Properties
begin

text \<open>
  The checks of the tester of \<^verbatim>\<open>src/raft/config.go\<close> against the servers they check: the test for
  one leader on runs of the cluster, the readers of the apply channels on what servers apply, and
  the count of committed entries on the logs of the tester.
\<close>

section \<open>The check for one leader\<close>

text \<open>Server \<open>i\<close> is connected and answers as a leader of term \<open>t\<close>.\<close>

definition leads :: "(int \<Rightarrow> rf option) \<Rightarrow> bool list \<Rightarrow> int \<Rightarrow> int \<Rightarrow> bool" where
  "leads see con i t \<longleftrightarrow> in_range con i \<and> con ! nat i \<and> (\<exists>rf. see i = Some rf \<and> GetState rf = (t, True))"

definition leaders_ok :: "(int \<Rightarrow> rf option) \<Rightarrow> bool list \<Rightarrow> (int \<times> int list) list \<Rightarrow> bool" where
  "leaders_ok see con ls \<longleftrightarrow> distinct (map fst ls) \<and>
     (\<forall>(t, ns) \<in> set ls. ns \<noteq> [] \<and> distinct ns \<and> (\<forall>i \<in> set ns. leads see con i t))"

lemma set_update_subset: "set (AList.update k v ls) \<subseteq> insert (k, v) (set ls)"
  by (induction ls) auto

lemma leaders_ok_add:
  assumes ok: "leaders_ok see con ls" and l: "leads see con i t" and new: "\<And>t ns. (t, ns) \<in> set ls \<Longrightarrow> i \<notin> set ns"
  shows "leaders_ok see con (AList.update t ((case map_of ls t of None \<Rightarrow> [] | Some ns \<Rightarrow> ns) @ [i]) ls)"
proof -
  define ms where "ms = (case map_of ls t of None \<Rightarrow> [] | Some ns \<Rightarrow> ns) @ [i]"
  have old: "ns \<noteq> [] \<and> distinct ns \<and> (\<forall>k \<in> set ns. leads see con k t')" if "(t', ns) \<in> set ls" for t' ns
    using ok that unfolding leaders_ok_def by blast
  have add: "ms \<noteq> [] \<and> distinct ms \<and> (\<forall>k \<in> set ms. leads see con k t)"
  proof (cases "map_of ls t")
    case (Some ns)
    then have "(t, ns) \<in> set ls" by (rule map_of_SomeD)
    then show ?thesis using old [where ns = ns and t' = t] new [of t ns] l Some by (simp add: ms_def)
  qed (use l in \<open>simp add: ms_def\<close>)
  have "ns \<noteq> [] \<and> distinct ns \<and> (\<forall>k \<in> set ns. leads see con k t')"
    if "(t', ns) \<in> set (AList.update t ms ls)" for t' ns
    using subsetD [OF set_update_subset that] old [where ns = ns and t' = t'] add by blast
  moreover have "distinct (map fst (AList.update t ms ls))"
    using ok distinct_update [of ls t ms] by (simp add: leaders_ok_def)
  ultimately show ?thesis unfolding leaders_ok_def ms_def [symmetric] by blast
qed

lemma update_members:
  "(t', ns') \<in> set (AList.update t ((case map_of ls t of None \<Rightarrow> [] | Some ns \<Rightarrow> ns) @ [i]) ls) \<Longrightarrow>
     k \<in> set ns' \<Longrightarrow> k = i \<or> (\<exists>t ns. (t, ns) \<in> set ls \<and> k \<in> set ns)"
proof -
  let ?ns = "(case map_of ls t of None \<Rightarrow> [] | Some ns \<Rightarrow> ns) @ [i]"
  assume a: "(t', ns') \<in> set (AList.update t ?ns ls)" "k \<in> set ns'"
  have "set (AList.update t ?ns ls) \<subseteq> insert (t, ?ns) (set ls)" by (rule set_update_subset)
  then have "ns' = ?ns \<or> (t', ns') \<in> set ls" using a(1) by auto
  then show ?thesis using a(2) by (auto split: option.splits dest: map_of_SomeD)
qed

lemma poll_leaders_ok:
  assumes "poll_leaders see con js ls = Inr ls'" and "leaders_ok see con ls" and "distinct js"
    and "\<And>t ns i. (t, ns) \<in> set ls \<Longrightarrow> i \<in> set ns \<Longrightarrow> i \<notin> set js"
  shows "leaders_ok see con ls'"
  using assms
proof (induction js arbitrary: ls)
  case (Cons i js)
  obtain c where c: "go_index con i = Some c" using Cons.prems(1) by (auto split: option.splits)
  show ?case
  proof (cases c)
    case False
    then show ?thesis using Cons c by auto
  next
    case True
    then obtain rf where rf: "see i = Some rf" using Cons.prems(1) c by (auto split: option.splits)
    obtain t b where tb: "GetState rf = (t, b)" by fastforce
    show ?thesis
    proof (cases b)
      case False
      then show ?thesis using Cons c True rf tb by auto
    next
      case b: True
      have "leads see con i t" using c rf tb b True by (auto simp: leads_def go_index_Some)
      moreover have "i \<notin> set ns" if "(t, ns) \<in> set ls" for t ns using Cons.prems(4) [OF that, of i] by auto
      ultimately show ?thesis
        using Cons.prems c True rf tb b
        by (intro Cons.IH [OF _ leaders_ok_add [OF Cons.prems(2)]]) (auto dest!: update_members)
    qed
  qed
qed simp

lemma poll_leaders_total:
  assumes "\<And>i. i \<in> set js \<Longrightarrow> in_range con i \<and> see i \<noteq> None"
  shows "\<exists>ls'. poll_leaders see con js ls = Inr ls'"
  using assms
proof (induction js arbitrary: ls)
  case (Cons i js)
  then obtain rf where "in_range con i" "see i = Some rf" by fastforce
  then show ?case using Cons by (cases "con ! nat i") (auto simp: go_index_in split: prod.splits)
qed simp

definition seen :: "(int \<times> int list) list \<Rightarrow> int \<Rightarrow> int \<Rightarrow> bool" where
  "seen ls t i \<longleftrightarrow> (\<exists>ns. map_of ls t = Some ns \<and> i \<in> set ns)"

lemma seen_update:
  "seen (AList.update t ((case map_of ls t of None \<Rightarrow> [] | Some ns \<Rightarrow> ns) @ [i]) ls) t' k \<longleftrightarrow>
     seen ls t' k \<or> t' = t \<and> k = i"
  by (cases "map_of ls t") (auto simp: seen_def update_conv')

lemma poll_leaders_complete:
  "poll_leaders see con js ls = Inr ls' \<Longrightarrow> seen ls t i \<or> i \<in> set js \<and> leads see con i t \<Longrightarrow> seen ls' t i"
proof (induction js arbitrary: ls)
  case (Cons k js)
  then obtain c where c: "go_index con k = Some c" by (auto split: option.splits)
  show ?case
  proof (cases c)
    case False
    then show ?thesis using Cons c by (auto simp: leads_def go_index_Some)
  next
    case True
    then obtain rf where rf: "see k = Some rf" using Cons.prems(1) c by (auto split: option.splits)
    obtain u b where ub: "GetState rf = (u, b)" by fastforce
    have "poll_leaders see con js (if b then AList.update u ((case map_of ls u of None \<Rightarrow> [] | Some ns \<Rightarrow> ns) @ [k]) ls else ls)
        = Inr ls'"
      using Cons.prems(1) c True rf ub by simp
    from Cons.IH [OF this] show ?thesis using Cons.prems(2) rf ub by (auto simp: leads_def seen_update)
  qed
qed simp

lemma fold_max_fst: "fold (\<lambda>(t, ns) m. max m t) ls (m :: int) = Max (insert m (fst ` set ls))"
proof (induction ls arbitrary: m)
  case (Cons x ls)
  have "insert m (insert (fst x) (fst ` set ls)) = insert m (fst ` set (x # ls))" by simp
  then show ?case using Cons [of "max m (fst x)"]
    by (cases "set ls = {}") (auto simp: case_prod_beta max.assoc)
qed simp

lemma pick_leader_one:
  assumes ok: "leaders_ok see con ls" and one: "\<And>t ns. (t, ns) \<in> set ls \<Longrightarrow> length ns \<le> 1"
    and pos: "\<And>t ns. (t, ns) \<in> set ls \<Longrightarrow> -1 \<le> t" and ls: "ls \<noteq> []"
  shows "\<exists>i t. pick_leader ls = Inr (Some i) \<and> map_of ls t = Some [i] \<and> (\<forall>u \<in> fst ` set ls. u \<le> t)"
proof -
  let ?t = "Max (insert (-1) (fst ` set ls))"
  have "?t \<in> fst ` set ls"
  proof (cases "?t = -1")
    case True
    obtain u ns where "(u, ns) \<in> set ls" using ls by (cases ls) auto
    moreover from this have "u \<le> ?t" by (intro Max_ge) force+
    ultimately show ?thesis using pos [of u ns] True by force
  qed (use Max_in [of "insert (-1) (fst ` set ls)"] in auto)
  then obtain ns where ns: "map_of ls ?t = Some ns" "(?t, ns) \<in> set ls"
    using ok by (auto simp: leaders_ok_def)
  have "ns \<noteq> []" using ok ns(2) by (auto simp: leaders_ok_def)
  then obtain i where i: "ns = [i]" using one [OF ns(2)] by (cases ns) auto
  have "\<not> list_ex (\<lambda>(t, ns). go_len ns > 1) ls" by (auto simp: list_ex_iff go_len_def dest!: one)
  then have "pick_leader ls = Inr (Some i)"
    using ls ns(1) i by (simp add: pick_leader_def fold_max_fst go_len_def)
  moreover have "\<forall>u \<in> fst ` set ls. u \<le> ?t" by (simp add: Max_ge)
  ultimately show ?thesis using ns(1) i by blast
qed

text \<open>
  In round \<open>k\<close> the tester asks server \<open>i\<close> when the cluster is in the state \<open>st k i\<close>; the states of a
  round follow one another in one run.
\<close>

definition polled :: "(nat \<Rightarrow> int \<Rightarrow> iface cluster) \<Rightarrow> nat \<Rightarrow> int \<Rightarrow> rf option" where
  "polled st k i = Some (servers (st k i) ! nat i)"

definition poll_run :: "int \<Rightarrow> (nat \<Rightarrow> int \<Rightarrow> iface cluster) \<Rightarrow> nat \<Rightarrow> bool" where
  "poll_run n st k \<longleftrightarrow>
     (\<forall>i \<in> {0..<n}. reachable is_boot timely_step (st k i) \<and> int (length (servers (st k i))) = n) \<and>
     (\<forall>i \<in> {0..<n}. \<forall>j \<in> {0..<n}. i \<le> j \<longrightarrow> timely_step\<^sup>*\<^sup>* (st k i) (st k j))"

lemma leads_polled:
  assumes "poll_run n st k" and "length con = nat n" and "leads (polled st k) con i t"
  shows "0 \<le> i \<and> i < n \<and> nat i < length (servers (st k i)) \<and> rstate (servers (st k i) ! nat i) = leader \<and>
    curTerm (servers (st k i) ! nat i) = t \<and> 0 \<le> t"
proof -
  have i: "0 \<le> i" "i < n" "rstate (servers (st k i) ! nat i) = leader" "curTerm (servers (st k i) ! nat i) = t"
    using assms(2,3) by (auto simp: leads_def polled_def GetState_def in_range_def go_len_def split: if_splits)
  then have r: "reachable is_boot timely_step (st k i)" "int (length (servers (st k i))) = n"
    using assms(1) by (auto simp: poll_run_def)
  have "cluster_ok (st k i)" using timely.reachable_inv [OF r(1)] by blast
  moreover have "nat i < length (servers (st k i))" using i r(2) by simp
  ultimately show ?thesis using i raft_okD(4) [OF cluster_okD(1)] by blast
qed

lemma leads_unique:
  assumes run: "poll_run n st k" and con: "length con = nat n"
    and "leads (polled st k) con i t" and "leads (polled st k) con j t"
  shows "i = j"
proof -
  have "i = j" if le: "i \<le> j" and l: "leads (polled st k) con i t" "leads (polled st k) con j t" for i j
  proof -
    note i = leads_polled [OF run con l(1)] and j = leads_polled [OF run con l(2)]
    have "reachable is_boot timely_step (st k i)" "timely_step\<^sup>*\<^sup>* (st k i) (st k j)"
      using run i j le by (auto simp: poll_run_def)
    from one_leader_over_time [OF this, of "nat i" "nat j"] show ?thesis using i j by auto
  qed
  from this [of i j] this [of j i] assms(3,4) show ?thesis by linarith
qed

lemma leader_round:
  assumes run: "poll_run n st k" and con: "length con = nat n"
  shows "\<exists>ls. poll_leaders (polled st k) con (go_range n) [] = Inr ls \<and>
    (if \<exists>i t. leads (polled st k) con i t
     then \<exists>i t. pick_leader ls = Inr (Some i) \<and> leads (polled st k) con i t \<and>
       (\<forall>j u. leads (polled st k) con j u \<longrightarrow> u \<le> t)
     else pick_leader ls = Inr None)"
proof -
  let ?see = "polled st k"
  obtain ls where ls: "poll_leaders ?see con (go_range n) [] = Inr ls"
    using poll_leaders_total [of "go_range n" con ?see] con by (auto simp: polled_def in_range_def go_len_def)
  have ok: "leaders_ok ?see con ls" by (rule poll_leaders_ok [OF ls]) (auto simp: leaders_ok_def)
  then have mem: "leads ?see con i t" if "(t, ns) \<in> set ls" "i \<in> set ns" for i t ns
    using that by (auto simp: leaders_ok_def)
  have "seen ls t i" if "leads ?see con i t" for i t
    using poll_leaders_complete [OF ls, of t i] that leads_polled [OF run con that] by auto
  then have all: "t \<in> fst ` set ls" if "leads ?see con i t" for i t
    using that by (force simp: seen_def dest: map_of_SomeD)
  show ?thesis
  proof (cases "ls = []")
    case True
    then show ?thesis using ls all by (auto simp: pick_leader_def go_len_def)
  next
    case False
    have el: "\<exists>i. i \<in> set ns" "distinct ns" if "(t, ns) \<in> set ls" for t ns
      using ok that by (fastforce simp: leaders_ok_def neq_Nil_conv)+
    have "length ns \<le> 1" "-1 \<le> t" if m: "(t, ns) \<in> set ls" for t ns
    proof -
      obtain i where i: "i \<in> set ns" using el(1) [OF m] by blast
      then have "set ns \<subseteq> {i}" using leads_unique [OF run con] mem [OF m] by blast
      then have "card (set ns) \<le> 1" using card_mono [of "{i}" "set ns"] by simp
      then show "length ns \<le> 1" using distinct_card [OF el(2) [OF m]] by simp
      show "-1 \<le> t" using leads_polled [OF run con mem [OF m i]] by simp
    qed
    then obtain i t where p: "pick_leader ls = Inr (Some i)" "map_of ls t = Some [i]" "\<forall>u \<in> fst ` set ls. u \<le> t"
      using pick_leader_one [OF ok _ _ False] by blast
    have "leads ?see con i t" using mem [OF map_of_SomeD [OF p(2)]] by simp
    moreover have "\<forall>j u. leads ?see con j u \<longrightarrow> u \<le> t" using p(3) all by blast
    ultimately show ?thesis using ls p(1) by auto
  qed
qed

lemma leader_rounds_result:
  assumes "\<And>k. k \<in> set ks \<Longrightarrow> poll_run (cn cfg) st k" and "length (connected cfg) = nat (cn cfg)"
  shows "case leader_rounds (polled st) cfg ks of
      Inl e \<Rightarrow> e = NoLeader \<and> (\<forall>k \<in> set ks. \<forall>i t. \<not> leads (polled st k) (connected cfg) i t)
    | Inr i \<Rightarrow> (\<exists>k \<in> set ks. \<exists>t. leads (polled st k) (connected cfg) i t \<and>
        (\<forall>j u. leads (polled st k) (connected cfg) j u \<longrightarrow> u < t \<or> j = i))"
  using assms(1)
proof (induction ks)
  case (Cons k ks)
  have run: "poll_run (cn cfg) st k" using Cons.prems by simp
  obtain ls where ls: "poll_leaders (polled st k) (connected cfg) (go_range (cn cfg)) [] = Inr ls"
    and r: "if \<exists>i t. leads (polled st k) (connected cfg) i t
      then \<exists>i t. pick_leader ls = Inr (Some i) \<and> leads (polled st k) (connected cfg) i t \<and>
        (\<forall>j u. leads (polled st k) (connected cfg) j u \<longrightarrow> u \<le> t)
      else pick_leader ls = Inr None"
    using leader_round [OF run assms(2)] by blast
  show ?case
  proof (cases "\<exists>i t. leads (polled st k) (connected cfg) i t")
    case True
    then obtain i t where "pick_leader ls = Inr (Some i)" "leads (polled st k) (connected cfg) i t"
      "\<forall>j u. leads (polled st k) (connected cfg) j u \<longrightarrow> u \<le> t" using r by auto
    moreover from this have "u < t \<or> j = i" if "leads (polled st k) (connected cfg) j u" for j u
      using that leads_unique [OF run assms(2)] by (metis order_le_less)
    ultimately show ?thesis using ls by auto
  next
    case False
    then have "leader_rounds (polled st) cfg (k # ks) = leader_rounds (polled st) cfg ks" using ls r by simp
    then show ?thesis using Cons False by (simp split: sum.splits)
  qed
qed simp

text \<open>C10: The tester's leader check is sound for the cluster: when the servers are asked one after the
  other in states of runs in which replies are handled in time, \<^verbatim>\<open>checkOneLeader\<close> never finds two leaders in a
  term and never panics. It fails only if no connected server led when asked, and otherwise
  returns the one leader of the highest term that was seen in some round.\<close>

theorem checkOneLeader_sound:
  assumes "\<And>k. k < 10 \<Longrightarrow> poll_run (cn cfg) st k" and "sizes_ok cfg"
  shows "case checkOneLeader (polled st) cfg of
      Inl e \<Rightarrow> e = NoLeader \<and> (\<forall>k < 10. \<forall>i t. \<not> leads (polled st k) (connected cfg) i t)
    | Inr i \<Rightarrow> (\<exists>k < 10. \<exists>t. leads (polled st k) (connected cfg) i t \<and>
        (\<forall>j u. leads (polled st k) (connected cfg) j u \<longrightarrow> u < t \<or> j = i))"
  using leader_rounds_result [of "[0..<10]" cfg st] assms
  unfolding checkOneLeader_def by (simp add: sizes_ok_def split: sum.splits) auto

text \<open>Server 0 leads term 1 when it is asked, then server 1 restarts and leads term 2.\<close>

definition take_office :: "iface event list" where
  "take_office = [LifeRead 0, LifeAct 0 (at_sec 1), Deliver 0 (at_sec 1), Run 0 (at_sec 1)]"

definition take_over :: "iface event list" where
  "take_over = [Restart 1 (at_sec 2), LifeRead 1, LifeAct 1 (at_sec 3), Deliver 2 (at_sec 3), Run 2 (at_sec 3)]"

definition two_booted :: "iface cluster" where
  "two_booted = boot 2 (\<lambda>i. at_sec 0)"

definition first_term :: "iface cluster" where
  "first_term = the (exec tstep take_office two_booted)"

definition second_term :: "iface cluster" where
  "second_term = the (exec tstep take_over first_term)"

definition two_terms :: "nat \<Rightarrow> int \<Rightarrow> iface cluster" where
  "two_terms k i = (if i = 0 then first_term else second_term)"

lemma exec_star: "exec tstep evs s = Some t \<Longrightarrow> timely_step\<^sup>*\<^sup>* s t"
proof (induction evs arbitrary: s)
  case (Cons e evs)
  then obtain u where "tstep e s = Some u" and u: "timely_step\<^sup>*\<^sup>* u t" by (auto split: option.splits)
  then have "timely_step s u" by (auto simp: timely_step_def)
  then show ?case using u by (rule converse_rtranclp_into_rtranclp)
qed simp

lemma reach_terms:
  "reachable is_boot timely_step first_term" "reachable is_boot timely_step second_term"
  "timely_step\<^sup>*\<^sup>* first_term second_term"
proof -
  have "\<not> Option.is_none (exec tstep take_office two_booted)" "\<not> Option.is_none (exec tstep take_over first_term)"
    by code_simp+
  then have "timely_step\<^sup>*\<^sup>* two_booted first_term" "timely_step\<^sup>*\<^sup>* first_term second_term"
    by (auto simp: Option.is_none_def first_term_def second_term_def intro: exec_star)
  moreover have "reachable is_boot timely_step two_booted"
    unfolding is_boot_def two_booted_def by (intro reach_init exI [of _ 2] exI) simp
  ultimately show "reachable is_boot timely_step first_term" "reachable is_boot timely_step second_term"
    "timely_step\<^sup>*\<^sup>* first_term second_term" using timely_mono by blast+
qed

lemma two_terms_run: "poll_run (cn demo_cfg) two_terms k"
proof -
  have "int (length (servers first_term)) = cn demo_cfg" "int (length (servers second_term)) = cn demo_cfg"
    by code_simp+
  then show ?thesis using reach_terms by (auto simp: poll_run_def two_terms_def)
qed

theorem checkOneLeader_sound_witness:
  "checkOneLeader (polled two_terms) demo_cfg = Inr 1 \<and>
   (\<exists>k < 10. \<exists>t. leads (polled two_terms k) (connected demo_cfg) 1 t \<and>
     (\<forall>j u. leads (polled two_terms k) (connected demo_cfg) j u \<longrightarrow> u < t \<or> j = 1)) \<and>
   leads (polled two_terms 0) (connected demo_cfg) 0 1"
proof -
  have r: "checkOneLeader (polled two_terms) demo_cfg = Inr 1" by code_simp
  have "sizes_ok demo_cfg" using make_config_ok [OF demo_cfg_runs(1)] by (simp add: harness_ok_def)
  from checkOneLeader_sound [OF two_terms_run this] r
  have "\<exists>k < 10. \<exists>t. leads (polled two_terms k) (connected demo_cfg) 1 t \<and>
     (\<forall>j u. leads (polled two_terms k) (connected demo_cfg) j u \<longrightarrow> u < t \<or> j = 1)" by simp
  moreover have "GetState (servers (two_terms 0 0) ! nat 0) = (1, True)" "in_range (connected demo_cfg) 0"
    "connected demo_cfg ! nat 0" by code_simp+
  ultimately show ?thesis using r by (simp add: leads_def polled_def)
qed

section \<open>The readers\<close>

text \<open>The loop of \<^verbatim>\<open>start1\<close> over the messages of the apply channel of server \<open>i\<close>.\<close>

fun read_all :: "nat \<Rightarrow> iface ApplyMsg list \<Rightarrow> (int \<rightharpoonup> int) list \<Rightarrow> apply_err + (int \<rightharpoonup> int) list" where
  "read_all i [] ls = Inr ls"
| "read_all i (m # ms) ls = (case apply_reader i m ls of Inl e \<Rightarrow> Inl e | Inr ls \<Rightarrow> read_all i ms ls)"

lemma read_all_snoc:
  "read_all i (ms @ [m]) ls = (case read_all i ms ls of Inl e \<Rightarrow> Inl e | Inr ls \<Rightarrow> apply_reader i m ls)"
  by (induction ms arbitrary: ls) (auto split: sum.splits)

text \<open>The message is an int and no log holds another value at its index.\<close>

definition readable :: "(int \<rightharpoonup> int) list \<Rightarrow> iface ApplyMsg \<Rightarrow> bool" where
  "readable ls m \<longleftrightarrow> (case as_int (am_Command m) of
      None \<Rightarrow> False
    | Some v \<Rightarrow> \<forall>l \<in> set ls. case l (am_Index m) of None \<Rightarrow> True | Some old \<Rightarrow> old = v)"

text \<open>What the messages with the indices 1, 2, \<open>\<dots>\<close> add to a log.\<close>

definition applied_map :: "iface ApplyMsg list \<Rightarrow> int \<rightharpoonup> int" where
  "applied_map ms k = (if 1 \<le> k \<and> k \<le> go_len ms then as_int (am_Command (ms ! nat (k - 1))) else None)"

lemma applied_map_snoc:
  "as_int (am_Command m) = Some v \<Longrightarrow> applied_map (ms @ [m]) = (applied_map ms)(go_len ms + 1 \<mapsto> v)"
  by (rule ext) (auto simp: applied_map_def go_len_def nth_append)

lemma apply_reader_in_order:
  assumes "\<not> am_UseSnapshot m" and "am_Index m > 1 \<Longrightarrow> (ls ! i) (am_Index m - 1) \<noteq> None"
  shows "apply_reader i m ls =
    (if readable ls m then Inr (ls[i := (ls ! i)(am_Index m \<mapsto> the (as_int (am_Command m)))])
     else Inl (if as_int (am_Command m) = None then NotInt else Mismatch))"
  using assms by (auto simp: apply_reader_def readable_def Let_def list_ex_iff split: option.splits)

lemma readable_other_index:
  assumes "i < length ls" and "\<And>k. k \<le> n \<Longrightarrow> k < am_Index m" and "dom f \<subseteq> {..n :: int}"
  shows "readable (ls[i := ls ! i ++ f]) m = readable ls m"
proof -
  have "f (am_Index m) = None" using assms(2) [of "am_Index m"] assms(3) by (auto simp: dom_def)
  then have "(ls ! i ++ f) (am_Index m) = (ls ! i) (am_Index m)" by (simp add: map_add_def)
  moreover have "(\<forall>l \<in> set (ls[i := g]). P l) \<longleftrightarrow> (\<forall>l \<in> set ls. P l)" if "P g = P (ls ! i)" for P g
    using that assms(1) by (auto simp: all_set_conv_all_nth nth_list_update)
  ultimately show ?thesis unfolding readable_def by (simp split: option.splits)
qed

lemma read_all_result:
  assumes "map am_Index ms = [1..n]" and "\<forall>m \<in> set ms. \<not> am_UseSnapshot m" and "i < length ls"
  shows "if list_all (readable ls) ms then read_all i ms ls = Inr (ls[i := ls ! i ++ applied_map ms])
    else read_all i ms ls \<in> {Inl NotInt, Inl Mismatch}"
  using assms(1,2)
proof (induction ms arbitrary: n rule: rev_induct)
  case Nil
  have "applied_map [] = Map.empty" by (rule ext) (auto simp: applied_map_def go_len_def)
  then show ?case by simp
next
  case (snoc m ms)
  have n: "1 \<le> n" using snoc.prems(1) by (cases "1 \<le> n") auto
  then have idx: "map am_Index ms = [1..n - 1]" "am_Index m = n"
    using snoc.prems(1) by (simp_all add: upto_rec2)
  have len: "go_len ms = n - 1" using arg_cong [OF idx(1), of length] n by (simp add: go_len_def)
  note IH = snoc.IH [OF idx(1)]
  show ?case
  proof (cases "list_all (readable ls) ms")
    case False
    then show ?thesis using IH snoc.prems(2) by (auto simp: read_all_snoc)
  next
    case True
    let ?ls = "ls[i := ls ! i ++ applied_map ms]"
    have r: "read_all i ms ls = Inr ?ls" using IH True snoc.prems(2) by auto
    have "applied_map ms (n - 1) \<noteq> None" if "n > 1"
      using True that len by (auto simp: applied_map_def go_len_def list_all_length readable_def split: option.splits)
    then have "(?ls ! i) (am_Index m - 1) \<noteq> None" if "am_Index m > 1"
      using that assms(3) idx by (auto simp: map_add_def)
    note ar = apply_reader_in_order [OF _ this]
    have "dom (applied_map ms) \<subseteq> {..n - 1}" using len by (auto simp: applied_map_def split: if_splits)
    from readable_other_index [OF assms(3) _ this] have same: "readable ?ls m = readable ls m" using idx by simp
    have "?ls[i := (?ls ! i)(am_Index m \<mapsto> v)] = ls[i := ls ! i ++ applied_map (ms @ [m])]"
      if "as_int (am_Command m) = Some v" for v
      using that assms(3) len idx by (simp add: applied_map_snoc)
    moreover have "\<exists>v. as_int (am_Command m) = Some v" if "readable ls m"
      using that by (auto simp: readable_def split: option.splits)
    ultimately show ?thesis using r ar same snoc.prems(2) True by (auto simp: read_all_snoc)
  qed
qed

text \<open>C11: The readers of the tester fit the apply channels of the cluster: for a server of any run, the
  loop over its messages never reports an application out of order. If every command is an int
  and agrees with the values the tester has recorded at its index, the log of the server ends up
  with the applied commands over what it held before (a restarted server applies its log again);
  otherwise the reader reports the mismatch or the command that is no int.\<close>

theorem readers_in_order:
  assumes "reachable is_boot cluster_step s" and "i < length (servers s)" and "i < length ls"
  shows "if list_all (readable ls) (applyCh (servers s ! i))
    then read_all i (applyCh (servers s ! i)) ls = Inr (ls[i := ls ! i ++ applied_map (applyCh (servers s ! i))])
    else read_all i (applyCh (servers s ! i)) ls \<in> {Inl NotInt, Inl Mismatch}"
proof -
  have "cluster_ok s" using cluster.reachable_inv [OF assms(1)] by blast
  then have "applied_ok (servers s ! i)" using raft_okD(8) [OF cluster_okD(1)] assms(2) by blast
  then show ?thesis unfolding applied_ok_def by (intro read_all_result [OF _ _ assms(3)]) blast+
qed

text \<open>Server 0 of \<open>first_term\<close> replicates the commands 7 and 8 and applies them; the tester has seen
  server 1 apply the first.\<close>

definition two_commands :: "iface event list" where
  "two_commands = [Client 0 (Some (IInt 7)), Client 0 (Some (IInt 8)), Run 2 (at_sec 1), Deliver 3 (at_sec 1), Run 3 (at_sec 1),
     Apply 0, Apply 0]"

definition two_applied :: "iface cluster" where
  "two_applied = the (exec tstep two_commands first_term)"

lemma reach_two_applied: "reachable is_boot timely_step two_applied"
proof -
  have "\<not> Option.is_none (exec tstep two_commands first_term)" by code_simp
  then have "timely_step\<^sup>*\<^sup>* first_term two_applied"
    by (auto simp: Option.is_none_def two_applied_def intro: exec_star)
  then show ?thesis using timely_mono reach_terms(1) by blast
qed

theorem readers_in_order_witness:
  "\<exists>ls. read_all 0 (applyCh (servers two_applied ! 0)) [Map.empty, [1 \<mapsto> 7]] = Inr ls \<and> length ls = 2 \<and>
     (ls ! 0) 1 = Some 7 \<and> (ls ! 0) 2 = Some 8"
proof -
  have "list_all (readable [Map.empty, [1 \<mapsto> 7]]) (applyCh (servers two_applied ! 0))" "0 < length (servers two_applied)"
    "applied_map (applyCh (servers two_applied ! 0)) 1 = Some 7" "applied_map (applyCh (servers two_applied ! 0)) 2 = Some 8"
    by code_simp+
  with readers_in_order [OF timely_cluster [OF reach_two_applied], of 0 "[Map.empty, [1 \<mapsto> 7]]"]
  show ?thesis by simp
qed

section \<open>Counting the servers that committed\<close>

definition agree :: "(int \<rightharpoonup> int) \<Rightarrow> (int \<rightharpoonup> int) \<Rightarrow> bool" where
  "agree l l' \<longleftrightarrow> (\<forall>k v v'. l k = Some v \<longrightarrow> l' k = Some v' \<longrightarrow> v = v')"

definition logs_agree :: "(int \<rightharpoonup> int) list \<Rightarrow> bool" where
  "logs_agree ls \<longleftrightarrow> (\<forall>l \<in> set ls. \<forall>l' \<in> set ls. agree l l')"

definition records_ok :: "config \<Rightarrow> bool" where
  "records_ok cfg \<longleftrightarrow> logs_agree (logs cfg) \<and> (\<forall>e \<in> set (applyErr cfg). e = [])"












lemma committed_loop_result:
  assumes "\<forall>(e, l) \<in> set ls. e = [] \<and> (\<forall>v. l index = Some v \<longrightarrow> v = c)" and "0 \<le> cnt" and "cnt > 0 \<Longrightarrow> cmd = c"
  shows "committed_loop index ls cnt cmd =
    Inr (cnt + go_len (filter (\<lambda>(e, l). l index \<noteq> None) ls), if list_ex (\<lambda>(e, l). l index \<noteq> None) ls then c else cmd)"
  using assms
proof (induction ls arbitrary: cnt cmd)
  case (Cons x ls)
  obtain e l where x: "x = (e, l)" by fastforce
  show ?case
  proof (cases "l index")
    case None
    then show ?thesis using Cons x by (auto simp: go_len_def)
  next
    case (Some v)
    then have "v = c" "e = []" using Cons.prems(1) x by auto
    moreover have "\<not> (cnt > 0 \<and> cmd \<noteq> c)" using Cons.prems(3) by blast
    ultimately show ?thesis using Cons.prems(1,2) x Some Cons.IH [of "cnt + 1" c] by (simp add: go_len_def)
  qed
qed (simp add: go_len_def)

text \<open>The servers whose log in the tester holds an entry at the index.\<close>

definition committed_at :: "int \<Rightarrow> config \<Rightarrow> nat set" where
  "committed_at index cfg = {i. i < length (logs cfg) \<and> (logs cfg ! i) index \<noteq> None}"

lemma nCommitted_result:
  assumes sz: "sizes_ok cfg" and ok: "records_ok cfg"
  shows "\<exists>cmd. nCommitted index cfg = Inr (int (card (committed_at index cfg)), cmd) \<and>
    (\<forall>i \<in> committed_at index cfg. (logs cfg ! i) index = Some cmd) \<and> (committed_at index cfg = {} \<longrightarrow> cmd = -1)"
proof -
  let ?ls = "zip (applyErr cfg) (logs cfg)"
  have len: "length (applyErr cfg) = length (logs cfg)" using sz by (simp add: sizes_ok_def)
  define c where "c = (if committed_at index cfg = {} then -1 else the ((logs cfg ! (SOME i. i \<in> committed_at index cfg)) index))"
  have same: "v = c" if l: "l \<in> set (logs cfg)" "l index = Some v" for l v
  proof -
    have "committed_at index cfg \<noteq> {}" using l by (auto simp: committed_at_def in_set_conv_nth)
    then have h: "(SOME i. i \<in> committed_at index cfg) \<in> committed_at index cfg" by (simp add: some_in_eq)
    then obtain w where "(logs cfg ! (SOME i. i \<in> committed_at index cfg)) index = Some w" by (auto simp: committed_at_def)
    moreover from this have "c = w" using h by (auto simp: c_def)
    moreover have "agree l (logs cfg ! (SOME i. i \<in> committed_at index cfg))"
      using ok l(1) h by (auto simp: records_ok_def logs_agree_def committed_at_def)
    ultimately show ?thesis using l(2) by (simp add: agree_def)
  qed
  have "nCommitted index cfg = Inr (go_len (filter (\<lambda>(e, l). l index \<noteq> None) ?ls),
      if list_ex (\<lambda>(e, l). l index \<noteq> None) ?ls then c else -1)"
    unfolding nCommitted_def
    by (subst committed_loop_result [where c = c]) (use ok in \<open>auto simp: records_ok_def dest: set_zip_leftD set_zip_rightD intro: same\<close>)
  moreover have "length (filter (\<lambda>(e, l). l index \<noteq> None) ?ls) = card (committed_at index cfg)"
    using len by (auto simp: length_filter_conv_card committed_at_def intro!: arg_cong [of _ _ card])
  moreover have "list_ex (\<lambda>(e, l). l index \<noteq> None) ?ls \<longleftrightarrow> committed_at index cfg \<noteq> {}"
    using len by (auto simp: list_ex_length committed_at_def)
  moreover have "(logs cfg ! i) index = Some c" if "i \<in> committed_at index cfg" for i
    using that same [of "logs cfg ! i"] by (auto simp: committed_at_def)
  ultimately show ?thesis by (auto simp: go_len_def)
qed






section \<open>One agreement\<close>

definition tester_ok :: "int \<Rightarrow> config \<Rightarrow> bool" where
  "tester_ok n cfg \<longleftrightarrow> sizes_ok cfg \<and> records_ok cfg \<and> cn cfg = n \<and> (\<forall>rf. Some rf \<in> set (rafts cfg) \<longrightarrow> raft_ok rf)"











section \<open>The other checks\<close>

lemma moved_on_result:
  "None \<notin> set rs \<Longrightarrow> moved_on startTerm rs = Inr (\<exists>rf. Some rf \<in> set rs \<and> startTerm < curTerm rf)"
  by (induction startTerm rs rule: moved_on.induct) (auto simp: GetState_def)

lemma wait_rounds_result:
  assumes "\<forall>k. tester_ok n (at k) \<and> None \<notin> set (see k)"
  shows "\<exists>b. wait_rounds at see index m startTerm ks = Inr b \<and>
    (\<not> b \<longrightarrow> -1 < startTerm \<and> (\<exists>k \<in> set ks. \<exists>rf. Some rf \<in> set (see k) \<and> startTerm < curTerm rf))"
proof (induction ks)
  case (Cons k ks)
  obtain c where c: "nCommitted index (at k) = Inr (int (card (committed_at index (at k))), c)"
    using nCommitted_result [of "at k" index] assms by (auto simp: tester_ok_def)
  have mv: "moved_on startTerm (see k) = Inr (\<exists>rf. Some rf \<in> set (see k) \<and> startTerm < curTerm rf)" (is "_ = Inr ?mv")
    using moved_on_result assms by blast
  show ?case using Cons.IH c mv by (cases ?mv) auto
qed auto

text \<open>
  \<^verbatim>\<open>wait\<close> gives up with -1 only if it may and a server has a later term; otherwise it returns the
  value that at least \<open>m\<close> servers hold at the index, or fails because they are fewer.
\<close>

lemma wait_result:
  assumes "\<forall>k. tester_ok n (at k) \<and> None \<notin> set (see k)" and "tester_ok n fin"
  shows "case wait at see fin index m startTerm of
      Inl e \<Rightarrow> e = TooFew \<and> int (card (committed_at index fin)) < m
    | Inr c \<Rightarrow> c = -1 \<and> -1 < startTerm \<and> (\<exists>k < 30. \<exists>rf. Some rf \<in> set (see k) \<and> startTerm < curTerm rf) \<or>
        m \<le> int (card (committed_at index fin)) \<and> (\<forall>i \<in> committed_at index fin. (logs fin ! i) index = Some c)"
proof -
  obtain b where b: "wait_rounds at see index m startTerm [0..<30] = Inr b"
    "\<not> b \<longrightarrow> -1 < startTerm \<and> (\<exists>k \<in> set [0..<30]. \<exists>rf. Some rf \<in> set (see k) \<and> startTerm < curTerm rf)"
    using wait_rounds_result [OF assms(1)] by blast
  obtain c where "nCommitted index fin = Inr (int (card (committed_at index fin)), c)"
    "\<forall>i \<in> committed_at index fin. (logs fin ! i) index = Some c"
    using nCommitted_result [of fin index] assms(2) by (auto simp: tester_ok_def)
  then show ?thesis using b by (cases b) (auto simp: wait_def)
qed

lemma no_leader_loop_result:
  assumes "\<forall>i \<in> set js. in_range con i \<and> see i \<noteq> None"
  shows "no_leader_loop see con js = (if \<exists>i \<in> set js. \<exists>t. leads see con i t then Some UnexpectedLeader else None)"
  using assms
proof (induction js)
  case (Cons i js)
  then obtain rf where rf: "in_range con i" "see i = Some rf" by auto
  have "(\<exists>t. leads see con i t) \<longleftrightarrow> con ! nat i \<and> snd (GetState rf)"
    using rf by (cases "GetState rf") (auto simp: leads_def)
  then show ?case using Cons rf by (cases "con ! nat i") (auto simp: go_index_in)
qed simp

lemma checkNoLeader_result:
  assumes "sizes_ok cfg" and "\<forall>i. see i \<noteq> None"
  shows "checkNoLeader see cfg = (if \<exists>i t. leads see (connected cfg) i t then Some UnexpectedLeader else None)"
proof -
  have *: "i \<in> set (go_range (cn cfg)) \<longleftrightarrow> in_range (connected cfg) i" for i
    using assms(1) by (auto simp: sizes_ok_def in_range_def go_len_def)
  then have "(\<exists>i \<in> set (go_range (cn cfg)). \<exists>t. leads see (connected cfg) i t) \<longleftrightarrow> (\<exists>i t. leads see (connected cfg) i t)"
    unfolding leads_def by blast
  then show ?thesis using * assms(2) by (subst checkNoLeader_def, subst no_leader_loop_result) auto
qed

text \<open>\<^verbatim>\<open>checkTerms\<close> returns a term only if it is the term of all connected servers.\<close>

lemma term_loop_agree:
  assumes "term_loop see con js t = Inr t'" and "\<forall>i. \<exists>rf. see i = Some rf \<and> 0 \<le> curTerm rf"
  shows "(t \<noteq> -1 \<longrightarrow> t' = t) \<and> (\<forall>i \<in> set js. con ! nat i \<longrightarrow> map_option curTerm (see i) = Some t')"
  using assms(1)
proof (induction js arbitrary: t)
  case (Cons i js)
  obtain rf where rf: "see i = Some rf" "0 \<le> curTerm rf" using assms(2) by blast
  then have "curTerm rf \<noteq> -1" by simp
  then show ?case using Cons.IH [of t] Cons.IH [of "curTerm rf"] Cons.prems rf
    by (cases "go_index con i") (auto simp: GetState_def go_index_Some split: bool.splits if_splits)
qed simp

lemma checkTerms_agree:
  assumes "checkTerms see cfg = Inr t" and "\<forall>i. \<exists>rf. see i = Some rf \<and> 0 \<le> curTerm rf"
    and "0 \<le> i" and "i < cn cfg" and "connected cfg ! nat i"
  shows "map_option curTerm (see i) = Some t"
  using term_loop_agree [OF assms(1) [unfolded checkTerms_def] assms(2)] assms(3-5) by auto

end
