(* ===== verification/Labrpc_Net.thy ===== *)
theory Labrpc_Net
  imports Labrpc
begin

text \<open>
  The network of \<^verbatim>\<open>src/labrpc/labrpc.go\<close> in operation: clients that call, one goroutine
  \<^verbatim>\<open>ProcessReq\<close> per call and one more for the handler, as a transition system. The handler may
  still run after the call was answered with a failure. Sleeping only orders the steps.
\<close>

section \<open>The transition system\<close>

datatype stage = Queued | Awaiting pinfo | Answered replyMsg

datatype hstat = Idle | Running nat | Returned replyMsg

record call =
  cl_req :: reqMsg
  cl_stage :: stage
  cl_handler :: hstat

text \<open>A run of a handler: the call, the server, the objects before and after, and the reply.\<close>

record ('r, 's) entry =
  h_call :: nat
  h_server :: nat
  h_before :: 's
  h_reply :: 'r
  h_after :: 's

text \<open>\<open>history\<close> is a history variable. \<open>halted\<close> tells how the program stopped.\<close>

record ('a, 'r, 's) world =
  net :: Network
  heap :: "('a, 'r, 's) Server list"
  objs :: 's
  calls :: "call list"
  history :: "('r, 's) entry list"
  halted :: "rpc_stop option"

text \<open>
  \<^verbatim>\<open>AddServer\<close> registers a new server, or one that was made before and may be registered already
  under some name (\<open>NAddAgain\<close>). \<open>NLocal\<close> is any change of the objects outside of calls.
\<close>

datatype ('a, 'r, 's) nevent =
    NCall iface string 'a
  | NProcess nat bool
  | NDispatch nat
  | NPoll nat
  | NAnswer nat bool
  | NLocal 's
  | NReliable bool
  | NLongReordering bool
  | NLongDelays bool
  | NMakeEnd iface
  | NConnect iface iface
  | NEnable iface bool
  | NAddServer iface "('a, 'r, 's) Server"
  | NAddAgain iface nat
  | NAddService nat "('a, 'r, 's) Service"
  | NDeleteServer iface
  | NGetCount iface

definition set_call :: "nat \<Rightarrow> call \<Rightarrow> ('a, 'r, 's) world \<Rightarrow> ('a, 'r, 's) world" where
  "set_call k c w = w\<lparr>calls := (calls w)[k := c]\<rparr>"

definition ProcessReq :: "nat \<Rightarrow> bool \<Rightarrow> ('a, 'r, 's) world \<Rightarrow> ('a, 'r, 's) world option" where
  "ProcessReq k lose w =
     (let c = calls w ! k in
      case cl_stage c of
        Queued \<Rightarrow>
          Some (set_call k (case ProcessReq_start lose (cl_req c) (net w) of
              None \<Rightarrow> c\<lparr>cl_stage := Answered failed\<rparr>
            | Some i \<Rightarrow> c\<lparr>cl_stage := Awaiting i, cl_handler := Running (pi_server i)\<rparr>) w)
      | Awaiting i \<Rightarrow>
          (case cl_handler c of
             Returned rep \<Rightarrow>
               Some (set_call k (c\<lparr>cl_stage := Answered (ProcessReq_answer lose (cl_req c) i (Some rep) (net w))\<rparr>) w)
           | _ \<Rightarrow> None)
      | Answered rep \<Rightarrow> None)"

definition ProcessReq_timeout :: "nat \<Rightarrow> ('a, 'r, 's) world \<Rightarrow> ('a, 'r, 's) world option" where
  "ProcessReq_timeout k w =
     (let c = calls w ! k in
      case cl_stage c of
        Awaiting i \<Rightarrow>
          Some (if ProcessReq_poll (cl_req c) i (net w)
            then set_call k (c\<lparr>cl_stage := Answered (ProcessReq_answer False (cl_req c) i None (net w))\<rparr>) w
            else w)
      | _ \<Rightarrow> None)"

definition run_handler :: "('a, 'r) codecs \<Rightarrow> nat \<Rightarrow> ('a, 'r, 's) world \<Rightarrow> ('a, 'r, 's) world option" where
  "run_handler g k w =
     (let c = calls w ! k in
      case cl_handler c of
        Running p \<Rightarrow>
          Some (case Server_dispatch g (cl_req c) (heap w ! p) (objs w) of
              Inl e \<Rightarrow> w\<lparr>halted := Some e\<rparr>
            | Inr (rs, r, rep, st) \<Rightarrow>
                (set_call k (c\<lparr>cl_handler := Returned rep\<rparr>) w)\<lparr>heap := (heap w)[p := rs], objs := st,
                   history := \<lparr>h_call = k, h_server = p, h_before = objs w, h_reply = r, h_after = st\<rparr> # history w\<rparr>)
      | _ \<Rightarrow> None)"

fun nact :: "('a, 'r) codecs \<Rightarrow> ('a, 'r, 's) nevent \<Rightarrow> ('a, 'r, 's) world \<Rightarrow> ('a, 'r, 's) world option" where
  "nact g (NCall e sm a) w =
     (if ends (net w) e
      then Some (case Call_request g e sm a of
          Inl x \<Rightarrow> w\<lparr>halted := Some x\<rparr>
        | Inr req \<Rightarrow> w\<lparr>calls := calls w @ [\<lparr>cl_req = req, cl_stage = Queued, cl_handler = Idle\<rparr>]\<rparr>)
      else None)"
| "nact g (NProcess k lose) w =
     (if k < length (calls w) \<and> cl_stage (calls w ! k) = Queued then ProcessReq k lose w else None)"
| "nact g (NDispatch k) w = (if k < length (calls w) then run_handler g k w else None)"
| "nact g (NPoll k) w = (if k < length (calls w) then ProcessReq_timeout k w else None)"
| "nact g (NAnswer k lose) w =
     (if k < length (calls w) \<and> cl_stage (calls w ! k) \<noteq> Queued then ProcessReq k lose w else None)"
| "nact g (NLocal st) w = Some (w\<lparr>objs := st\<rparr>)"
| "nact g (NReliable b) w = Some (w\<lparr>net := Reliable b (net w)\<rparr>)"
| "nact g (NLongReordering b) w = Some (w\<lparr>net := LongReordering b (net w)\<rparr>)"
| "nact g (NLongDelays b) w = Some (w\<lparr>net := LongDelays b (net w)\<rparr>)"
| "nact g (NMakeEnd e) w =
     Some (case MakeEnd e (net w) of Inl x \<Rightarrow> w\<lparr>halted := Some x\<rparr> | Inr n \<Rightarrow> w\<lparr>net := n\<rparr>)"
| "nact g (NConnect e s) w = Some (w\<lparr>net := Connect e s (net w)\<rparr>)"
| "nact g (NEnable e b) w = Some (w\<lparr>net := Enable e b (net w)\<rparr>)"
| "nact g (NAddServer s rs) w =
     Some (w\<lparr>net := AddServer s (length (heap w)) (net w), heap := heap w @ [rs]\<rparr>)"
| "nact g (NAddAgain s p) w = (if p < length (heap w) then Some (w\<lparr>net := AddServer s p (net w)\<rparr>) else None)"
| "nact g (NAddService p svc) w =
     (if p < length (heap w) then Some (w\<lparr>heap := (heap w)[p := AddService svc (heap w ! p)]\<rparr>) else None)"
| "nact g (NDeleteServer s) w = Some (w\<lparr>net := DeleteServer s (net w)\<rparr>)"
| "nact g (NGetCount s) w =
     Some (case GetCount s (heap w) (net w) of Inl x \<Rightarrow> w\<lparr>halted := Some x\<rparr> | Inr n \<Rightarrow> w)"

definition nstep :: "('a, 'r) codecs \<Rightarrow> ('a, 'r, 's) nevent \<Rightarrow> ('a, 'r, 's) world \<Rightarrow> ('a, 'r, 's) world option" where
  "nstep g ev w = (if halted w = None then nact g ev w else None)"

definition net_start :: "'s \<Rightarrow> ('a, 'r, 's) world" where
  "net_start st = \<lparr>net = MakeNetwork, heap = [], objs = st, calls = [], history = [], halted = None\<rparr>"

definition net_init :: "('a, 'r, 's) world \<Rightarrow> bool" where
  "net_init w \<longleftrightarrow> (\<exists>st. w = net_start st)"

definition net_step :: "('a, 'r) codecs \<Rightarrow> ('a, 'r, 's) world \<Rightarrow> ('a, 'r, 's) world \<Rightarrow> bool" where
  "net_step g w w' \<longleftrightarrow> (\<exists>ev. nstep g ev w = Some w')"

section \<open>What a step does to a call\<close>

text \<open>
  The five ways in which a call changes: it is dropped or cannot be delivered, its handler is
  started, the handler returns, the answer is the reply of the handler, or it is a failure.
\<close>

inductive call_step :: "('a, 'r) codecs \<Rightarrow> ('a, 'r, 's) world \<Rightarrow> call \<Rightarrow> call \<Rightarrow> bool"
  for g :: "('a, 'r) codecs" and w :: "('a, 'r, 's) world" where
  refuse: "cl_stage c = Queued \<Longrightarrow> call_step g w c (c\<lparr>cl_stage := Answered failed\<rparr>)"
| begin_handler: "cl_stage c = Queued \<Longrightarrow> ProcessReq_start lose (cl_req c) (net w) = Some i \<Longrightarrow>
    call_step g w c (c\<lparr>cl_stage := Awaiting i, cl_handler := Running (pi_server i)\<rparr>)"
| return_handler: "cl_handler c = Running p \<Longrightarrow> Server_dispatch g (cl_req c) (heap w ! p) (objs w) = Inr (rs, r, rep, st) \<Longrightarrow>
    call_step g w c (c\<lparr>cl_handler := Returned rep\<rparr>)"
| answer_reply: "cl_stage c = Awaiting i \<Longrightarrow> cl_handler c = Returned rep \<Longrightarrow>
    \<not> IsServerDead (rq_endname (cl_req c)) (pi_servername i) (pi_server i) (net w) \<Longrightarrow>
    call_step g w c (c\<lparr>cl_stage := Answered rep\<rparr>)"
| answer_failed: "cl_stage c = Awaiting i \<Longrightarrow> call_step g w c (c\<lparr>cl_stage := Answered failed\<rparr>)"

lemma ProcessReq_call:
  "ProcessReq k lose w = Some w' \<Longrightarrow> \<exists>c. call_step g w (calls w ! k) c \<and> w' = set_call k c w"
  by (auto simp: ProcessReq_def ProcessReq_answer_def Let_def split: stage.splits hstat.splits option.splits if_splits
      intro: call_step.intros)

lemma ProcessReq_timeout_call:
  "ProcessReq_timeout k w = Some w' \<Longrightarrow> w' = w \<or> (\<exists>c. call_step g w (calls w ! k) c \<and> w' = set_call k c w)"
  by (auto simp: ProcessReq_timeout_def ProcessReq_answer_def Let_def split: stage.splits if_splits
      intro: call_step.intros)

text \<open>The four kinds of steps of the network.\<close>

lemma nstep_elim:
  assumes "nstep g ev w = Some w'"
  obtains (quiet) "calls w' = calls w" "history w' = history w" "length (heap w) \<le> length (heap w')"
      "\<And>n p. nservers (net w') n = Some p \<Longrightarrow> nservers (net w) n = Some p \<or> p < length (heap w') \<and> (p = length (heap w) \<or> ev = NAddAgain n p)"
  | (queued) c where "w' = w\<lparr>calls := calls w @ [c]\<rparr>" "cl_stage c = Queued" "cl_handler c = Idle"
  | (changed) k c where "k < length (calls w)" "call_step g w (calls w ! k) c" "w' = set_call k c w"
      "\<And>rep. cl_handler c = Returned rep \<Longrightarrow> cl_handler (calls w ! k) = Returned rep"
  | (ran) k p rs r rep st where "k < length (calls w)" "cl_handler (calls w ! k) = Running p"
      "Server_dispatch g (cl_req (calls w ! k)) (heap w ! p) (objs w) = Inr (rs, r, rep, st)"
      "w' = (set_call k ((calls w ! k)\<lparr>cl_handler := Returned rep\<rparr>) w)\<lparr>heap := (heap w)[p := rs], objs := st,
         history := \<lparr>h_call = k, h_server = p, h_before = objs w, h_reply = r, h_after = st\<rparr> # history w\<rparr>"
proof -
  have act: "nact g ev w = Some w'" using assms by (simp add: nstep_def split: if_splits)
  have proc: thesis if k: "k < length (calls w)" and pr: "ProcessReq k lose w = Some w'" for k lose
  proof -
    obtain c where c: "call_step g w (calls w ! k) c" "w' = set_call k c w"
      using ProcessReq_call [OF pr] by blast
    have "cl_handler (calls w ! k) = Returned rep" if "cl_handler c = Returned rep" for rep
    proof -
      have "calls w' ! k = c" using c(2) k by (simp add: set_call_def)
      then show ?thesis using that pr k
        by (auto simp: ProcessReq_def set_call_def Let_def split: stage.splits hstat.splits option.splits)
    qed
    then show thesis using changed [OF k c] by blast
  qed
  show thesis
  proof (cases ev)
    case (NCall e sm a)
    then show thesis using act queued quiet by (auto split: if_splits sum.splits)
  next
    case (NProcess k lose)
    then show thesis using act proc by (auto split: if_splits)
  next
    case (NAnswer k lose)
    then show thesis using act proc by (auto split: if_splits)
  next
    case (NDispatch k)
    then show thesis using act ran [of k] quiet
      by (auto simp: run_handler_def Let_def split: if_splits hstat.splits sum.splits)
  next
    case (NPoll k)
    then have k: "k < length (calls w)" "ProcessReq_timeout k w = Some w'" using act by (auto split: if_splits)
    have keep: "cl_handler (calls w' ! k) = cl_handler (calls w ! k)"
      using k by (auto simp: ProcessReq_timeout_def set_call_def Let_def split: stage.splits if_splits)
    from ProcessReq_timeout_call [OF k(2), of g] show thesis
    proof
      assume "w' = w"
      then show thesis using quiet by simp
    next
      assume "\<exists>c. call_step g w (calls w ! k) c \<and> w' = set_call k c w"
      then obtain c where c: "call_step g w (calls w ! k) c" "w' = set_call k c w" by blast
      then show thesis using changed [OF k(1) c] keep k(1) by (simp add: set_call_def)
    qed
  qed (use act in \<open>auto intro!: quiet simp: Reliable_def LongReordering_def LongDelays_def MakeEnd_def Connect_def
      Enable_def AddServer_def DeleteServer_def GetCount_def split: if_splits sum.splits\<close>)
qed

section \<open>The invariant\<close>

definition runs_of :: "nat \<Rightarrow> ('r, 's) entry list \<Rightarrow> ('r, 's) entry list" where
  "runs_of k h = filter (\<lambda>x. h_call x = k) h"

text \<open>The reply \<open>rep\<close> is that of the run \<open>x\<close> of the handler on the request.\<close>

definition ran_as :: "('a, 'r) codecs \<Rightarrow> reqMsg \<Rightarrow> ('r, 's) entry \<Rightarrow> replyMsg \<Rightarrow> bool" where
  "ran_as g req x rep \<longleftrightarrow> (\<exists>(rs :: ('a, 'r, 's) Server) rs'.
     Server_dispatch g req rs (h_before x) = Inr (rs', h_reply x, rep, h_after x))"

definition call_ok :: "('a, 'r) codecs \<Rightarrow> ('r, 's) entry list \<Rightarrow> nat \<Rightarrow> nat \<Rightarrow> call \<Rightarrow> bool" where
  "call_ok g h n k c \<longleftrightarrow>
     (cl_stage c = Queued \<longrightarrow> cl_handler c = Idle) \<and>
     (\<forall>i. cl_stage c = Awaiting i \<longrightarrow> pi_server i < n) \<and>
     (\<forall>i. cl_stage c = Awaiting i \<longrightarrow> cl_handler c = Running (pi_server i) \<or> (\<exists>rep. cl_handler c = Returned rep)) \<and>
     (\<forall>p. cl_handler c = Running p \<longrightarrow> p < n) \<and>
     (\<forall>rep. cl_stage c = Answered rep \<longrightarrow> rp_ok rep \<longrightarrow> cl_handler c = Returned rep) \<and>
     (case cl_handler c of Returned rep \<Rightarrow> \<exists>x. runs_of k h = [x] \<and> ran_as g (cl_req c) x rep | _ \<Rightarrow> runs_of k h = [])"

definition rpc_ok :: "('a, 'r) codecs \<Rightarrow> ('a, 'r, 's) world \<Rightarrow> bool" where
  "rpc_ok g w \<longleftrightarrow>
     (\<forall>k < length (calls w). call_ok g (history w) (length (heap w)) k (calls w ! k)) \<and>
     (\<forall>x \<in> set (history w). h_call x < length (calls w)) \<and>
     (\<forall>n p. nservers (net w) n = Some p \<longrightarrow> p < length (heap w))"

lemma rpc_okD:
  assumes "rpc_ok g w"
  shows "k < length (calls w) \<Longrightarrow> call_ok g (history w) (length (heap w)) k (calls w ! k)"
    "x \<in> set (history w) \<Longrightarrow> h_call x < length (calls w)"
    "nservers (net w) n = Some p \<Longrightarrow> p < length (heap w)"
  using assms by (auto simp: rpc_ok_def)

lemma call_ok_mono: "call_ok g h n k c \<Longrightarrow> n \<le> m \<Longrightarrow> call_ok g h m k c"
  by (auto simp: call_ok_def)

lemma ProcessReq_start_server:
  "ProcessReq_start lose req rn = Some i \<Longrightarrow>
     nservers rn (pi_servername i) = Some (pi_server i) \<and> enabled rn (rq_endname req) \<and>
     pi_servername i = connections rn (rq_endname req) \<and> pi_servername i \<noteq> INil"
  by (auto simp: ProcessReq_start_def ReadEndnameInfo_def Let_def split: option.splits if_splits)

lemma rp_ok_failed [simp]: "\<not> rp_ok failed"
  by (simp add: failed_def)

lemma call_ok_changed:
  assumes st: "call_step g w c c'" and c: "call_ok g h n k c"
    and keep: "\<And>rep. cl_handler c' = Returned rep \<Longrightarrow> cl_handler c = Returned rep"
    and srv: "\<And>n' p. nservers (net w) n' = Some p \<Longrightarrow> p < n"
  shows "call_ok g h n k c'"
  using st
proof cases
  case (begin_handler lose i)
  then have "pi_server i < n" using ProcessReq_start_server srv by blast
  then show ?thesis using begin_handler c by (auto simp: call_ok_def)
next
  case (return_handler p rs r rep st)
  then show ?thesis using keep by auto
qed (use c in \<open>auto simp: call_ok_def\<close>)

lemma rpc_ok_step:
  assumes st: "nstep g ev w = Some w'" and ok: "rpc_ok g w"
  shows "rpc_ok g w'"
  using st
proof (cases rule: nstep_elim)
  case quiet
  have "p < length (heap w')" if "nservers (net w') n = Some p" for n p
    using quiet(4) [OF that] rpc_okD(3) [OF ok, of n p] quiet(3) by linarith
  then show ?thesis
    using quiet(1,2) rpc_okD(1,2) [OF ok] by (simp add: rpc_ok_def call_ok_mono [OF _ quiet(3)])
next
  case (queued c)
  have "runs_of (length (calls w)) (history w) = []"
    using rpc_okD(2) [OF ok] by (fastforce simp: runs_of_def filter_empty_conv)
  then have "call_ok g (history w) (length (heap w)) (length (calls w)) c"
    using queued(2,3) by (simp add: call_ok_def)
  then show ?thesis
    using queued(1) rpc_okD [OF ok] by (auto simp: rpc_ok_def nth_append less_Suc_eq)
next
  case (changed k c)
  have "call_ok g (history w) (length (heap w)) k c"
    using rpc_okD [OF ok] changed by (intro call_ok_changed [OF changed(2)]) auto
  then show ?thesis
    using changed(1,3) rpc_okD [OF ok] by (auto simp: rpc_ok_def set_call_def nth_list_update)
next
  case (ran k p rs r rep st)
  let ?x = "\<lparr>h_call = k, h_server = p, h_before = objs w, h_reply = r, h_after = st\<rparr>"
  have k: "call_ok g (history w) (length (heap w)) k (calls w ! k)" using rpc_okD(1) [OF ok ran(1)] .
  have runs: "runs_of j (?x # history w) = (if j = k then ?x # runs_of k (history w) else runs_of j (history w))" for j
    by (simp add: runs_of_def)
  have "ran_as g (cl_req (calls w ! k)) ?x rep" using ran(3) by (auto simp: ran_as_def)
  then have new: "call_ok g (?x # history w) (length (heap w)) k ((calls w ! k)\<lparr>cl_handler := Returned rep\<rparr>)"
    using k ran(2) by (auto simp: call_ok_def runs)
  have other: "call_ok g (?x # history w) (length (heap w)) j (calls w ! j)" if "j < length (calls w)" "j \<noteq> k" for j
    using rpc_okD(1) [OF ok that(1)] that(2) by (simp add: call_ok_def runs split: hstat.splits)
  show ?thesis
    using ran(1,4) new other rpc_okD(2,3) [OF ok] by (auto simp: rpc_ok_def set_call_def nth_list_update)
qed

interpretation rpc: invariant_system net_init "net_step g" "rpc_ok g" for g
proof unfold_locales
  show "rpc_ok g w" if "net_init w" for w :: "('a, 'b, 'c) world"
    using that by (auto simp: net_init_def net_start_def rpc_ok_def MakeNetwork_def)
  show "rpc_ok g w'" if "net_step g w w'" "rpc_ok g w" for w w' :: "('a, 'b, 'c) world"
    using that rpc_ok_step by (auto simp: net_step_def)
qed

section \<open>What clients may rely on\<close>

text \<open>C15: A call that returns true was executed, once, and its reply is the reply of the handler to
  the arguments of the call; no call is executed twice, whatever was lost, delayed, reordered,
  disconnected or deleted.\<close>

theorem call_executed_once:
  assumes "reachable net_init (net_step g) w" and "k < length (calls w)"
  shows "length (runs_of k (history w)) \<le> 1 \<and>
    (\<forall>rep. cl_stage (calls w ! k) = Answered rep \<and> rp_ok rep \<longrightarrow>
       (\<exists>x. runs_of k (history w) = [x] \<and> ran_as g (cl_req (calls w ! k)) x rep))"
proof -
  have "call_ok g (history w) (length (heap w)) k (calls w ! k)"
    using rpc_okD(1) [OF rpc.reachable_inv [OF assms(1)] assms(2)] .
  then show ?thesis by (auto simp: call_ok_def split: hstat.splits)
qed

text \<open>
  An example: one server with a service \<^verbatim>\<open>Log\<close> whose method \<^verbatim>\<open>Append\<close> appends its argument to the
  objects and replies with what was there before.
\<close>

definition plain_gob :: "(string, string) codecs" where
  "plain_gob = \<lparr>TypeOf = (\<lambda>_. Some ''string''), nilPointer = (\<lambda>_. False), encArgs = (\<lambda>a. a), decArgs = (\<lambda>T b. b),
     encReply = (\<lambda>r. r), decReply = (\<lambda>b r. Some b)\<rparr>"

definition log_method :: "(string, string, string) Method" where
  "log_method = \<lparr>PkgPath = [], NumIn = 3, In1 = (\<lambda>T. T = ''string''), In2Ptr = True, NumOut = 0, zeroReply = [],
     Func = (\<lambda>a r st. Some (st, st @ a))\<rparr>"

definition log_server :: "(string, string, string) Server" where
  "log_server = AddService (MakeService ''Log'' [(''Append'', log_method)]) MakeServer"

definition log_setup :: "(string, string, string) nevent list" where
  "log_setup = [NMakeEnd (IStr ''e''), NAddServer (IInt 0) log_server, NConnect (IStr ''e'') (IInt 0),
     NEnable (IStr ''e'') True]"

definition log_call :: "(string, string, string) nevent list" where
  "log_call = [NCall (IStr ''e'') ''Log.Append'' ''x'', NProcess 0 False, NDispatch 0, NAnswer 0 False]"

definition log_ready :: "(string, string, string) world" where
  "log_ready = the (exec (nstep plain_gob) log_setup (net_start ''ab''))"

definition log_done :: "(string, string, string) world" where
  "log_done = the (exec (nstep plain_gob) log_call log_ready)"

lemma log_runs:
  "exec (nstep plain_gob) log_setup (net_start ''ab'') = Some log_ready"
  "exec (nstep plain_gob) log_call log_ready = Some log_done"
proof -
  have "\<not> Option.is_none (exec (nstep plain_gob) log_setup (net_start ''ab''))" by code_simp
  then show "exec (nstep plain_gob) log_setup (net_start ''ab'') = Some log_ready"
    unfolding log_ready_def by (simp add: Option.is_none_def)
  have "\<not> Option.is_none (exec (nstep plain_gob) log_call log_ready)" by code_simp
  then show "exec (nstep plain_gob) log_call log_ready = Some log_done"
    unfolding log_done_def by (simp add: Option.is_none_def)
qed

lemma nstep_exec_reachable:
  "exec (nstep g) evs w = Some w' \<Longrightarrow> reachable net_init (net_step g) w \<Longrightarrow> reachable net_init (net_step g) w'"
  by (erule exec_reachable) (auto simp: net_step_def)

lemma log_reachable:
  "reachable net_init (net_step plain_gob) log_ready" "reachable net_init (net_step plain_gob) log_done"
proof -
  have "reachable net_init (net_step plain_gob) (net_start ''ab'')"
    by (rule reach_init) (auto simp: net_init_def)
  then show "reachable net_init (net_step plain_gob) log_ready" by (rule nstep_exec_reachable [OF log_runs(1)])
  then show "reachable net_init (net_step plain_gob) log_done" by (rule nstep_exec_reachable [OF log_runs(2)])
qed

theorem call_executed_once_witness:
  "cl_stage (calls log_done ! 0) = Answered \<lparr>rp_ok = True, rp_reply = ''ab''\<rparr> \<and>
   (\<exists>x. runs_of 0 (history log_done) = [x] \<and>
      ran_as plain_gob (cl_req (calls log_done ! 0)) x \<lparr>rp_ok = True, rp_reply = ''ab''\<rparr>)"
proof -
  have "0 < length (calls log_done)" by code_simp
  note call_executed_once [OF log_reachable(2) this]
  moreover have "cl_stage (calls log_done ! 0) = Answered \<lparr>rp_ok = True, rp_reply = ''ab''\<rparr>" by code_simp
  ultimately show ?thesis by simp
qed

section \<open>Deleted servers\<close>






text \<open>The exception occurs: a server that is deleted and registered again answers the calls that wait for it.\<close>

lemma added_again_answers:
  assumes "halted w = None" and "k < length (calls w)" and "cl_stage (calls w ! k) = Awaiting i" and "pi_reliable i"
    and "cl_handler (calls w ! k) = Returned rep" and "enabled (net w) (rq_endname (cl_req (calls w ! k)))" and "pi_server i < length (heap w)"
  shows "\<exists>w'. exec (nstep g) [NDeleteServer (pi_servername i), NAddAgain (pi_servername i) (pi_server i), NAnswer k l] w = Some w' \<and>
    cl_stage (calls w' ! k) = Answered rep"
  using assms by (simp add: nstep_def ProcessReq_def ProcessReq_answer_def IsServerDead_def AddServer_def DeleteServer_def set_call_def Let_def)



definition log_deleted :: "(string, string, string) world" where
  "log_deleted = the (exec (nstep plain_gob)
     [NCall (IStr ''e'') ''Log.Append'' ''x'', NProcess 0 False, NDeleteServer (IInt 0)] log_ready)"

lemma log_deleted_reachable: "reachable net_init (net_step plain_gob) log_deleted"
proof -
  have "\<not> Option.is_none (exec (nstep plain_gob)
     [NCall (IStr ''e'') ''Log.Append'' ''x'', NProcess 0 False, NDeleteServer (IInt 0)] log_ready)" by code_simp
  then have "exec (nstep plain_gob) [NCall (IStr ''e'') ''Log.Append'' ''x'', NProcess 0 False, NDeleteServer (IInt 0)] log_ready =
      Some log_deleted" unfolding log_deleted_def by (simp add: Option.is_none_def)
  then show ?thesis by (rule nstep_exec_reachable [OF _ log_reachable(1)])
qed



section \<open>Every call returns\<close>

text \<open>The call \<open>k\<close> is answered by at most \<open>n\<close> steps of its own goroutines.\<close>

definition returns_within :: "('a, 'r) codecs \<Rightarrow> nat \<Rightarrow> nat \<Rightarrow> ('a, 'r, 's) world \<Rightarrow> bool" where
  "returns_within g n k w \<longleftrightarrow> (\<exists>evs w' rep. exec (nstep g) evs w = Some w' \<and> cl_stage (calls w' ! k) = Answered rep \<and>
     length evs \<le> n \<and> set evs \<subseteq> {NProcess k False, NDispatch k, NAnswer k False})"

lemma returns_now: "cl_stage (calls w ! k) = Answered rep \<Longrightarrow> returns_within g n k w"
  unfolding returns_within_def by (intro exI [of _ "[]"]) simp

lemma returns_after:
  assumes "nstep g ev w = Some v" and "ev \<in> {NProcess k False, NDispatch k, NAnswer k False}"
    and "returns_within g n k v"
  shows "returns_within g (Suc n) k w"
proof -
  obtain evs w' rep where "exec (nstep g) evs v = Some w'" "cl_stage (calls w' ! k) = Answered rep"
    "length evs \<le> n" "set evs \<subseteq> {NProcess k False, NDispatch k, NAnswer k False}"
    using assms(3) by (auto simp: returns_within_def)
  then show ?thesis using assms(1,2) unfolding returns_within_def by (intro exI [of _ "ev # evs"]) auto
qed

lemma returns_mono: "returns_within g n k w \<Longrightarrow> n \<le> m \<Longrightarrow> returns_within g m k w"
  unfolding returns_within_def by (meson order_trans)

lemma returns_returned:
  assumes "halted w = None" and "k < length (calls w)" and "cl_stage (calls w ! k) = Awaiting i"
    and "cl_handler (calls w ! k) = Returned rep"
  shows "returns_within g 1 k w"
proof -
  obtain w' rep' where "nstep g (NAnswer k False) w = Some w'" "cl_stage (calls w' ! k) = Answered rep'"
    using assms by (simp add: nstep_def ProcessReq_def set_call_def Let_def)
  then show ?thesis using returns_after [OF _ _ returns_now [where n = 0]] by force
qed

lemma returns_running:
  assumes "halted w = None" and "k < length (calls w)" and "cl_stage (calls w ! k) = Awaiting i"
    and "cl_handler (calls w ! k) = Running p"
    and "Server_dispatch g (cl_req (calls w ! k)) (heap w ! p) (objs w) = Inr x"
  shows "returns_within g 2 k w"
proof -
  obtain rs r rep st where x: "x = (rs, r, rep, st)" by (cases x) auto
  obtain w' where w': "nstep g (NDispatch k) w = Some w'" "halted w' = None" "k < length (calls w')"
    "cl_stage (calls w' ! k) = Awaiting i" "cl_handler (calls w' ! k) = Returned rep"
    using assms x by (simp add: nstep_def run_handler_def set_call_def Let_def)
  show ?thesis using returns_after [OF w'(1) _ returns_returned [OF w'(2-5)]] by (simp add: numeral_2_eq_2)
qed

lemma returns_awaiting:
  assumes "halted w = None" and "k < length (calls w)" and st: "cl_stage (calls w ! k) = Awaiting i"
    and ok: "call_ok g (history w) (length (heap w)) k (calls w ! k)"
    and srv: "\<And>p. p < length (heap w) \<Longrightarrow> \<exists>x. Server_dispatch g (cl_req (calls w ! k)) (heap w ! p) (objs w) = Inr x"
  shows "returns_within g 3 k w"
proof -
  consider "cl_handler (calls w ! k) = Running (pi_server i)" "pi_server i < length (heap w)"
    | rep where "cl_handler (calls w ! k) = Returned rep"
    using ok st by (auto simp: call_ok_def)
  then show ?thesis
  proof cases
    case 1
    obtain x where "Server_dispatch g (cl_req (calls w ! k)) (heap w ! pi_server i) (objs w) = Inr x" using srv [OF 1(2)] by blast
    then have "returns_within g 2 k w" using 1 by (intro returns_running [OF assms(1,2) st]) simp_all
    then show ?thesis by (rule returns_mono) simp
  next
    case 2
    then have "returns_within g 1 k w" using returns_returned [OF assms(1,2) st] by blast
    then show ?thesis by (rule returns_mono) simp
  qed
qed

lemma returns_queued:
  assumes h: "halted w = None" and k: "k < length (calls w)" and q: "cl_stage (calls w ! k) = Queued" and ok: "rpc_ok g w"
    and srv: "\<And>p. p < length (heap w) \<Longrightarrow> \<exists>x. Server_dispatch g (cl_req (calls w ! k)) (heap w ! p) (objs w) = Inr x"
  shows "returns_within g 3 k w"
proof (cases "ProcessReq_start False (cl_req (calls w ! k)) (net w)")
  case None
  let ?v = "set_call k ((calls w ! k)\<lparr>cl_stage := Answered failed\<rparr>) w"
  have "nstep g (NProcess k False) w = Some ?v"
    using q None h k by (simp add: nstep_def ProcessReq_def Let_def)
  moreover have "returns_within g 2 k ?v" using k by (intro returns_now) (simp add: set_call_def)
  ultimately show ?thesis using returns_after [of g _ w ?v k 2] by simp
next
  case (Some i)
  let ?v = "set_call k ((calls w ! k)\<lparr>cl_stage := Awaiting i, cl_handler := Running (pi_server i)\<rparr>) w"
  have "nstep g (NProcess k False) w = Some ?v"
    using q Some h k by (simp add: nstep_def ProcessReq_def Let_def)
  moreover obtain x where "Server_dispatch g (cl_req (calls w ! k)) (heap w ! pi_server i) (objs w) = Inr x"
    using srv ProcessReq_start_server [OF Some] rpc_okD(3) [OF ok] by blast
  then have "returns_within g 2 k ?v"
    using h k by (intro returns_running [of ?v k i "pi_server i" g x]) (simp_all add: set_call_def)
  ultimately show ?thesis using returns_after [of g _ w ?v k 2] by simp
qed

text \<open>C18: Every call can return: whatever has happened to the network, a call that every server
  dispatches without stopping the program is answered after at most three steps of its own goroutines, without any help from other
  calls, from the timers or from the random choices.\<close>

theorem call_can_return:
  assumes "reachable net_init (net_step g) w" and "halted w = None" and "k < length (calls w)"
    and "\<And>rs st. rs \<in> set (heap w) \<Longrightarrow> \<exists>x. Server_dispatch g (cl_req (calls w ! k)) rs st = Inr x"
  shows "\<exists>evs w' rep. exec (nstep g) evs w = Some w' \<and> cl_stage (calls w' ! k) = Answered rep \<and>
    length evs \<le> 3 \<and> set evs \<subseteq> {NProcess k False, NDispatch k, NAnswer k False}"
proof -
  have ok: "rpc_ok g w" by (rule rpc.reachable_inv [OF assms(1)])
  have srv: "\<exists>x. Server_dispatch g (cl_req (calls w ! k)) (heap w ! p) (objs w) = Inr x" if "p < length (heap w)" for p
    using assms(4) that by simp
  have "returns_within g 3 k w"
  proof (cases "cl_stage (calls w ! k)")
    case (Awaiting i)
    then show ?thesis using returns_awaiting [OF assms(2,3) _ rpc_okD(1) [OF ok assms(3)] srv] by blast
  next
    case Queued
    then show ?thesis using returns_queued [OF assms(2,3) _ ok srv] by blast
  qed (rule returns_now)
  then show ?thesis by (simp add: returns_within_def)
qed

theorem call_can_return_witness:
  "\<exists>evs w' rep. exec (nstep plain_gob) evs log_deleted = Some w' \<and> cl_stage (calls w' ! 0) = Answered rep \<and>
    length evs \<le> 3 \<and> set evs \<subseteq> {NProcess 0 False, NDispatch 0, NAnswer 0 False}"
proof (rule call_can_return [OF log_deleted_reachable])
  show "halted log_deleted = None" "0 < length (calls log_deleted)" by code_simp+
  show "\<exists>x. Server_dispatch plain_gob (cl_req (calls log_deleted ! 0)) rs st = Inr x"
    if "rs \<in> set (heap log_deleted)" for rs st
  proof -
    have "length (heap log_deleted) = 1" by code_simp
    then have "rs = heap log_deleted ! 0" using that by (auto simp: length_Suc_conv)
    moreover have "\<not> isl (Server_dispatch plain_gob (cl_req (calls log_deleted ! 0)) (heap log_deleted ! 0) st)"
      by code_simp
    ultimately show ?thesis by (metis sum.collapse(2))
  qed
qed

section \<open>Refinement of remote procedure calls\<close>

text \<open>
  What a remote call is, seen from its caller: it may be executed once, and it returns once,
  either with the reply of that execution or with a failure.
\<close>

record rpc =
  sp_exec :: "bytes option"
  sp_result :: "bytes option option"

inductive rpc_step :: "rpc \<Rightarrow> rpc \<Rightarrow> bool" where
  execute: "sp_exec s = None \<Longrightarrow> rpc_step s (s\<lparr>sp_exec := Some b\<rparr>)"
| succeed: "sp_exec s = Some b \<Longrightarrow> sp_result s = None \<Longrightarrow> rpc_step s (s\<lparr>sp_result := Some (Some b)\<rparr>)"
| fail: "sp_result s = None \<Longrightarrow> rpc_step s (s\<lparr>sp_result := Some None\<rparr>)"

definition abs_call :: "call \<Rightarrow> rpc" where
  "abs_call c = \<lparr>sp_exec = (case cl_handler c of Returned rep \<Rightarrow> Some (rp_reply rep) | _ \<Rightarrow> None),
     sp_result = (case cl_stage c of
        Answered rep \<Rightarrow> Some (if rp_ok rep then Some (rp_reply rep) else None) | _ \<Rightarrow> None)\<rparr>"

lemma abs_call_step:
  assumes "call_step g w c c'" and "call_ok g h n k c"
  shows "rpc_step (abs_call c) (abs_call c') \<or> abs_call c' = abs_call c"
  using assms(1)
proof cases
  case refuse
  then have "abs_call c' = (abs_call c)\<lparr>sp_result := Some None\<rparr>" by (simp add: abs_call_def)
  moreover have "sp_result (abs_call c) = None" using refuse by (simp add: abs_call_def)
  ultimately show ?thesis using rpc_step.fail by metis
next
  case (begin_handler lose i)
  then show ?thesis using assms(2) by (simp add: abs_call_def call_ok_def)
next
  case (return_handler p rs r rep st)
  then have "abs_call c' = (abs_call c)\<lparr>sp_exec := Some (rp_reply rep)\<rparr>" by (simp add: abs_call_def)
  moreover have "sp_exec (abs_call c) = None" using return_handler by (simp add: abs_call_def)
  ultimately show ?thesis using rpc_step.execute by metis
next
  case (answer_reply i rep)
  then have "sp_exec (abs_call c) = Some (rp_reply rep)" "sp_result (abs_call c) = None" by (simp_all add: abs_call_def)
  moreover have "abs_call c' = (abs_call c)\<lparr>sp_result := Some (if rp_ok rep then Some (rp_reply rep) else None)\<rparr>"
    using answer_reply by (simp add: abs_call_def)
  ultimately show ?thesis using rpc_step.succeed rpc_step.fail by (metis (full_types))
next
  case (answer_failed i)
  then have "abs_call c' = (abs_call c)\<lparr>sp_result := Some None\<rparr>" by (simp add: abs_call_def)
  moreover have "sp_result (abs_call c) = None" using answer_failed by (simp add: abs_call_def)
  ultimately show ?thesis using rpc_step.fail by metis
qed

text \<open>C16: The network implements remote procedure calls: every step of the network is, for every call
  in progress, a step of the abstract call or none at all.\<close>

theorem network_refines_rpc:
  assumes "reachable net_init (net_step g) w" and "nstep g ev w = Some w'" and "k < length (calls w)"
  shows "k < length (calls w') \<and>
    (rpc_step (abs_call (calls w ! k)) (abs_call (calls w' ! k)) \<or> abs_call (calls w' ! k) = abs_call (calls w ! k))"
  using assms(2)
proof (cases rule: nstep_elim)
  case (changed j c)
  have "call_ok g (history w) (length (heap w)) k (calls w ! k)"
    using rpc_okD(1) [OF rpc.reachable_inv [OF assms(1)] assms(3)] .
  then show ?thesis using abs_call_step [OF changed(2)] changed(3) assms(3) by (cases "j = k") (auto simp: set_call_def)
next
  case (ran j p rs r rep st)
  have "call_ok g (history w) (length (heap w)) k (calls w ! k)"
    using rpc_okD(1) [OF rpc.reachable_inv [OF assms(1)] assms(3)] .
  then show ?thesis
    using abs_call_step [OF call_step.return_handler [OF ran(2,3)]] ran(4) assms(3) by (cases "j = k") (auto simp: set_call_def)
qed (use assms(3) in \<open>auto simp: nth_append\<close>)

definition log_ran :: "(string, string, string) world" where
  "log_ran = the (nstep plain_gob (NDispatch 0) log_deleted)"

theorem network_refines_rpc_witness:
  "nstep plain_gob (NDispatch 0) log_deleted = Some log_ran \<and>
   rpc_step (abs_call (calls log_deleted ! 0)) (abs_call (calls log_ran ! 0)) \<and>
   sp_exec (abs_call (calls log_ran ! 0)) = Some ''ab''"
proof -
  have "\<not> Option.is_none (nstep plain_gob (NDispatch 0) log_deleted)" "0 < length (calls log_deleted)" by code_simp+
  then have st: "nstep plain_gob (NDispatch 0) log_deleted = Some log_ran" and k: "0 < length (calls log_deleted)"
    unfolding log_ran_def by (simp_all add: Option.is_none_def)
  have "sp_exec (abs_call (calls log_deleted ! 0)) = None" "sp_exec (abs_call (calls log_ran ! 0)) = Some ''ab''"
    by code_simp+
  then show ?thesis using network_refines_rpc [OF log_deleted_reachable st k] st by force
qed

section \<open>A reliable call is a local call\<close>

text \<open>C19: On a reliable network a call is a local call of the method: if the argument is no nil pointer, its
  type is one the method takes, gob restores the arguments and the reply, the end is enabled and connected to a registered server that has the service and the
  method, then the call returns true with the reply the method gives to the arguments, the objects
  are as the method leaves them, and the server has counted one more call.\<close>

theorem reliable_call:
  assumes "TypeOf g a = Some T" and "In1 mt T" and "\<not> nilPointer g a" and "decArgs g T (encArgs g a) = a" and "\<And>r. decReply g (encReply g r) z = Some r"
    and "halted w = None" and "ends (net w) e" and "enabled (net w) e" and "reliable (net w)"
    and "connections (net w) e = sn" and "sn \<noteq> INil" and "nservers (net w) sn = Some p" and "p < length (heap w)"
    and "services (heap w ! p) S = Some svc" and "methods svc m = Some mt" and "CHR ''.'' \<notin> set m"
    and "k = length (calls w)" and "Func mt a (zeroReply mt) (objs w) = Some (r, st)"
  shows "\<exists>w' rep. exec (nstep g) [NCall e (S @ CHR ''.'' # m) a, NProcess k l1, NDispatch k, NAnswer k l2] w = Some w' \<and>
    cl_stage (calls w' ! k) = Answered rep \<and> Call_return g rep z = Inr (True, r) \<and> objs w' = st \<and>
    rcount (heap w' ! p) = rcount (heap w ! p) + 1"
  using assms
  by (simp add: nstep_def ProcessReq_def run_handler_def ProcessReq_start_def ReadEndnameInfo_def ProcessReq_answer_def
      IsServerDead_def Call_request_def Call_return_def Server_dispatch_def Service_dispatch_def split_name set_call_def
      Let_def nth_append)

theorem reliable_call_witness:
  "\<exists>w' rep. exec (nstep plain_gob) [NCall (IStr ''e'') (''Log'' @ CHR ''.'' # ''Append'') ''x'', NProcess 0 True,
      NDispatch 0, NAnswer 0 True] log_ready = Some w' \<and>
    cl_stage (calls w' ! 0) = Answered rep \<and> Call_return plain_gob rep [] = Inr (True, ''ab'') \<and> objs w' = ''abx'' \<and>
    rcount (heap w' ! 0) = rcount (heap log_ready ! 0) + 1"
proof (rule reliable_call)
  let ?svc = "the (services (heap log_ready ! 0) ''Log'')"
  have "\<not> Option.is_none (services (heap log_ready ! 0) ''Log'')" "\<not> Option.is_none (methods ?svc ''Append'')" by code_simp+
  then show "services (heap log_ready ! 0) ''Log'' = Some ?svc" "methods ?svc ''Append'' = Some (the (methods ?svc ''Append''))"
    by (simp_all add: Option.is_none_def)
  show "Func (the (methods ?svc ''Append'')) ''x'' (zeroReply (the (methods ?svc ''Append''))) (objs log_ready) = Some (''ab'', ''abx'')"
    by code_simp
  show "In1 (the (methods ?svc ''Append'')) ''string''" by code_simp
  show "decReply plain_gob (encReply plain_gob r) [] = Some r" for r by (simp add: plain_gob_def)
  show "connections (net log_ready) (IStr ''e'') = IInt 0" "IInt 0 \<noteq> INil" "nservers (net log_ready) (IInt 0) = Some 0"
    by code_simp+
qed code_simp+

section \<open>Errors\<close>

text \<open>What the name of a request leads to: a service and a method of it.\<close>

definition finds :: "reqMsg \<Rightarrow> ('a, 'r, 's) Server \<Rightarrow> ('a, 'r, 's) Method \<Rightarrow> bool" where
  "finds req rs mt \<longleftrightarrow> (\<exists>S m svc. rq_svcMeth req = S @ CHR ''.'' # m \<and> CHR ''.'' \<notin> set m \<and>
     services rs S = Some svc \<and> methods svc m = Some mt)"

lemma name_cases:
  obtains (undotted) "CHR ''.'' \<notin> set sm"
  | (dot) S m where "sm = S @ CHR ''.'' # m" "CHR ''.'' \<notin> set m"
  using split_list_last [of "CHR ''.''" sm] by metis

lemma name_unique:
  assumes "S @ CHR ''.'' # m = S' @ CHR ''.'' # m'" and "CHR ''.'' \<notin> set m" and "CHR ''.'' \<notin> set m'"
  shows "S = S' \<and> m = m'"
  using split_name [OF assms(2), of S] split_name [OF assms(3), of S'] assms(1) by simp

lemma Server_dispatch_lost:
  assumes "\<nexists>mt. finds req rs mt"
  shows "Server_dispatch g req rs st = Inl (if CHR ''.'' \<in> set (rq_svcMeth req) then LogFatal else SlicePanic)"
proof (cases "rq_svcMeth req" rule: name_cases)
  case undotted
  then show ?thesis by (simp add: Server_dispatch_def no_dot Let_def)
next
  case (dot S m)
  then show ?thesis
    using assms by (auto simp: finds_def Server_dispatch_def Service_dispatch_def split_name Let_def split: option.splits)
qed

lemma Server_dispatch_found:
  assumes "finds req rs mt"
  shows "Server_dispatch g req rs st =
    (case rq_argsType req of
       None \<Rightarrow> Inl ReflectPanic
     | Some T \<Rightarrow>
         if \<not> In1 mt T then Inl ReflectPanic
         else (case Func mt (decArgs g T (rq_args req)) (zeroReply mt) st of
                 None \<Rightarrow> Inl HandlerPanic
               | Some (r, st') \<Rightarrow> Inr (rs\<lparr>rcount := rcount rs + 1\<rparr>, r, \<lparr>rp_ok = True, rp_reply = encReply g r\<rparr>, st')))"
  using assms by (auto simp: finds_def Server_dispatch_def Service_dispatch_def split_name Let_def split: option.splits)

lemma finds_unique: "finds req rs mt \<Longrightarrow> finds req rs mt' \<Longrightarrow> mt' = mt"
  unfolding finds_def by (metis name_unique option.inject)

lemma finds_dot: "finds req rs mt \<Longrightarrow> CHR ''.'' \<in> set (rq_svcMeth req)"
  by (auto simp: finds_def)

text \<open>C40: How requests stop the program. Dispatching one panics in the slicing of the name exactly when the
  name has no dot, ends with \<^verbatim>\<open>log.Fatalf\<close> exactly when it has one and names no method of a service,
  panics in reflection exactly when the method exists and the argument has no type or one that
  the method does not take, and panics in the handler exactly when the handler panics on the
  decoded argument; in all other cases it returns. Asking for the number of calls of a server
  after it was deleted panics, and \<^verbatim>\<open>DeleteServer\<close> leaves the numbers of all other servers.\<close>

theorem dispatch_errors:
  "(Server_dispatch g req rs st = Inl SlicePanic \<longleftrightarrow> CHR ''.'' \<notin> set (rq_svcMeth req)) \<and>
   (Server_dispatch g req rs st = Inl LogFatal \<longleftrightarrow> CHR ''.'' \<in> set (rq_svcMeth req) \<and> (\<nexists>mt. finds req rs mt)) \<and>
   (Server_dispatch g req rs st = Inl ReflectPanic \<longleftrightarrow>
      (\<exists>mt. finds req rs mt \<and> (\<forall>T. rq_argsType req = Some T \<longrightarrow> \<not> In1 mt T))) \<and>
   (Server_dispatch g req rs st = Inl HandlerPanic \<longleftrightarrow>
      (\<exists>mt T. finds req rs mt \<and> rq_argsType req = Some T \<and> In1 mt T \<and> Func mt (decArgs g T (rq_args req)) (zeroReply mt) st = None)) \<and>
   Server_dispatch g req rs st \<notin> {Inl NilPanic, Inl GobPanic} \<and>
   (halted w = None \<longrightarrow>
      map_option halted (exec (nstep g) [NDeleteServer sn, NGetCount sn] w) = Some (Some NilPanic) \<and>
      (sn' \<noteq> sn \<longrightarrow> map_option halted (exec (nstep g) [NDeleteServer sn, NGetCount sn'] w) =
         map_option halted (nstep g (NGetCount sn') w)))"
proof -
  have count: "halted w = None \<longrightarrow>
      map_option halted (exec (nstep g) [NDeleteServer sn, NGetCount sn] w) = Some (Some NilPanic) \<and>
      (sn' \<noteq> sn \<longrightarrow> map_option halted (exec (nstep g) [NDeleteServer sn, NGetCount sn'] w) =
         map_option halted (nstep g (NGetCount sn') w))"
    by (auto simp: nstep_def GetCount_def DeleteServer_def split: option.splits)
  show ?thesis
  proof (cases "\<exists>mt. finds req rs mt")
    case True
    then obtain mt where mt: "finds req rs mt" by blast
    then have "finds req rs mt' \<longleftrightarrow> mt' = mt" for mt' using finds_unique by blast
    then show ?thesis
      using Server_dispatch_found [OF mt, of g st] finds_dot [OF mt] count
      by (simp split: option.splits prod.splits if_splits)
  next
    case False
    then show ?thesis using Server_dispatch_lost [of req rs g st] count by simp
  qed
qed

theorem dispatch_errors_witness:
  "Server_dispatch plain_gob \<lparr>rq_endname = IStr ''e'', rq_svcMeth = ''Log.Append'', rq_argsType = Some ''int'', rq_args = []\<rparr>
     log_server ''ab'' = Inl ReflectPanic \<and>
   map_option halted (exec (nstep plain_gob) [NDeleteServer (IInt 0), NGetCount (IInt 0)] log_ready) = Some (Some NilPanic)"
proof
  let ?req = "\<lparr>rq_endname = IStr ''e'', rq_svcMeth = ''Log.Append'', rq_argsType = Some ''int'', rq_args = []\<rparr>"
  note errs = dispatch_errors [where g = plain_gob and req = ?req and rs = log_server and st = "''ab''" and w = log_ready and sn = "IInt 0"]
  have "rq_svcMeth ?req = ''Log'' @ CHR ''.'' # ''Append''" "CHR ''.'' \<notin> set ''Append''" by simp_all
  moreover have "services log_server ''Log'' = Some (MakeService ''Log'' [(''Append'', log_method)])"
    "methods (MakeService ''Log'' [(''Append'', log_method)]) ''Append'' = Some log_method"
    by (simp_all add: log_server_def AddService_def MakeService_def MakeServer_def suitable_def log_method_def)
  ultimately have "finds ?req log_server log_method" unfolding finds_def by blast
  moreover have "\<not> In1 log_method ''int''" by (simp add: log_method_def)
  ultimately show "Server_dispatch plain_gob ?req log_server ''ab'' = Inl ReflectPanic" using errs by auto
  have "halted log_ready = None" by code_simp
  then show "map_option halted (exec (nstep plain_gob) [NDeleteServer (IInt 0), NGetCount (IInt 0)] log_ready) = Some (Some NilPanic)"
    using errs by blast
qed

end
