(* ===== verification/Gossip_Store.thy ===== *)
theory Gossip_Store
  imports Prelude "HOL-Library.Multiset"
begin

text \<open>
  The rumor store of a gossip node (\<^verbatim>\<open>project/gossip/pkg/gossip/store.go\<close> and \<^verbatim>\<open>msg.go\<close>).
  The Go map \<^verbatim>\<open>seen\<close> is a list of pairs in order of insertion; where the program ranges
  over the map, the order is an argument. The log file is the list of its records.
\<close>

section \<open>Rumors and messages\<close>

text \<open>A message from the network may carry a type that no handler knows.\<close>

datatype MsgType = MsgPush | MsgDigest | MsgMissing | MsgFetchRep | MsgOther string

record Rumor =
  rID :: string
  rTTL :: int
  rBody :: string
  rOrigin :: string
  rInjectTS :: int

record Msg =
  mType :: MsgType
  mFrom :: string
  mRumors :: "Rumor list"
  mIDs :: "string list"

definition zeroRumor :: Rumor where
  "zeroRumor = \<lparr>rID = [], rTTL = 0, rBody = [], rOrigin = [], rInjectTS = 0\<rparr>"

section \<open>The store\<close>

record LogRec =
  lTS :: int
  lNode :: string
  lEv :: string
  lID :: string
  lSz :: int
  lOrigin :: string
  lInjectTS :: int

text \<open>The log file: creating it may fail, and it may have been closed.\<close>

datatype logfile = NoFile | OpenFile "LogRec list" | ClosedFile "LogRec list"

record Store =
  seen :: "(string \<times> Rumor) list"
  newIDs :: "string list"
  logf :: logfile
  nodeID :: string

definition NewStore :: "bool \<Rightarrow> string \<Rightarrow> Store" where
  "NewStore created n =
     \<lparr>seen = [], newIDs = [], logf = (if created then OpenFile [] else NoFile), nodeID = n\<rparr>"

text \<open>The error of closing a closed file is the value True.\<close>

definition CloseStore :: "Store \<Rightarrow> Store \<times> bool" where
  "CloseStore s =
     (case logf s of
        NoFile \<Rightarrow> (s, False)
      | OpenFile rs \<Rightarrow> (s\<lparr>logf := ClosedFile rs\<rparr>, False)
      | ClosedFile rs \<Rightarrow> (s, True))"

definition writeLog :: "int \<Rightarrow> string \<Rightarrow> Rumor \<Rightarrow> Store \<Rightarrow> Store" where
  "writeLog ts ev r s =
     (case logf s of
        NoFile \<Rightarrow> s
      | OpenFile rs \<Rightarrow>
          let rec = \<lparr>lTS = ts, lNode = nodeID s, lEv = ev, lID = rID r, lSz = go_len (rBody r),
                     lOrigin = rOrigin r, lInjectTS = rInjectTS r\<rparr>
          in s\<lparr>logf := OpenFile (rs @ [rec])\<rparr>
      | ClosedFile rs \<Rightarrow> s)"

definition Add :: "int \<Rightarrow> Rumor \<Rightarrow> Store \<Rightarrow> Store \<times> bool" where
  "Add ts r s =
     (case map_of (seen s) (rID r) of
        Some old \<Rightarrow> (s, False)
      | None \<Rightarrow>
          let s = s\<lparr>seen := seen s @ [(rID r, r)]\<rparr>;
              s = s\<lparr>newIDs := newIDs s @ [rID r]\<rparr>;
              s = writeLog ts ''deliver'' r s
          in (s, True))"

text \<open>A missing key of the map reads as the zero rumor.\<close>

definition seen_at :: "Store \<Rightarrow> string \<Rightarrow> Rumor" where
  "seen_at s i = (case map_of (seen s) i of None \<Rightarrow> zeroRumor | Some r \<Rightarrow> r)"

definition ReadyToPush :: "Store \<Rightarrow> Rumor list \<times> Store" where
  "ReadyToPush s =
     (if go_len (newIDs s) = 0 then ([], s)
      else (map (seen_at s) (newIDs s), s\<lparr>newIDs := []\<rparr>))"

text \<open>
  An order of a list, given by a list of positions; a list of positions that is no
  permutation stands for the order the list has.
\<close>

definition permute :: "nat list \<Rightarrow> 'a list \<Rightarrow> 'a list" where
  "permute p xs = (if mset p = mset [0..<length xs] then map (nth xs) p else xs)"

definition Digest :: "nat list \<Rightarrow> Store \<Rightarrow> string list" where
  "Digest ord s = permute ord (map fst (seen s))"

definition DigestCount :: "Store \<Rightarrow> int" where
  "DigestCount s = go_len (seen s)"

fun LookupMany :: "string list \<Rightarrow> Store \<Rightarrow> Rumor list" where
  "LookupMany [] s = []"
| "LookupMany (i # is) s =
     (case map_of (seen s) i of None \<Rightarrow> LookupMany is s | Some r \<Rightarrow> r # LookupMany is s)"

lemmas store_defs = NewStore_def CloseStore_def Add_def ReadyToPush_def Digest_def DigestCount_def

section \<open>Orders\<close>

lemma mset_permute [simp]: "mset (permute p xs) = mset xs"
proof (cases "mset p = mset [0..<length xs]")
  case True
  then have "mset (map (nth xs) p) = mset (map (nth xs) [0..<length xs])" by (simp only: mset_map)
  then show ?thesis using True by (simp add: permute_def map_nth)
qed (simp add: permute_def)

lemma set_permute [simp]: "set (permute p xs) = set xs"
  by (rule mset_eq_setD) simp

lemma length_permute [simp]: "length (permute p xs) = length xs"
  by (rule mset_eq_length) simp

lemma distinct_permute [simp]: "distinct (permute p xs) = distinct xs"
  by (rule mset_eq_imp_distinct_iff) simp

section \<open>The invariant\<close>

definition known :: "Store \<Rightarrow> string set" where
  "known s = fst ` set (seen s)"

text \<open>
  Rumors are filed once under their own id, and those to be pushed are known and are
  listed once.
\<close>

definition store_ok :: "Store \<Rightarrow> bool" where
  "store_ok s \<longleftrightarrow> distinct (map fst (seen s)) \<and> (\<forall>(i, r) \<in> set (seen s). rID r = i) \<and>
     distinct (newIDs s) \<and> set (newIDs s) \<subseteq> known s"

lemma writeLog_sel [simp]:
  "seen (writeLog ts ev r s) = seen s" "newIDs (writeLog ts ev r s) = newIDs s"
  "nodeID (writeLog ts ev r s) = nodeID s"
  by (simp_all add: writeLog_def Let_def split: logfile.splits)

lemma known_writeLog [simp]: "known (writeLog ts ev r s) = known s"
  by (simp add: known_def)

lemma store_ok_writeLog [simp]: "store_ok (writeLog ts ev r s) = store_ok s"
  by (simp add: store_ok_def)

lemma store_ok_New [simp]: "store_ok (NewStore c n)"
  by (simp add: store_ok_def NewStore_def)

lemma known_New [simp]: "known (NewStore c n) = {}"
  by (simp add: known_def NewStore_def)

lemma not_known: "map_of (seen s) i = None \<longleftrightarrow> i \<notin> known s"
  by (simp add: known_def map_of_eq_None_iff)

lemma Add_known: "rID r \<in> known s \<Longrightarrow> Add ts r s = (s, False)"
  using not_known [of s "rID r"] by (auto simp: Add_def split: option.splits)

lemma Add_new:
  assumes "rID r \<notin> known s"
  shows "snd (Add ts r s)" "seen (fst (Add ts r s)) = seen s @ [(rID r, r)]"
    "newIDs (fst (Add ts r s)) = newIDs s @ [rID r]" "nodeID (fst (Add ts r s)) = nodeID s"
  using assms not_known [of s "rID r"] by (simp_all add: Add_def Let_def)

lemma Add_result: "snd (Add ts r s) \<longleftrightarrow> rID r \<notin> known s"
  using Add_known Add_new(1) by (cases "rID r \<in> known s") auto

lemma known_Add [simp]: "known (fst (Add ts r s)) = insert (rID r) (known s)"
proof (cases "rID r \<in> known s")
  case True
  then show ?thesis by (simp add: Add_known insert_absorb)
next
  case False
  then show ?thesis by (simp add: known_def Add_new(2) [OF False])
qed

lemma store_ok_Add:
  assumes "store_ok s"
  shows "store_ok (fst (Add ts r s))"
proof (cases "rID r \<in> known s")
  case True
  then show ?thesis using assms by (simp add: Add_known)
next
  case False
  then have "rID r \<notin> set (newIDs s)" "rID r \<notin> set (map fst (seen s))"
    using assms by (auto simp: store_ok_def known_def)
  then show ?thesis
    using assms unfolding store_ok_def Add_new [OF False] known_def by auto
qed

text \<open>The first version of a rumor wins: what is known stays as it is.\<close>

lemma lookup_Add:
  "map_of (seen (fst (Add ts r s))) i =
    (if i = rID r \<and> rID r \<notin> known s then Some r else map_of (seen s) i)"
proof (cases "rID r \<in> known s")
  case True
  then show ?thesis by (simp add: Add_known)
next
  case False
  then show ?thesis
    using not_known [of s "rID r"] by (auto simp: Add_new(2) [OF False] map_add_def split: option.splits)
qed

lemma ReadyToPush_sel [simp]:
  "seen (snd (ReadyToPush s)) = seen s" "newIDs (snd (ReadyToPush s)) = []"
  "logf (snd (ReadyToPush s)) = logf s" "nodeID (snd (ReadyToPush s)) = nodeID s"
  by (simp_all add: ReadyToPush_def go_len_def)

lemma known_ReadyToPush [simp]: "known (snd (ReadyToPush s)) = known s"
  by (simp add: known_def)

lemma store_ok_ReadyToPush: "store_ok s \<Longrightarrow> store_ok (snd (ReadyToPush s))"
  by (simp add: store_ok_def)

lemma ready_rumors: "fst (ReadyToPush s) = map (seen_at s) (newIDs s)"
  by (simp add: ReadyToPush_def go_len_def)

lemma seen_at_in:
  assumes "store_ok s" and "i \<in> known s"
  shows "(i, seen_at s i) \<in> set (seen s)" "rID (seen_at s i) = i"
proof -
  obtain r where r: "map_of (seen s) i = Some r" using assms(2) not_known [of s i] by auto
  then show "(i, seen_at s i) \<in> set (seen s)" by (auto simp: seen_at_def dest: map_of_SomeD)
  then show "rID (seen_at s i) = i" using assms(1) by (auto simp: store_ok_def)
qed

lemma ready_ids:
  assumes "store_ok s"
  shows "map rID (fst (ReadyToPush s)) = newIDs s"
proof -
  have "map (rID \<circ> seen_at s) (newIDs s) = map id (newIDs s)"
    using assms seen_at_in(2) [OF assms] by (intro map_cong) (auto simp: store_ok_def)
  then show ?thesis by (simp add: ready_rumors)
qed

lemma ready_seen:
  assumes "store_ok s" and "r \<in> set (fst (ReadyToPush s))"
  shows "(rID r, r) \<in> set (seen s)"
proof -
  obtain i where i: "i \<in> set (newIDs s)" "r = seen_at s i" using assms(2) by (auto simp: ready_rumors)
  then have "i \<in> known s" using assms(1) by (auto simp: store_ok_def)
  from seen_at_in [OF assms(1) this] i show ?thesis by simp
qed

lemma Digest_known [simp]: "set (Digest ord s) = known s"
  by (simp add: Digest_def known_def)

lemma LookupMany_eq: "LookupMany is s = List.map_filter (map_of (seen s)) is"
  by (induction "is") (auto simp: map_filter_simps split: option.splits)

lemma LookupMany_rumor:
  "store_ok s \<Longrightarrow> r \<in> set (LookupMany is s) \<Longrightarrow> rID r \<in> set is \<and> (rID r, r) \<in> set (seen s)"
  by (induction "is") (auto simp: store_ok_def dest!: map_of_SomeD split: option.splits)

lemma seen_unique:
  "store_ok s \<Longrightarrow> (i, r) \<in> set (seen s) \<Longrightarrow> map_of (seen s) i = Some r"
  by (simp add: store_ok_def)

section \<open>Handing out every rumor once\<close>

text \<open>
  What the gossip loop relies on: the store is a queue that takes every key once. A run of
  additions and drains hands out the keys in the order in which they were first added, each
  at most once, and everything that was not handed out is still pending.
\<close>

datatype 'r store_op = Put 'r | Drain

fun run_ops ::
  "('r \<Rightarrow> 's \<Rightarrow> 's \<times> bool) \<Rightarrow> ('s \<Rightarrow> 'x list \<times> 's) \<Rightarrow> 'r store_op list \<Rightarrow> 's \<Rightarrow> 'x list \<times> 's" where
  "run_ops add drain [] s = ([], s)"
| "run_ops add drain (Put r # ops) s = run_ops add drain ops (fst (add r s))"
| "run_ops add drain (Drain # ops) s =
     (let (out, s) = drain s; (rest, s) = run_ops add drain ops s in (out @ rest, s))"

locale once_queue =
  fixes add :: "'r \<Rightarrow> 's \<Rightarrow> 's \<times> bool" and drain :: "'s \<Rightarrow> 'x list \<times> 's"
    and key :: "'r \<Rightarrow> 'k" and out_key :: "'x \<Rightarrow> 'k"
    and ids :: "'s \<Rightarrow> 'k list" and pending :: "'s \<Rightarrow> 'k list" and inv :: "'s \<Rightarrow> bool"
  assumes add_inv: "inv s \<Longrightarrow> inv (fst (add r s))"
    and add_old: "inv s \<Longrightarrow> key r \<in> set (ids s) \<Longrightarrow> add r s = (s, False)"
    and add_ids: "inv s \<Longrightarrow> key r \<notin> set (ids s) \<Longrightarrow> ids (fst (add r s)) = ids s @ [key r]"
    and add_pending: "inv s \<Longrightarrow> key r \<notin> set (ids s) \<Longrightarrow> pending (fst (add r s)) = pending s @ [key r]"
    and drain_inv: "inv s \<Longrightarrow> inv (snd (drain s))"
    and drain_out: "inv s \<Longrightarrow> map out_key (fst (drain s)) = pending s"
    and drain_pending: "inv s \<Longrightarrow> pending (snd (drain s)) = []"
    and drain_ids: "inv s \<Longrightarrow> ids (snd (drain s)) = ids s"
begin

lemma run_keys:
  "inv s \<Longrightarrow> run_ops add drain ops s = (out, t) \<Longrightarrow>
     inv t \<and> (\<exists>new. ids t = ids s @ new \<and> pending s @ new = map out_key out @ pending t)"
proof (induction ops arbitrary: s out)
  case Nil
  then show ?case by simp
next
  case (Cons op ops)
  show ?case
  proof (cases op)
    case (Put r)
    then have run: "run_ops add drain ops (fst (add r s)) = (out, t)" using Cons.prems(2) by simp
    note IH = Cons.IH [OF add_inv [OF Cons.prems(1)] run]
    then show ?thesis
      using add_old [OF Cons.prems(1)] add_ids [OF Cons.prems(1)] add_pending [OF Cons.prems(1)]
      by (cases "key r \<in> set (ids s)") auto
  next
    case Drain
    then obtain out' where run: "run_ops add drain ops (snd (drain s)) = (out', t)"
      "out = fst (drain s) @ out'"
      using Cons.prems(2) by (auto simp: Let_def split: prod.splits)
    note IH = Cons.IH [OF drain_inv [OF Cons.prems(1)] run(1)]
    then show ?thesis
      using drain_out [OF Cons.prems(1)] drain_pending [OF Cons.prems(1)] drain_ids [OF Cons.prems(1)] run(2)
      by auto
  qed
qed

lemma run_from_empty:
  assumes "inv s" and "ids s = []" and "pending s = []" and "run_ops add drain ops s = (out, t)"
  shows "map out_key out @ pending t = ids t"
  using run_keys [OF assms(1,4)] assms(2,3) by auto

end

interpretation rumors: once_queue "\<lambda>(ts, r). Add ts r" ReadyToPush "\<lambda>(ts, r). rID r" rID
  "\<lambda>s. map fst (seen s)" newIDs store_ok
proof unfold_locales
  fix s :: Store and r :: "int \<times> Rumor"
  assume ok: "store_ok s"
  obtain ts x where r: "r = (ts, x)" by fastforce
  show "store_ok (fst ((\<lambda>(ts, r). Add ts r) r s))" "store_ok (snd (ReadyToPush s))"
    using ok r by (simp_all add: store_ok_Add store_ok_ReadyToPush)
  show "(\<lambda>(ts, r). Add ts r) r s = (s, False)"
    if "(\<lambda>(ts, r). rID r) r \<in> set (map fst (seen s))"
    using that r Add_known [of x s ts] by (simp add: known_def)
  show "map fst (seen (fst ((\<lambda>(ts, r). Add ts r) r s))) = map fst (seen s) @ [(\<lambda>(ts, r). rID r) r]"
    "newIDs (fst ((\<lambda>(ts, r). Add ts r) r s)) = newIDs s @ [(\<lambda>(ts, r). rID r) r]"
    if "(\<lambda>(ts, r). rID r) r \<notin> set (map fst (seen s))"
    using that r Add_new [of x s ts] by (simp_all add: known_def)
  show "map rID (fst (ReadyToPush s)) = newIDs s" using ok by (rule ready_ids)
qed simp_all

text \<open>C27: Every rumor a store learns is handed to the gossip loop exactly once. After any sequence
  of additions and drains of a new store, the rumors handed out followed by those still pending
  are all known rumors in the order in which they were first added, and none occurs twice.\<close>

theorem pushed_once:
  assumes "run_ops (\<lambda>(ts, r). Add ts r) ReadyToPush ops (NewStore c n) = (out, s)"
  shows "map rID out @ newIDs s = map fst (seen s) \<and> distinct (map rID out)"
proof -
  have eq: "map rID out @ newIDs s = map fst (seen s)"
    by (rule rumors.run_from_empty [OF _ _ _ assms]) (simp_all add: NewStore_def store_ok_def)
  have "store_ok s" using rumors.run_keys [OF _ assms] by simp
  then have "distinct (map rID out @ newIDs s)" unfolding eq by (simp add: store_ok_def)
  then have "distinct (map rID out)" unfolding distinct_append by blast
  with eq show ?thesis by blast
qed

theorem pushed_once_witness:
  "\<exists>out s. run_ops (\<lambda>(ts, r). Add ts r) ReadyToPush
      [Put (1, zeroRumor\<lparr>rID := ''a''\<rparr>), Put (2, zeroRumor\<lparr>rID := ''b''\<rparr>), Drain,
       Put (3, zeroRumor\<lparr>rID := ''a''\<rparr>), Put (4, zeroRumor\<lparr>rID := ''c''\<rparr>)] (NewStore True ''n1'') = (out, s) \<and>
    map rID out @ newIDs s = map fst (seen s) \<and> map rID out = [''a'', ''b''] \<and> newIDs s = [''c'']"
proof -
  let ?ops = "[Put (1, zeroRumor\<lparr>rID := ''a''\<rparr>), Put (2, zeroRumor\<lparr>rID := ''b''\<rparr>), Drain,
    Put (3, zeroRumor\<lparr>rID := ''a''\<rparr>), Put (4, zeroRumor\<lparr>rID := ''c''\<rparr>)]"
  obtain out s where r: "run_ops (\<lambda>(ts, r). Add ts r) ReadyToPush ?ops (NewStore True ''n1'') = (out, s)"
    by fastforce
  have "(\<lambda>(out, s). (map rID out, newIDs s))
      (run_ops (\<lambda>(ts, r). Add ts r) ReadyToPush ?ops (NewStore True ''n1'')) = ([''a'', ''b''], [''c''])"
    by code_simp
  then show ?thesis using pushed_once [OF r] r by auto
qed

end
