(* ===== verification/Gossip_Node.thy ===== *)
theory Gossip_Node
  imports Gossip_Store Strconv "HOL-Library.Word" "HOL-Library.Sublist"
begin

text \<open>
  A gossip node (\<^verbatim>\<open>project/gossip/pkg/gossip/node.go\<close>, \<^verbatim>\<open>config.go\<close>, the handlers of
  \<^verbatim>\<open>http.go\<close> and \<^verbatim>\<open>splitCSV\<close> of \<^verbatim>\<open>cmd/gossipd/main.go\<close>). An operation returns the new
  node and the messages it hands to the transport, with their destinations; errors of the
  transport are only logged by the program. None is a panic.
\<close>

section \<open>State\<close>

text \<open>Durations are in nanoseconds.\<close>

record Config =
  cID :: string
  cBind :: string
  cSeeds :: "string list"
  cPeriod :: int
  cFanout :: int
  cTTL :: int
  cMetricsAddr :: string
  cLogPath :: string
  cAEInterval :: int

record Node =
  cfg :: Config
  store :: Store
  peers :: "string list"
  stopped :: bool

text \<open>
  What an operation draws from outside: the readings of the clock in order, the result of
  \<^verbatim>\<open>rand.Perm\<close> and the order in which a map is ranged over.
\<close>

record genv =
  clock :: "nat \<Rightarrow> int"
  perm :: "nat list"
  order :: "nat list"

type_synonym out = "(string \<times> Msg) list"

definition NewNode :: "bool \<Rightarrow> Config \<Rightarrow> Node" where
  "NewNode created c =
     \<lparr>cfg = c, store = NewStore created (cID c), peers = cSeeds c, stopped = False\<rparr>"

section \<open>Operations\<close>

definition Inject :: "genv \<Rightarrow> string \<Rightarrow> string \<Rightarrow> int \<Rightarrow> Node \<Rightarrow> Node" where
  "Inject e i b ttl n =
     (let ttl = (if ttl \<le> 0 then cTTL (cfg n) else ttl);
          r = \<lparr>rID = i, rTTL = ttl, rBody = b, rOrigin = cID (cfg n), rInjectTS = clock e 0\<rparr>;
          s = writeLog (clock e 1) ''inject'' r (store n);
          (s, fresh) = Add (clock e 2) r s
      in n\<lparr>store := s\<rparr>)"

text \<open>Closing twice panics on the closed channel.\<close>

definition CloseNode :: "Node \<Rightarrow> Node result" where
  "CloseNode n =
     (if stopped n then None
      else Some (n\<lparr>stopped := True, store := fst (CloseStore (store n))\<rparr>))"

text \<open>A negative number of peers panics when the slice is made.\<close>

definition pickPeers :: "nat list \<Rightarrow> int \<Rightarrow> Node \<Rightarrow> string list result" where
  "pickPeers p k n =
     (if go_len (peers n) = 0 then Some []
      else if k \<ge> go_len (peers n) then Some (peers n)
      else if k < 0 then None
      else Some (take (nat k) (permute p (peers n))))"

fun log_sends :: "(nat \<Rightarrow> int) \<Rightarrow> nat \<Rightarrow> Rumor \<Rightarrow> string list \<Rightarrow> Store \<Rightarrow> Store" where
  "log_sends clk i dummy [] s = s"
| "log_sends clk i dummy (p # ps) s = log_sends clk (Suc i) dummy ps (writeLog (clk i) ''send'' dummy s)"

definition tickOnce :: "genv \<Rightarrow> Node \<Rightarrow> (Node \<times> out) result" where
  "tickOnce e n =
     (let (rs, s) = ReadyToPush (store n);
          n = n\<lparr>store := s\<rparr>
      in if go_len rs = 0 then Some (n, [])
      else do {
        ps \<leftarrow> pickPeers (perm e) (cFanout (cfg n)) n;
        let msg = \<lparr>mType = MsgPush, mFrom = cID (cfg n), mRumors = rs, mIDs = []\<rparr>;
        let dummy = (case rs of [] \<Rightarrow> zeroRumor | r # _ \<Rightarrow> zeroRumor\<lparr>rID := rID r\<rparr>);
        Some (n\<lparr>store := log_sends (clock e) 0 dummy ps (store n)\<rparr>, map (\<lambda>p. (p, msg)) ps)
      })"

fun diff :: "string list \<Rightarrow> string list \<Rightarrow> string list" where
  "diff [] b = []"
| "diff (x # a) b = (if x \<in> set b then diff a b else x # diff a b)"

definition sendDigest :: "genv \<Rightarrow> Node \<Rightarrow> (Node \<times> out) result" where
  "sendDigest e n =
     do {
       ps \<leftarrow> pickPeers (perm e) 1 n;
       if go_len ps = 0 then Some (n, [])
       else
         let d = Digest (order e) (store n)
         in if go_len d = 0 then Some (n, [])
         else do {
           p \<leftarrow> go_index ps 0;
           Some (n, [(p, \<lparr>mType = MsgDigest, mFrom = cID (cfg n), mRumors = [], mIDs = d\<rparr>)])
         }
     }"

definition handleDigest :: "genv \<Rightarrow> Msg \<Rightarrow> string \<Rightarrow> Node \<Rightarrow> out" where
  "handleDigest e m remote n =
     (let ours = Digest (order e) (store n);
          missing = diff ours (mIDs m)
      in if go_len missing > 0
         then [(remote, \<lparr>mType = MsgMissing, mFrom = cID (cfg n), mRumors = [], mIDs = missing\<rparr>)]
         else [])"

definition handleMissing :: "Msg \<Rightarrow> string \<Rightarrow> Node \<Rightarrow> out" where
  "handleMissing m remote n =
     (let rs = LookupMany (mIDs m) (store n)
      in if go_len rs = 0 then []
         else [(remote, \<lparr>mType = MsgFetchRep, mFrom = cID (cfg n), mRumors = rs, mIDs = []\<rparr>)])"

fun fetch_loop :: "(nat \<Rightarrow> int) \<Rightarrow> nat \<Rightarrow> Rumor list \<Rightarrow> Store \<Rightarrow> Store" where
  "fetch_loop clk i [] s = s"
| "fetch_loop clk i (r # rs) s =
     (if rTTL r \<le> 0 then fetch_loop clk (Suc i) rs s
      else fetch_loop clk (Suc i) rs (fst (Add (clk i) r s)))"

definition handleFetchRep :: "genv \<Rightarrow> Msg \<Rightarrow> Node \<Rightarrow> Node" where
  "handleFetchRep e m n = n\<lparr>store := fetch_loop (clock e) 1 (mRumors m) (store n)\<rparr>"

fun push_loop :: "(nat \<Rightarrow> int) \<Rightarrow> nat \<Rightarrow> Rumor list \<Rightarrow> Store \<Rightarrow> Store" where
  "push_loop clk i [] s = s"
| "push_loop clk i (r # rs) s =
     (if rTTL r \<le> 0 then push_loop clk (Suc i) rs s
      else push_loop clk (Suc i) rs (fst (Add (clk i) (r\<lparr>rTTL := rTTL r - 1\<rparr>) s)))"

definition Handle :: "genv \<Rightarrow> Msg \<Rightarrow> string \<Rightarrow> Node \<Rightarrow> Node \<times> out" where
  "Handle e m remote n =
     (let dummy = (case mRumors m of [] \<Rightarrow> zeroRumor | r # _ \<Rightarrow> r);
          n = n\<lparr>store := writeLog (clock e 0) ''recv'' dummy (store n)\<rparr>
      in case mType m of
        MsgPush \<Rightarrow> (n\<lparr>store := push_loop (clock e) 1 (mRumors m) (store n)\<rparr>, [])
      | MsgDigest \<Rightarrow> (n, handleDigest e m remote n)
      | MsgMissing \<Rightarrow> (n, handleMissing m remote n)
      | MsgFetchRep \<Rightarrow> (handleFetchRep e m n, [])
      | MsgOther t \<Rightarrow> (n, []))"

section \<open>HTTP handlers and flags\<close>

text \<open>
  The handler of \<^verbatim>\<open>/inject\<close> on the values of the query, with the package's counter of
  generated ids.
\<close>

definition serve_inject ::
  "genv \<Rightarrow> string \<Rightarrow> string \<Rightarrow> string \<Rightarrow> 64 word \<times> Node \<Rightarrow> 64 word \<times> Node" where
  "serve_inject e qid qbody qttl st =
     (let (injected, n) = st;
          (i, injected) = (if qid = []
            then (cID (cfg n) @ ''-'' @ digits (unat (injected + 1)), injected + 1)
            else (qid, injected));
          ttl = Atoi qttl;
          ttl = (if ttl \<le> 0 then cTTL (cfg n) else ttl)
      in (injected, Inject e i qbody ttl n))"

definition serve_metrics :: "Node \<Rightarrow> string \<times> int" where
  "serve_metrics n = (cID (cfg n), DigestCount (store n))"

definition splitCSV :: "string \<Rightarrow> string list" where
  "splitCSV s = (if s = [] then [] else filter (\<lambda>p. p \<noteq> []) (map TrimSpace (Split s CHR '','')))"

section \<open>Choosing peers\<close>

text \<open>\<^verbatim>\<open>pickPeers\<close> with a number that is not negative returns that many of the peers, or all if
  there are fewer, without repetition when the peers are distinct.\<close>

lemma pickPeers_spec:
  assumes "0 \<le> k"
  shows "\<exists>ps. pickPeers p k n = Some ps \<and> length ps = min (nat k) (length (peers n)) \<and>
    set ps \<subseteq> set (peers n) \<and> (distinct (peers n) \<longrightarrow> distinct ps)"
proof (cases "peers n = [] \<or> k \<ge> go_len (peers n)")
  case True
  then show ?thesis using assms by (auto simp: pickPeers_def go_len_def)
next
  case False
  have "set (take (nat k) (permute p (peers n))) \<subseteq> set (peers n)"
    using set_take_subset [of "nat k" "permute p (peers n)"] by simp
  then show ?thesis
    using False assms by (auto simp: pickPeers_def go_len_def)
qed

section \<open>Flags\<close>

text \<open>\<^verbatim>\<open>splitCSV\<close> returns pieces that are not empty, contain no comma and neither begin nor end
  with space, and it inverts the joining of such pieces with commas.\<close>

lemma splitCSV_spec:
  "list_all (\<lambda>p. p \<noteq> [] \<and> CHR '','' \<notin> set p \<and> \<not> IsSpace (hd p) \<and> \<not> IsSpace (last p)) (splitCSV s) \<and>
   (list_all (\<lambda>p. p \<noteq> [] \<and> CHR '','' \<notin> set p \<and> \<not> IsSpace (hd p) \<and> \<not> IsSpace (last p)) ps \<longrightarrow>
      splitCSV (Join ps CHR '','') = ps)"
proof
  show "list_all (\<lambda>p. p \<noteq> [] \<and> CHR '','' \<notin> set p \<and> \<not> IsSpace (hd p) \<and> \<not> IsSpace (last p)) (splitCSV s)"
    using TrimSpace_ends TrimSpace_set Split_pieces
    by (fastforce simp: splitCSV_def list_all_iff)
  show "list_all (\<lambda>p. p \<noteq> [] \<and> CHR '','' \<notin> set p \<and> \<not> IsSpace (hd p) \<and> \<not> IsSpace (last p)) ps \<longrightarrow>
      splitCSV (Join ps CHR '','') = ps"
  proof
    assume ps: "list_all (\<lambda>p. p \<noteq> [] \<and> CHR '','' \<notin> set p \<and> \<not> IsSpace (hd p) \<and> \<not> IsSpace (last p)) ps"
    have trim: "map TrimSpace ps = ps"
      using ps by (intro map_idI TrimSpace_id) (auto simp: list_all_iff)
    show "splitCSV (Join ps CHR '','') = ps"
    proof (cases ps)
      case (Cons p qs)
      then have "Join ps CHR '','' \<noteq> []" using ps by (cases qs) auto
      moreover have "Split (Join ps CHR '','') CHR '','' = ps"
        using ps Cons by (intro Split_Join) (auto simp: list_all_iff)
      moreover have "filter (\<lambda>p. p \<noteq> []) ps = ps" using ps by (auto simp: list_all_iff)
      ultimately show ?thesis using trim by (simp add: splitCSV_def)
    qed (simp add: splitCSV_def)
  qed
qed

section \<open>Differences\<close>

lemma diff_eq: "diff a b = filter (\<lambda>x. x \<notin> set b) a"
  by (induction a) auto

end
