(* ===== verification/Gossip_Net.thy ===== *)
theory Gossip_Net
  imports Gossip_Node
begin

text \<open>
  A network of gossip nodes. Packets may be lost, delayed, reordered and duplicated, as with
  the UDP transport of \<^verbatim>\<open>project/gossip/pkg/gossip/transport.go\<close>; a node is known by the
  address its packets come from. The properties are the provenance of rumors, the bound on
  their spread by the time to live, and what anti-entropy does.
\<close>

section \<open>The network\<close>

record packet =
  psrc :: string
  pdst :: string
  pmsg :: Msg

text \<open>\<open>injections\<close> is a history variable: the rumors created, with the address of the node.\<close>

record gnet =
  nodes :: "string \<rightharpoonup> Node"
  wire :: "packet list"
  injections :: "(string \<times> Rumor) list"

datatype gevent =
    GInject string genv string string int
  | GTick string genv
  | GDigest string genv
  | GDeliver nat genv bool
  | GDrop nat
  | GClose string

definition set_node :: "string \<Rightarrow> Node \<Rightarrow> gnet \<Rightarrow> gnet" where
  "set_node a n s = s\<lparr>nodes := (nodes s)(a \<mapsto> n)\<rparr>"

definition post :: "string \<Rightarrow> out \<Rightarrow> gnet \<Rightarrow> gnet" where
  "post a ms s = s\<lparr>wire := wire s @ map (\<lambda>(d, m). \<lparr>psrc = a, pdst = d, pmsg = m\<rparr>) ms\<rparr>"

definition created :: "genv \<Rightarrow> string \<Rightarrow> string \<Rightarrow> int \<Rightarrow> Node \<Rightarrow> Rumor" where
  "created e i b ttl n = \<lparr>rID = i, rTTL = (if ttl \<le> 0 then cTTL (cfg n) else ttl), rBody = b,
     rOrigin = cID (cfg n), rInjectTS = clock e 0\<rparr>"

text \<open>
  A delivered packet may stay on the wire, to be delivered again. A node that was closed may still
  handle a packet: \<^verbatim>\<open>Close\<close> closes the store before the transport.
\<close>

fun gstep :: "gevent \<Rightarrow> gnet \<Rightarrow> gnet option" where
  "gstep (GInject a e i b ttl) s =
     (case nodes s a of
        None \<Rightarrow> None
      | Some n \<Rightarrow> Some (set_node a (Inject e i b ttl n)
          (s\<lparr>injections := (a, created e i b ttl n) # injections s\<rparr>)))"
| "gstep (GTick a e) s =
     (case nodes s a of
        None \<Rightarrow> None
      | Some n \<Rightarrow> if stopped n then None
          else map_option (\<lambda>(n, ms). post a ms (set_node a n s)) (tickOnce e n))"
| "gstep (GDigest a e) s =
     (case nodes s a of
        None \<Rightarrow> None
      | Some n \<Rightarrow> if stopped n then None
          else map_option (\<lambda>(n, ms). post a ms (set_node a n s)) (sendDigest e n))"
| "gstep (GDeliver k e keep) s =
     (if k < length (wire s)
      then let p = wire s ! k in
        (case nodes s (pdst p) of
           None \<Rightarrow> None
         | Some n \<Rightarrow>
             let (n, ms) = Handle e (pmsg p) (psrc p) n;
                 w = (if keep then wire s else take k (wire s) @ drop (Suc k) (wire s))
             in Some (post (pdst p) ms (set_node (pdst p) n (s\<lparr>wire := w\<rparr>))))
      else None)"
| "gstep (GDrop k) s =
     (if k < length (wire s) then Some (s\<lparr>wire := take k (wire s) @ drop (Suc k) (wire s)\<rparr>) else None)"
| "gstep (GClose a) s =
     (case nodes s a of
        None \<Rightarrow> None
      | Some n \<Rightarrow> map_option (\<lambda>n. set_node a n s) (CloseNode n))"

definition gossip_init :: "gnet \<Rightarrow> bool" where
  "gossip_init s \<longleftrightarrow> wire s = [] \<and> injections s = [] \<and>
     (\<forall>a n. nodes s a = Some n \<longrightarrow> (\<exists>c g. n = NewNode c g))"

definition gossip_step :: "gnet \<Rightarrow> gnet \<Rightarrow> bool" where
  "gossip_step s t \<longleftrightarrow> (\<exists>ev. gstep ev s = Some t)"

section \<open>Provenance\<close>

text \<open>Who may push to whom.\<close>

definition links :: "gnet \<Rightarrow> (string \<times> string) set" where
  "links s = {(a, b). \<exists>n. nodes s a = Some n \<and> b \<in> set (peers n)}"

text \<open>
  A rumor at \<open>a\<close> goes back to an injection: the same rumor but for the time to live, which
  has lost one for every hop of a path from where it was injected.
\<close>

definition traced :: "gnet \<Rightarrow> string \<Rightarrow> Rumor \<Rightarrow> bool" where
  "traced s a r \<longleftrightarrow> (\<exists>src r0. (src, r0) \<in> set (injections s) \<and> r = r0\<lparr>rTTL := rTTL r\<rparr> \<and>
     rTTL r \<le> rTTL r0 \<and> (rTTL r = rTTL r0 \<or> 0 \<le> rTTL r) \<and>
     (src, a) \<in> links s ^^ nat (rTTL r0 - rTTL r))"

text \<open>The log has one delivery per known rumor, in the order in which they were learned.\<close>

definition deliveries :: "LogRec list \<Rightarrow> string list" where
  "deliveries rs = map lID (filter (\<lambda>l. lEv l = ''deliver'') rs)"

definition journal_ok :: "Store \<Rightarrow> bool" where
  "journal_ok s \<longleftrightarrow> (case logf s of
       NoFile \<Rightarrow> True
     | OpenFile rs \<Rightarrow> deliveries rs = map fst (seen s)
     | ClosedFile rs \<Rightarrow> prefix (deliveries rs) (map fst (seen s)))"

definition node_ok :: "gnet \<Rightarrow> string \<Rightarrow> Node \<Rightarrow> bool" where
  "node_ok s a n \<longleftrightarrow> store_ok (store n) \<and> journal_ok (store n) \<and>
     (\<forall>(i, r) \<in> set (seen (store n)). traced s a r)"

definition packet_ok :: "gnet \<Rightarrow> packet \<Rightarrow> bool" where
  "packet_ok s p \<longleftrightarrow> (case mType (pmsg p) of
       MsgPush \<Rightarrow> (psrc p, pdst p) \<in> links s \<and> (\<forall>r \<in> set (mRumors (pmsg p)). traced s (psrc p) r)
     | MsgMissing \<Rightarrow> (\<forall>n. nodes s (psrc p) = Some n \<longrightarrow> set (mIDs (pmsg p)) \<subseteq> known (store n))
     | MsgFetchRep \<Rightarrow> (\<forall>n. nodes s (pdst p) = Some n \<longrightarrow> rID ` set (mRumors (pmsg p)) \<subseteq> known (store n))
     | _ \<Rightarrow> True)"

definition net_ok :: "gnet \<Rightarrow> bool" where
  "net_ok s \<longleftrightarrow> (\<forall>a n. nodes s a = Some n \<longrightarrow> node_ok s a n) \<and> (\<forall>p \<in> set (wire s). packet_ok s p)"

text \<open>What a step leaves in place: links, injections and everything the nodes know.\<close>

definition net_le :: "gnet \<Rightarrow> gnet \<Rightarrow> bool" where
  "net_le s t \<longleftrightarrow> links t = links s \<and> set (injections s) \<subseteq> set (injections t) \<and>
     (\<forall>a n'. nodes t a = Some n' \<longrightarrow> (\<exists>n. nodes s a = Some n \<and> known (store n) \<subseteq> known (store n')))"

lemma traced_le: "net_le s t \<Longrightarrow> traced s a r \<Longrightarrow> traced t a r"
  unfolding net_le_def traced_def by (metis subsetD)

lemma packet_ok_le:
  assumes le: "net_le s t" and p: "packet_ok s p"
  shows "packet_ok t p"
proof -
  have kn: "S \<subseteq> known (store n')"
    if "nodes t a = Some n'" "\<And>n. nodes s a = Some n \<Longrightarrow> S \<subseteq> known (store n)" for a n' S
    using le that unfolding net_le_def by (meson order_trans)
  have lk: "links t = links s" using le by (simp add: net_le_def)
  show ?thesis
    using p traced_le [OF le] kn [of "psrc p"] kn [of "pdst p"] lk
    unfolding packet_ok_def by (cases "mType (pmsg p)") simp_all
qed

lemma node_ok_le: "net_le s t \<Longrightarrow> node_ok s a n \<Longrightarrow> node_ok t a n"
  using traced_le [of s t] unfolding node_ok_def by fast

lemma net_sel [simp]:
  "nodes (set_node a n s) = (nodes s)(a \<mapsto> n)" "wire (set_node a n s) = wire s"
  "injections (set_node a n s) = injections s"
  "nodes (post a ms s) = nodes s" "injections (post a ms s) = injections s"
  "wire (post a ms s) = wire s @ map (\<lambda>(d, m). \<lparr>psrc = a, pdst = d, pmsg = m\<rparr>) ms"
  by (simp_all add: set_node_def post_def)

lemma links_set_node:
  "nodes s a = Some n \<Longrightarrow> peers n' = peers n \<Longrightarrow> nodes t = (nodes s)(a \<mapsto> n') \<Longrightarrow> links t = links s"
  by (auto simp: links_def split: if_splits)

text \<open>
  The shape of all steps: one node changes and knows at least as much, packets are posted,
  and others may have gone.
\<close>

lemma net_ok_update:
  assumes ok: "net_ok s" and n: "nodes s a = Some n" and n': "peers n' = peers n"
      "known (store n) \<subseteq> known (store n')"
    and t: "nodes t = (nodes s)(a \<mapsto> n')" "set (injections s) \<subseteq> set (injections t)"
      "set (wire t) \<subseteq> set (wire s) \<union> new"
    and new: "net_le s t \<Longrightarrow> node_ok t a n'" "\<And>p. net_le s t \<Longrightarrow> p \<in> new \<Longrightarrow> packet_ok t p"
  shows "net_ok t"
proof -
  have le: "net_le s t"
    using links_set_node [OF n n'(1) t(1)] n n'(2) t(1,2) by (auto simp: net_le_def)
  have "node_ok t b m" if "nodes t b = Some m" for b m
    using that ok new(1) [OF le] node_ok_le [OF le] t(1) by (cases "b = a") (auto simp: net_ok_def)
  moreover have "packet_ok t p" if "p \<in> set (wire t)" for p
    using that ok new(2) [OF le] packet_ok_le [OF le] t(3) by (auto simp: net_ok_def)
  ultimately show ?thesis by (simp add: net_ok_def)
qed

section \<open>The journal\<close>

lemma journal_writeLog:
  "ev \<noteq> ''deliver'' \<Longrightarrow> journal_ok (writeLog ts ev r s) = journal_ok s"
  by (auto simp: journal_ok_def writeLog_def deliveries_def Let_def split: logfile.splits)

lemma journal_Add:
  assumes "journal_ok s"
  shows "journal_ok (fst (Add ts r s))"
proof (cases "rID r \<in> known s")
  case True
  then show ?thesis using assms by (simp add: Add_known)
next
  case False
  then have "map_of (seen s) (rID r) = None" by (simp add: not_known)
  then show ?thesis
    using assms
    by (auto simp: journal_ok_def Add_def writeLog_def deliveries_def Let_def split: logfile.splits)
qed

lemma journal_ReadyToPush: "journal_ok s \<Longrightarrow> journal_ok (snd (ReadyToPush s))"
  by (simp add: journal_ok_def split: logfile.splits)

lemma log_sends_sel [simp]:
  "seen (log_sends clk i d ps s) = seen s" "newIDs (log_sends clk i d ps s) = newIDs s"
  by (induction ps arbitrary: i s) auto

lemma known_log_sends [simp]: "known (log_sends clk i d ps s) = known s"
  by (simp add: known_def)

lemma store_ok_log_sends [simp]: "store_ok (log_sends clk i d ps s) = store_ok s"
  by (simp add: store_ok_def)

lemma journal_log_sends [simp]: "journal_ok (log_sends clk i d ps s) = journal_ok s"
  by (induction ps arbitrary: i s) (auto simp: journal_writeLog)

section \<open>Every step keeps the invariant\<close>

lemma traced_init: "(a, r) \<in> set (injections s) \<Longrightarrow> traced s a r"
  unfolding traced_def by (intro exI [of _ a] exI [of _ r]) simp

lemma traced_hop:
  assumes "traced s a r" and "(a, b) \<in> links s" and "0 < rTTL r"
  shows "traced s b (r\<lparr>rTTL := rTTL r - 1\<rparr>)"
proof -
  obtain src r0 where r: "(src, r0) \<in> set (injections s)" "r = r0\<lparr>rTTL := rTTL r\<rparr>" "rTTL r \<le> rTTL r0"
    "(src, a) \<in> links s ^^ nat (rTTL r0 - rTTL r)"
    using assms(1) by (auto simp: traced_def)
  have "nat (rTTL r0 - (rTTL r - 1)) = Suc (nat (rTTL r0 - rTTL r))" using r(3) by simp
  then have path: "(src, b) \<in> links s ^^ nat (rTTL r0 - (rTTL r - 1))" using r(4) assms(2) by auto
  have "r\<lparr>rTTL := rTTL r - 1\<rparr> = r0\<lparr>rTTL := rTTL r - 1\<rparr>" using r(2) by (metis Rumor.update_convs(2) Rumor.surjective)
  then show ?thesis
    using r(1,3) path assms(3) unfolding traced_def by (intro exI [of _ src] exI [of _ r0]) simp
qed

lemma node_ok_Add:
  assumes "node_ok s a n" and "traced s a r"
  shows "node_ok s a (n\<lparr>store := fst (Add ts r (store n))\<rparr>)"
proof (cases "rID r \<in> known (store n)")
  case True
  then show ?thesis using assms(1) by (simp add: Add_known node_ok_def)
next
  case False
  then show ?thesis
    using assms by (auto simp: node_ok_def store_ok_Add journal_Add Add_new(2))
qed

lemma node_ok_log: "ev \<noteq> ''deliver'' \<Longrightarrow> node_ok s a (n\<lparr>store := writeLog ts ev r (store n)\<rparr>) = node_ok s a n"
  by (simp add: node_ok_def journal_writeLog)

lemma push_loop_ok:
  "node_ok s a n \<Longrightarrow> (\<forall>r \<in> set rs. 0 < rTTL r \<longrightarrow> traced s a (r\<lparr>rTTL := rTTL r - 1\<rparr>)) \<Longrightarrow>
     node_ok s a (n\<lparr>store := push_loop clk i rs (store n)\<rparr>) \<and>
     known (store n) \<subseteq> known (push_loop clk i rs (store n))"
proof (induction rs arbitrary: i n)
  case (Cons r rs)
  show ?case
  proof (cases "rTTL r \<le> 0")
    case False
    let ?n = "n\<lparr>store := fst (Add (clk i) (r\<lparr>rTTL := rTTL r - 1\<rparr>) (store n))\<rparr>"
    have "node_ok s a ?n" using Cons.prems False by (intro node_ok_Add) auto
    from Cons.IH [OF this, of "Suc i"] show ?thesis using Cons.prems(2) False by auto
  qed (use Cons in simp)
qed simp

text \<open>Rumors that are known already leave the store alone.\<close>

lemma fetch_loop_known: "rID ` set rs \<subseteq> known s \<Longrightarrow> fetch_loop clk i rs s = s"
  by (induction rs arbitrary: i) (auto simp: Add_known)

lemma tickOnce_ok:
  assumes ok: "node_ok s a n" and r: "tickOnce e n = Some (n', ms)"
  shows "peers n' = peers n" "known (store n') = known (store n)" "node_ok s a n'"
    "(d, m) \<in> set ms \<Longrightarrow> mType m = MsgPush \<and> d \<in> set (peers n) \<and> (\<forall>r \<in> set (mRumors m). traced s a r)"
proof -
  obtain rs st where rp: "ReadyToPush (store n) = (rs, st)" by fastforce
  have st: "store_ok st" "journal_ok st" "seen st = seen (store n)" "known st = known (store n)"
    using ok store_ok_ReadyToPush [of "store n"] journal_ReadyToPush [of "store n"]
      ReadyToPush_sel(1) [of "store n"] known_ReadyToPush [of "store n"] rp
    by (simp_all add: node_ok_def)
  have tr: "traced s a x" if "x \<in> set rs" for x
    using ready_seen [of "store n" x] that rp ok by (auto simp: node_ok_def)
  have pick: "set ps \<subseteq> set (peers n)" if "pickPeers p k (n\<lparr>store := st\<rparr>) = Some ps" for p k ps
    using that set_take_subset [of "nat k" "permute p (peers n)"]
    by (auto simp: pickPeers_def split: if_splits)
  consider "n' = n\<lparr>store := st\<rparr>" "ms = []"
    | dummy ps where "n' = n\<lparr>store := log_sends (clock e) 0 dummy ps st\<rparr>" "set ps \<subseteq> set (peers n)"
      "ms = map (\<lambda>p. (p, \<lparr>mType = MsgPush, mFrom = cID (cfg n), mRumors = rs, mIDs = []\<rparr>)) ps"
    using r pick by (auto simp: tickOnce_def rp Let_def split: if_splits bind_splits)
  then show "peers n' = peers n" "known (store n') = known (store n)" "node_ok s a n'"
    "(d, m) \<in> set ms \<Longrightarrow> mType m = MsgPush \<and> d \<in> set (peers n) \<and> (\<forall>r \<in> set (mRumors m). traced s a r)"
    by (cases; use st ok tr in \<open>auto simp: node_ok_def\<close>)+
qed

lemma sendDigest_ok:
  assumes "sendDigest e n = Some (n', ms)"
  shows "n' = n" "(d, m) \<in> set ms \<Longrightarrow> mType m = MsgDigest"
  using assms by (auto simp: sendDigest_def Let_def split: if_splits bind_splits)

lemma Handle_ok:
  assumes ok: "node_ok s (pdst p) n" and n: "nodes s (pdst p) = Some n" and p: "packet_ok s p"
    and r: "Handle e (pmsg p) (psrc p) n = (n', ms)"
  shows "peers n' = peers n" "known (store n) \<subseteq> known (store n')" "node_ok s (pdst p) n'"
    "(d, m) \<in> set ms \<Longrightarrow> (mType m = MsgMissing \<and> set (mIDs m) \<subseteq> known (store n)) \<or>
       (mType m = MsgFetchRep \<and> d = psrc p \<and> mType (pmsg p) = MsgMissing \<and> rID ` set (mRumors m) \<subseteq> set (mIDs (pmsg p)))"
proof -
  define n1 where "n1 = n\<lparr>store := writeLog (clock e 0) ''recv''
    (case mRumors (pmsg p) of [] \<Rightarrow> zeroRumor | r # _ \<Rightarrow> r) (store n)\<rparr>"
  have n1: "node_ok s (pdst p) n1" "peers n1 = peers n" "known (store n1) = known (store n)" "seen (store n1) = seen (store n)"
    using ok by (simp_all add: n1_def node_ok_log)
  have push: "node_ok s (pdst p) (n1\<lparr>store := push_loop (clock e) 1 (mRumors (pmsg p)) (store n1)\<rparr>) \<and>
      known (store n1) \<subseteq> known (push_loop (clock e) 1 (mRumors (pmsg p)) (store n1))"
    if "mType (pmsg p) = MsgPush"
    using p that traced_hop by (intro push_loop_ok [OF n1(1)]) (auto simp: packet_ok_def)
  have fetch: "fetch_loop (clock e) 1 (mRumors (pmsg p)) (store n1) = store n1" if "mType (pmsg p) = MsgFetchRep"
    using p n n1(3) that by (intro fetch_loop_known) (auto simp: packet_ok_def)
  have eq: "Handle e (pmsg p) (psrc p) n = (case mType (pmsg p) of
        MsgPush \<Rightarrow> (n1\<lparr>store := push_loop (clock e) 1 (mRumors (pmsg p)) (store n1)\<rparr>, [])
      | MsgDigest \<Rightarrow> (n1, handleDigest e (pmsg p) (psrc p) n1)
      | MsgMissing \<Rightarrow> (n1, handleMissing (pmsg p) (psrc p) n1)
      | MsgFetchRep \<Rightarrow> (handleFetchRep e (pmsg p) n1, [])
      | MsgOther t \<Rightarrow> (n1, []))"
    unfolding Handle_def Let_def n1_def [symmetric] ..
  have same: "n1\<lparr>store := store n1\<rparr> = n1" by simp
  show "peers n' = peers n" "known (store n) \<subseteq> known (store n')" "node_ok s (pdst p) n'"
    using r n1 push fetch same unfolding eq
    by (cases "mType (pmsg p)"; auto simp: handleFetchRep_def)+
  have look: "rID x \<in> set is" if "x \<in> set (LookupMany is (store n1))" for x "is"
    using LookupMany_rumor [OF _ that] n1(1) by (simp add: node_ok_def)
  show "(mType m = MsgMissing \<and> set (mIDs m) \<subseteq> known (store n)) \<or>
       (mType m = MsgFetchRep \<and> d = psrc p \<and> mType (pmsg p) = MsgMissing \<and> rID ` set (mRumors m) \<subseteq> set (mIDs (pmsg p)))"
    if "(d, m) \<in> set ms"
    using r that n1(3) look unfolding eq
    by (cases "mType (pmsg p)")
      (auto simp: handleDigest_def handleMissing_def Let_def diff_eq split: if_splits)
qed

lemma Inject_ok:
  assumes ok: "node_ok s a n" and i: "(a, created e i b ttl n) \<in> set (injections s)"
  shows "peers (Inject e i b ttl n) = peers n"
    "known (store (Inject e i b ttl n)) = insert i (known (store n))" "node_ok s a (Inject e i b ttl n)"
proof -
  let ?r = "created e i b ttl n"
  let ?n = "n\<lparr>store := writeLog (clock e 1) ''inject'' ?r (store n)\<rparr>"
  have eq: "Inject e i b ttl n = ?n\<lparr>store := fst (Add (clock e 2) ?r (store ?n))\<rparr>"
    by (simp add: Inject_def created_def Let_def case_prod_beta)
  have "node_ok s a ?n" using ok by (simp add: node_ok_log)
  then show "node_ok s a (Inject e i b ttl n)"
    unfolding eq by (rule node_ok_Add) (rule traced_init [OF i])
  show "peers (Inject e i b ttl n) = peers n"
    "known (store (Inject e i b ttl n)) = insert i (known (store n))"
    unfolding eq by (simp_all add: created_def)
qed

lemma node_ok_close: "node_ok s a n \<Longrightarrow> node_ok s a (n\<lparr>stopped := True, store := fst (CloseStore (store n))\<rparr>)"
  by (auto simp: node_ok_def CloseStore_def journal_ok_def store_ok_def known_def split: logfile.splits)

lemma deliver_net_ok:
  assumes ok: "net_ok s" and st: "gstep (GDeliver k e keep) s = Some t"
  shows "net_ok t"
proof -
  let ?p = "wire s ! k"
  have k: "k < length (wire s)" using st by (auto split: if_splits)
  then have p: "packet_ok s ?p" using ok by (simp add: net_ok_def)
  let ?w = "if keep then wire s else take k (wire s) @ drop (Suc k) (wire s)"
  have w: "set ?w \<subseteq> set (wire s)" by (auto dest: in_set_takeD in_set_dropD)
  obtain n n' ms where n: "nodes s (pdst ?p) = Some n" and h: "Handle e (pmsg ?p) (psrc ?p) n = (n', ms)"
    and eq: "t = post (pdst ?p) ms (set_node (pdst ?p) n' (s\<lparr>wire := ?w\<rparr>))"
    using st k by (auto simp: Let_def split: option.splits if_splits prod.splits)
  have t: "nodes t = (nodes s)(pdst ?p \<mapsto> n')" "injections t = injections s"
      "set (wire t) \<subseteq> set (wire s) \<union> (\<lambda>(d, m). \<lparr>psrc = pdst ?p, pdst = d, pmsg = m\<rparr>) ` set ms"
    using w unfolding eq by auto
  have nok: "node_ok s (pdst ?p) n" using ok n by (simp add: net_ok_def)
  note H = Handle_ok [OF nok n p h]
  show ?thesis
  proof (rule net_ok_update [OF ok n H(1,2) t(1) _ t(3)])
    show "set (injections s) \<subseteq> set (injections t)" using t(2) by simp
    show "node_ok t (pdst ?p) n'" if "net_le s t" using node_ok_le [OF that H(3)] .
    fix q
    assume le: "net_le s t" and "q \<in> (\<lambda>(d, m). \<lparr>psrc = pdst ?p, pdst = d, pmsg = m\<rparr>) ` set ms"
    then obtain d m where q: "q = \<lparr>psrc = pdst ?p, pdst = d, pmsg = m\<rparr>" "(d, m) \<in> set ms" by auto
    from H(4) [OF q(2)] have "packet_ok s q"
      using p n q(1) by (auto simp: packet_ok_def) blast
    then show "packet_ok t q" using packet_ok_le [OF le] by blast
  qed
qed

lemma net_ok_gstep:
  assumes ok: "net_ok s" and st: "gstep ev s = Some t"
  shows "net_ok t"
proof (cases ev)
  case (GInject a e i b ttl)
  then obtain n where n: "nodes s a = Some n"
    and t: "t = set_node a (Inject e i b ttl n) (s\<lparr>injections := (a, created e i b ttl n) # injections s\<rparr>)"
    using st by (auto split: option.splits)
  have nok: "node_ok s a n" using ok n by (simp add: net_ok_def)
  have t': "nodes t = (nodes s)(a \<mapsto> Inject e i b ttl n)" "injections t = (a, created e i b ttl n) # injections s"
    "wire t = wire s"
    using t by simp_all
  have "peers (Inject e i b ttl n) = peers n" "known (store (Inject e i b ttl n)) = insert i (known (store n))"
    by (simp_all add: Inject_def Let_def case_prod_beta)
  then show ?thesis
    using t' Inject_ok(3) [OF node_ok_le [OF _ nok]]
    by (intro net_ok_update [OF ok n _ _ t'(1), of "{}"]) auto
next
  case (GTick a e)
  then obtain n n' ms where n: "nodes s a = Some n" and r: "tickOnce e n = Some (n', ms)"
    and t: "t = post a ms (set_node a n' s)"
    using st by (auto split: option.splits if_splits)
  have nok: "node_ok s a n" using ok n by (simp add: net_ok_def)
  note T = tickOnce_ok [OF nok r]
  have "packet_ok s \<lparr>psrc = a, pdst = d, pmsg = m\<rparr>" if "(d, m) \<in> set ms" for d m
    using T(4) [OF that] n by (auto simp: packet_ok_def links_def)
  then show ?thesis
    using t T(1,2) node_ok_le [OF _ T(3)] packet_ok_le
    by (intro net_ok_update [OF ok n T(1), of t "(\<lambda>(d, m). \<lparr>psrc = a, pdst = d, pmsg = m\<rparr>) ` set ms"]) auto
next
  case (GDigest a e)
  then obtain n n' ms where n: "nodes s a = Some n" and r: "sendDigest e n = Some (n', ms)"
    and t: "t = post a ms (set_node a n' s)"
    using st by (auto split: option.splits if_splits)
  have nok: "node_ok s a n" using ok n by (simp add: net_ok_def)
  note T = sendDigest_ok [OF r]
  have "packet_ok s \<lparr>psrc = a, pdst = d, pmsg = m\<rparr>" if "(d, m) \<in> set ms" for d m
    using T(2) [OF that] by (simp add: packet_ok_def)
  then show ?thesis
    using t T(1) node_ok_le [OF _ nok] packet_ok_le
    by (intro net_ok_update [OF ok n, of n' t "(\<lambda>(d, m). \<lparr>psrc = a, pdst = d, pmsg = m\<rparr>) ` set ms"]) auto
next
  case (GDeliver k e keep)
  then show ?thesis using deliver_net_ok [OF ok] st by blast
next
  case (GDrop k)
  then have "nodes t = nodes s" "links t = links s" "injections t = injections s" "set (wire t) \<subseteq> set (wire s)"
    using st by (auto simp: links_def dest: in_set_takeD in_set_dropD split: if_splits)
  then show ?thesis
    using ok node_ok_le [of s t] packet_ok_le [of s t] by (auto simp: net_ok_def net_le_def)
next
  case (GClose a)
  then obtain n where n: "nodes s a = Some n" and t: "t = set_node a (n\<lparr>stopped := True, store := fst (CloseStore (store n))\<rparr>) s"
    using st by (auto simp: CloseNode_def split: option.splits if_splits)
  have nok: "node_ok s a n" using ok n by (simp add: net_ok_def)
  have "known (fst (CloseStore (store n))) = known (store n)"
    by (auto simp: CloseStore_def known_def split: logfile.splits)
  then show ?thesis
    using t node_ok_close [OF node_ok_le [OF _ nok]]
    by (intro net_ok_update [OF ok n, of "n\<lparr>stopped := True, store := fst (CloseStore (store n))\<rparr>" t "{}"]) auto
qed

lemma node_ok_new: "node_ok s a (NewNode c g)"
  by (simp add: node_ok_def NewNode_def journal_ok_def deliveries_def NewStore_def store_ok_def)

lemma net_ok_init: "gossip_init s \<Longrightarrow> net_ok s"
  unfolding gossip_init_def net_ok_def using node_ok_new by fastforce

interpretation gossip: invariant_system gossip_init gossip_step net_ok
proof unfold_locales
  show "net_ok s" if "gossip_init s" for s using that by (rule net_ok_init)
  show "net_ok t" if "gossip_step s t" "net_ok s" for s t
    using that net_ok_gstep by (auto simp: gossip_step_def)
qed

section \<open>Properties of the network\<close>

text \<open>Two nodes that know each other.\<close>

definition pair_config :: "string \<Rightarrow> string \<Rightarrow> Config" where
  "pair_config i seed = \<lparr>cID = i, cBind = i, cSeeds = [seed], cPeriod = 200000000, cFanout = 3,
     cTTL = 8, cMetricsAddr = [], cLogPath = [], cAEInterval = 0\<rparr>"

definition pair_net :: gnet where
  "pair_net = \<lparr>nodes = [''a'' \<mapsto> NewNode True (pair_config ''a'' ''b''), ''b'' \<mapsto> NewNode True (pair_config ''b'' ''a'')],
     wire = [], injections = []\<rparr>"

definition genv0 :: genv where
  "genv0 = \<lparr>clock = int, perm = [], order = []\<rparr>"

text \<open>
  Node \<open>b\<close> asks for the rumor that only it has, and meanwhile pushes it to \<open>a\<close>, which
  therefore can answer.
\<close>

definition pair_run :: "gevent list" where
  "pair_run = [GInject ''a'' genv0 ''y'' ''1'' 0, GInject ''b'' genv0 ''x'' ''2'' 3, GDigest ''a'' genv0,
     GTick ''b'' genv0, GDeliver 0 genv0 False, GDeliver 0 genv0 False, GDeliver 0 genv0 False]"

definition pair_end :: gnet where
  "pair_end = the (exec gstep pair_run pair_net)"

lemma pair_end_reach: "reachable gossip_init gossip_step pair_end"
proof -
  have "\<not> Option.is_none (exec gstep pair_run pair_net)" by code_simp
  then have run: "exec gstep pair_run pair_net = Some pair_end"
    by (auto simp: pair_end_def Option.is_none_def)
  have "gossip_init pair_net" by (auto simp: gossip_init_def pair_net_def)
  then show ?thesis
    by (intro exec_reachable [OF run] reach_init) (auto simp: gossip_step_def)
qed

text \<open>C24: Provenance and reach of rumors. In every run, with loss, duplication and reordering of
  packets, a rumor that a node knows was injected somewhere with the same id, body, origin and
  time, and came along a path of peers whose length is what the time to live has lost: it is
  never further from its origin than the time to live it was injected with.\<close>

theorem rumor_provenance:
  assumes "reachable gossip_init gossip_step s" and "nodes s a = Some n" and "(i, r) \<in> set (seen (store n))"
  shows "\<exists>src r0 k. (src, r0) \<in> set (injections s) \<and> i = rID r0 \<and> rID r = rID r0 \<and> rBody r = rBody r0 \<and>
    rOrigin r = rOrigin r0 \<and> rInjectTS r = rInjectTS r0 \<and> (src, a) \<in> links s ^^ k \<and>
    rTTL r = rTTL r0 - int k \<and> int k \<le> max 0 (rTTL r0)"
proof -
  have ok: "node_ok s a n" using gossip.reachable_inv [OF assms(1)] assms(2) by (simp add: net_ok_def)
  then have "traced s a r" "rID r = i" using assms(3) by (auto simp: node_ok_def store_ok_def)
  then obtain src r0 where r: "(src, r0) \<in> set (injections s)" "r = r0\<lparr>rTTL := rTTL r\<rparr>" "rTTL r \<le> rTTL r0"
    "rTTL r = rTTL r0 \<or> 0 \<le> rTTL r" "(src, a) \<in> links s ^^ nat (rTTL r0 - rTTL r)"
    by (auto simp: traced_def)
  have "rID r = rID r0 \<and> rBody r = rBody r0 \<and> rOrigin r = rOrigin r0 \<and> rInjectTS r = rInjectTS r0"
    by (subst (1 2 3 4) r(2)) simp
  then show ?thesis
    using r(1,3,4,5) \<open>rID r = i\<close>
    by (intro exI [of _ src] exI [of _ r0] exI [of _ "nat (rTTL r0 - rTTL r)"]) auto
qed

theorem rumor_provenance_witness:
  "\<exists>src r0 k. (src, r0) \<in> set (injections pair_end) \<and> rID r0 = ''x'' \<and> rBody r0 = ''2'' \<and>
    (src, ''a'') \<in> links pair_end ^^ k \<and> rTTL r0 - int k = 2"
proof -
  obtain n where n: "nodes pair_end ''a'' = Some n"
    "(''x'', \<lparr>rID = ''x'', rTTL = 2, rBody = ''2'', rOrigin = ''b'', rInjectTS = 0\<rparr>) \<in> set (seen (store n))"
  proof -
    have "map_option (\<lambda>n. (''x'', \<lparr>rID = ''x'', rTTL = 2, rBody = ''2'', rOrigin = ''b'', rInjectTS = 0\<rparr>)
        \<in> set (seen (store n))) (nodes pair_end ''a'') = Some True"
      by code_simp
    then show thesis using that by auto
  qed
  from rumor_provenance [OF pair_end_reach this] show ?thesis by fastforce
qed

text \<open>C25: Anti-entropy never brings a node a rumor. Whenever the reply to a request for missing
  rumors is delivered, in any run, no store changes and nothing is sent: \<^verbatim>\<open>handleDigest\<close> asks the
  other side for the rumors that the other side lacks.\<close>

theorem anti_entropy_inert:
  assumes "reachable gossip_init gossip_step s" and "k < length (wire s)"
    and "mType (pmsg (wire s ! k)) = MsgFetchRep" and "gstep (GDeliver k e keep) s = Some t"
  shows "map_option (\<lambda>n. (seen (store n), newIDs (store n))) (nodes t a) =
      map_option (\<lambda>n. (seen (store n), newIDs (store n))) (nodes s a) \<and>
    set (wire t) \<subseteq> set (wire s)"
proof -
  let ?p = "wire s ! k"
  let ?w = "if keep then wire s else take k (wire s) @ drop (Suc k) (wire s)"
  obtain n n' ms where n: "nodes s (pdst ?p) = Some n" and h: "Handle e (pmsg ?p) (psrc ?p) n = (n', ms)"
    and eq: "t = post (pdst ?p) ms (set_node (pdst ?p) n' (s\<lparr>wire := ?w\<rparr>))"
    using assms(2,4) by (auto simp: Let_def split: option.splits if_splits prod.splits)
  have "packet_ok s ?p" using gossip.reachable_inv [OF assms(1)] assms(2) by (simp add: net_ok_def)
  then have kn: "rID ` set (mRumors (pmsg ?p)) \<subseteq> known (store n)"
    using assms(3) n by (simp add: packet_ok_def)
  have "fetch_loop clk i (mRumors (pmsg ?p)) (writeLog ts ev x (store n)) = writeLog ts ev x (store n)"
    for clk i ts ev x
    by (rule fetch_loop_known) (simp add: kn)
  then have "seen (store n') = seen (store n)" "newIDs (store n') = newIDs (store n)" "ms = []"
    using h assms(3) by (auto simp: Handle_def Let_def handleFetchRep_def)
  then show ?thesis unfolding eq using n by (auto dest: in_set_takeD in_set_dropD)
qed

theorem anti_entropy_inert_witness:
  "mType (pmsg (wire pair_end ! 0)) = MsgFetchRep \<and>
   map_option (\<lambda>n. (seen (store n), newIDs (store n))) (nodes (the (gstep (GDeliver 0 genv0 False) pair_end)) ''b'') =
   map_option (\<lambda>n. (seen (store n), newIDs (store n))) (nodes pair_end ''b'')"
proof -
  have f: "0 < length (wire pair_end)" "mType (pmsg (wire pair_end ! 0)) = MsgFetchRep"
    "\<not> Option.is_none (gstep (GDeliver 0 genv0 False) pair_end)"
    by code_simp+
  then have "gstep (GDeliver 0 genv0 False) pair_end = Some (the (gstep (GDeliver 0 genv0 False) pair_end))"
    by (auto simp: Option.is_none_def)
  from anti_entropy_inert [OF pair_end_reach f(1,2) this] f(2) show ?thesis by blast
qed

text \<open>The log of a node names every rumor it knows in exactly one delivery, in the order in which
  it learned them.\<close>

lemma delivered_once:
  assumes "reachable gossip_init gossip_step s" and "nodes s a = Some n" and "logf (store n) = OpenFile rs"
  shows "map lID (filter (\<lambda>l. lEv l = ''deliver'') rs) = map fst (seen (store n)) \<and>
    distinct (map fst (seen (store n)))"
proof -
  have "node_ok s a n" using gossip.reachable_inv [OF assms(1)] assms(2) by (simp add: net_ok_def)
  then show ?thesis
    using assms(3) by (simp add: node_ok_def journal_ok_def deliveries_def store_ok_def)
qed

end
