(* ===== verification/Gossip_Daemon.thy ===== *)
theory Gossip_Daemon
  imports Gossip_Net
begin

text \<open>
  The gossip daemon around a node: the UDP transport (\<^verbatim>\<open>project/gossip/pkg/gossip/transport.go\<close>),
  the loops of a node and the steps of \<^verbatim>\<open>Close\<close> (\<^verbatim>\<open>node.go\<close>), \<^verbatim>\<open>ServeHTTP\<close> (\<^verbatim>\<open>http.go\<close>) and \<^verbatim>\<open>main\<close>
  (\<^verbatim>\<open>cmd/gossipd/main.go\<close>). Daemons exchange datagrams of bytes. Every behaviour of them is one of the
  network of \<open>Gossip_Net\<close>, and a daemon that is being closed can always finish closing.
\<close>

section \<open>The UDP transport\<close>

text \<open>
  What the transport takes from the system and from \<^verbatim>\<open>encoding/json\<close>: the resolution of addresses,
  whether an address can be listened on, whether a datagram to an address is written, and the
  encoding of messages.
\<close>

record udp =
  resolve :: "string \<Rightarrow> string option"
  listens :: "string \<Rightarrow> bool"
  writes :: "string \<Rightarrow> string \<Rightarrow> bool"
  marshal :: "Msg \<Rightarrow> string"
  unmarshal :: "string \<Rightarrow> Msg option"

datatype udpconn = NoConn | Conn | ClosedConn

record UDPTransport =
  conn :: udpconn

datatype tx_err = ResolveErr | ListenErr | WriteErr | CloseErr

record datagram =
  gsrc :: string
  gdst :: string
  bytes :: string

definition NewUDPTransport :: UDPTransport where
  "NewUDPTransport = \<lparr>conn = NoConn\<rparr>"

definition Listen :: "udp \<Rightarrow> string \<Rightarrow> UDPTransport \<Rightarrow> UDPTransport \<times> tx_err option" where
  "Listen u laddr t =
     (case resolve u laddr of
        None \<Rightarrow> (t, Some ResolveErr)
      | Some addr \<Rightarrow>
          if listens u addr then (t\<lparr>conn := Conn\<rparr>, None) else (t\<lparr>conn := NoConn\<rparr>, Some ListenErr))"

text \<open>One turn of the goroutine that reads: it ends, drops what it read, or hands on a message.\<close>

datatype turn = ReaderEnds | Skips | Handles Msg

definition read_buf :: "string \<Rightarrow> string" where
  "read_buf b = (if go_len b \<le> 64 * 1024 then b else take (64 * 1024) b)"

definition reader_turn :: "udp \<Rightarrow> datagram \<Rightarrow> UDPTransport \<Rightarrow> turn" where
  "reader_turn u g t =
     (if conn t \<noteq> Conn then ReaderEnds
      else case unmarshal u (read_buf (bytes g)) of None \<Rightarrow> Skips | Some m \<Rightarrow> Handles m)"

text \<open>\<open>me\<close> is the address that the packets of the socket come from.\<close>

definition Send :: "udp \<Rightarrow> string \<Rightarrow> string \<Rightarrow> Msg \<Rightarrow> UDPTransport \<Rightarrow> tx_err + datagram" where
  "Send u me addr m t =
     (let b = marshal u m
      in case resolve u addr of
        None \<Rightarrow> Inl ResolveErr
      | Some raddr \<Rightarrow>
          if conn t = Conn \<and> writes u b raddr then Inr \<lparr>gsrc = me, gdst = raddr, bytes = b\<rparr> else Inl WriteErr)"

definition CloseTx :: "UDPTransport \<Rightarrow> UDPTransport \<times> tx_err option" where
  "CloseTx t =
     (case conn t of
        NoConn \<Rightarrow> (t, None)
      | Conn \<Rightarrow> (t\<lparr>conn := ClosedConn\<rparr>, None)
      | ClosedConn \<Rightarrow> (t, Some CloseErr))"

text \<open>The datagrams of the messages of an operation; the errors of \<^verbatim>\<open>Send\<close> are only logged.\<close>

definition sends :: "udp \<Rightarrow> string \<Rightarrow> out \<Rightarrow> UDPTransport \<Rightarrow> datagram list" where
  "sends u me ms t =
     List.map_filter (\<lambda>(addr, m). case Send u me addr m t of Inl e \<Rightarrow> None | Inr g \<Rightarrow> Some g) ms"

section \<open>The loops and the end of a node\<close>

text \<open>
  A daemon is a node with its transport, the number of running loops of either kind, the wait group,
  how far \<^verbatim>\<open>Close\<close> has got, whether the HTTP server runs, and the package's counter of ids.
\<close>

datatype closing = NotClosing | Waiting | StoreShut | AllClosed

record daemon =
  dnode :: Node
  tx :: UDPTransport
  gossips :: nat
  entropies :: nat
  wg :: int
  closing :: closing
  serving :: bool
  injected :: "64 word"

text \<open>A ticker with a period that is not positive panics.\<close>

definition StartNode :: "daemon \<Rightarrow> daemon result" where
  "StartNode d =
     (let d = d\<lparr>wg := wg d + 2\<rparr>
      in if cPeriod (cfg (dnode d)) \<le> 0 then None
         else Some (d\<lparr>gossips := Suc (gossips d), entropies := Suc (entropies d)\<rparr>))"

text \<open>A turn of a loop: what \<^verbatim>\<open>select\<close> chose. It may choose the ticker also after the stop.\<close>

datatype choice = OnStop | OnTick genv

fun gossipLoop :: "choice \<Rightarrow> daemon \<Rightarrow> (daemon \<times> out) result" where
  "gossipLoop OnStop d =
     (if 0 < gossips d \<and> stopped (dnode d)
      then Some (d\<lparr>gossips := gossips d - 1, wg := wg d - 1\<rparr>, []) else None)"
| "gossipLoop (OnTick e) d =
     (if 0 < gossips d then map_option (\<lambda>(n, ms). (d\<lparr>dnode := n\<rparr>, ms)) (tickOnce e (dnode d)) else None)"

fun antiEntropyLoop :: "choice \<Rightarrow> daemon \<Rightarrow> (daemon \<times> out) result" where
  "antiEntropyLoop OnStop d =
     (if 0 < entropies d \<and> stopped (dnode d)
      then Some (d\<lparr>entropies := entropies d - 1, wg := wg d - 1\<rparr>, []) else None)"
| "antiEntropyLoop (OnTick e) d =
     (if 0 < entropies d then map_option (\<lambda>(n, ms). (d\<lparr>dnode := n\<rparr>, ms)) (sendDigest e (dnode d)) else None)"

text \<open>\<^verbatim>\<open>Close\<close> in its steps: the channel, the store once the loops have ended, the transport.\<close>

definition close_stop :: "daemon \<Rightarrow> daemon result" where
  "close_stop d =
     (if stopped (dnode d) then None
      else Some (d\<lparr>dnode := (dnode d)\<lparr>stopped := True\<rparr>, closing := Waiting\<rparr>))"

definition close_store :: "daemon \<Rightarrow> daemon result" where
  "close_store d =
     (if closing d = Waiting \<and> wg d = 0
      then Some (d\<lparr>dnode := (dnode d)\<lparr>store := fst (CloseStore (store (dnode d)))\<rparr>, closing := StoreShut\<rparr>)
      else None)"

definition close_tx :: "daemon \<Rightarrow> daemon result" where
  "close_tx d =
     (if closing d = StoreShut then Some (d\<lparr>tx := fst (CloseTx (tx d)), closing := AllClosed\<rparr>) else None)"

section \<open>The program\<close>

datatype serve_end = ReturnsNil | ReturnsError | Blocks

definition ServeHTTP :: "(string \<Rightarrow> bool) \<Rightarrow> daemon \<Rightarrow> daemon \<times> serve_end" where
  "ServeHTTP http d =
     (if cMetricsAddr (cfg (dnode d)) = [] then (d, ReturnsNil)
      else if http (cMetricsAddr (cfg (dnode d))) then (d\<lparr>serving := True\<rparr>, Blocks)
      else (d, ReturnsError))"

record flags =
  fid :: string
  fbind :: string
  fseeds :: string
  fperiod :: int
  ffanout :: int
  fttl :: int
  fmetrics :: string
  flogPath :: string

definition default_flags :: flags where
  "default_flags = \<lparr>fid = [], fbind = ''0.0.0.0:9000'', fseeds = [], fperiod = 200 * 1000000, ffanout = 3, fttl = 8,
     fmetrics = ''0.0.0.0:9090'', flogPath = ''/tmp/gossip.jsonl''\<rparr>"

definition config_of :: "flags \<Rightarrow> Config" where
  "config_of f = \<lparr>cID = fid f, cBind = fbind f, cSeeds = splitCSV (fseeds f), cPeriod = fperiod f,
     cFanout = ffanout f, cTTL = fttl f, cMetricsAddr = fmetrics f, cLogPath = flogPath f, cAEInterval = 0\<rparr>"

datatype main_end = Runs daemon | ExitZero | ExitFatal | ExitPanic

definition gossipd_main :: "udp \<Rightarrow> (string \<Rightarrow> bool) \<Rightarrow> bool \<Rightarrow> flags \<Rightarrow> main_end" where
  "gossipd_main u http logs f =
     (let c = config_of f;
          n = NewNode logs c;
          (t, err) = Listen u (cBind c) NewUDPTransport;
          d = \<lparr>dnode = n, tx = t, gossips = 0, entropies = 0, wg = 0, closing = NotClosing, serving = False, injected = 0\<rparr>
      in if err \<noteq> None then ExitFatal
         else case StartNode d of
           None \<Rightarrow> ExitPanic
         | Some d \<Rightarrow>
             (case ServeHTTP http d of
                (d, ReturnsNil) \<Rightarrow> ExitZero
              | (d, ReturnsError) \<Rightarrow> ExitFatal
              | (d, Blocks) \<Rightarrow> Runs d))"

section \<open>A network of daemons\<close>

text \<open>
  Daemons by the address their packets come from. \<open>dinjections\<close> and \<open>sent\<close> are history variables: the
  rumors created and the messages handed to \<^verbatim>\<open>Send\<close>.
\<close>

record dnet =
  daemons :: "string \<rightharpoonup> daemon"
  dgrams :: "datagram list"
  dinjections :: "(string \<times> Rumor) list"
  sent :: "Msg list"

datatype devent =
    DInject string genv string string string
  | DGossip string choice
  | DEntropy string choice
  | DReceive nat genv bool
  | DLose nat
  | DClose string
  | DCloseStore string
  | DCloseTx string

definition set_daemon :: "string \<Rightarrow> daemon \<Rightarrow> dnet \<Rightarrow> dnet" where
  "set_daemon a d s = s\<lparr>daemons := (daemons s)(a \<mapsto> d)\<rparr>"

definition transmit :: "udp \<Rightarrow> string \<Rightarrow> daemon \<times> out \<Rightarrow> dnet \<Rightarrow> dnet" where
  "transmit u a r s =
     (let (d, ms) = r
      in set_daemon a d (s\<lparr>dgrams := dgrams s @ sends u a ms (tx d), sent := sent s @ map snd ms\<rparr>))"

fun dstep :: "udp \<Rightarrow> devent \<Rightarrow> dnet \<Rightarrow> dnet option" where
  "dstep u (DInject a e qid qbody qttl) s =
     (case daemons s a of
        None \<Rightarrow> None
      | Some d \<Rightarrow>
          if serving d
          then let (c, n) = serve_inject e qid qbody qttl (injected d, dnode d);
                   i = (if qid = [] then cID (cfg (dnode d)) @ ''-'' @ digits (unat c) else qid)
               in Some (set_daemon a (d\<lparr>dnode := n, injected := c\<rparr>)
                    (s\<lparr>dinjections := (a, created e i qbody (Atoi qttl) (dnode d)) # dinjections s\<rparr>))
          else None)"
| "dstep u (DGossip a c) s =
     (case daemons s a of
        None \<Rightarrow> None
      | Some d \<Rightarrow> map_option (\<lambda>r. transmit u a r s) (gossipLoop c d))"
| "dstep u (DEntropy a c) s =
     (case daemons s a of
        None \<Rightarrow> None
      | Some d \<Rightarrow> map_option (\<lambda>r. transmit u a r s) (antiEntropyLoop c d))"
| "dstep u (DReceive k e keep) s =
     (if k < length (dgrams s)
      then let g = dgrams s ! k;
               s = (if keep then s else s\<lparr>dgrams := take k (dgrams s) @ drop (Suc k) (dgrams s)\<rparr>)
           in (case daemons s (gdst g) of
                 None \<Rightarrow> None
               | Some d \<Rightarrow>
                   (case reader_turn u g (tx d) of
                      ReaderEnds \<Rightarrow> None
                    | Skips \<Rightarrow> Some s
                    | Handles m \<Rightarrow>
                        let (n, ms) = Handle e m (gsrc g) (dnode d)
                        in Some (transmit u (gdst g) (d\<lparr>dnode := n\<rparr>, ms) s)))
      else None)"
| "dstep u (DLose k) s =
     (if k < length (dgrams s) then Some (s\<lparr>dgrams := take k (dgrams s) @ drop (Suc k) (dgrams s)\<rparr>) else None)"
| "dstep u (DClose a) s =
     (case daemons s a of None \<Rightarrow> None | Some d \<Rightarrow> map_option (\<lambda>d. set_daemon a d s) (close_stop d))"
| "dstep u (DCloseStore a) s =
     (case daemons s a of None \<Rightarrow> None | Some d \<Rightarrow> map_option (\<lambda>d. set_daemon a d s) (close_store d))"
| "dstep u (DCloseTx a) s =
     (case daemons s a of None \<Rightarrow> None | Some d \<Rightarrow> map_option (\<lambda>d. set_daemon a d s) (close_tx d))"

definition dnet_init :: "udp \<Rightarrow> dnet \<Rightarrow> bool" where
  "dnet_init u s \<longleftrightarrow> dgrams s = [] \<and> dinjections s = [] \<and> sent s = [] \<and>
     (\<forall>a d. daemons s a = Some d \<longrightarrow> (\<exists>http c f. gossipd_main u http c f = Runs d))"

definition dnet_step :: "udp \<Rightarrow> dnet \<Rightarrow> dnet \<Rightarrow> bool" where
  "dnet_step u s t \<longleftrightarrow> (\<exists>ev. dstep u ev s = Some t)"

section \<open>The life of a daemon\<close>

definition log_open :: "Store \<Rightarrow> bool" where
  "log_open s \<longleftrightarrow> (case logf s of OpenFile rs \<Rightarrow> True | _ \<Rightarrow> False)"

definition life_ok :: "daemon \<Rightarrow> bool" where
  "life_ok d \<longleftrightarrow> wg d = int (gossips d + entropies d) \<and> (stopped (dnode d) \<longleftrightarrow> closing d \<noteq> NotClosing) \<and>
     (closing d \<in> {StoreShut, AllClosed} \<longrightarrow> wg d = 0 \<and> \<not> log_open (store (dnode d))) \<and>
     conn (tx d) = (if closing d = AllClosed then ClosedConn else Conn)"

lemma log_open_write [simp]: "log_open (writeLog ts ev r s) = log_open s"
  by (auto simp: log_open_def writeLog_def Let_def split: logfile.splits)

lemma log_open_Add [simp]: "log_open (fst (Add ts r s)) = log_open s"
proof (cases "map_of (seen s) (rID r)")
  case None
  then show ?thesis using log_open_write [of ts "''deliver''" r "s\<lparr>seen := seen s @ [(rID r, r)], newIDs := newIDs s @ [rID r]\<rparr>"]
    by (simp add: Add_def Let_def) (simp add: log_open_def)
qed (simp add: Add_def)

lemma log_open_push [simp]: "log_open (push_loop clk i rs s) = log_open s"
  by (induction rs arbitrary: i s) simp_all

lemma log_open_fetch [simp]: "log_open (fetch_loop clk i rs s) = log_open s"
  by (induction rs arbitrary: i s) simp_all

lemma log_open_close [simp]: "\<not> log_open (fst (CloseStore s))"
  by (simp add: log_open_def CloseStore_def split: logfile.splits)

text \<open>What the operations of a node leave as it is.\<close>

definition same_node :: "Node \<Rightarrow> Node \<Rightarrow> bool" where
  "same_node n n' \<longleftrightarrow> cfg n' = cfg n \<and> peers n' = peers n \<and> stopped n' = stopped n \<and>
     (\<not> log_open (store n) \<longrightarrow> \<not> log_open (store n'))"

lemma tickOnce_same: "tickOnce e n = Some (n', ms) \<Longrightarrow> cfg n' = cfg n \<and> peers n' = peers n \<and> stopped n' = stopped n"
  by (auto simp: tickOnce_def Let_def case_prod_beta bind_eq_Some_conv split: if_splits)

lemma sendDigest_same: "sendDigest e n = Some (n', ms) \<Longrightarrow> n' = n"
  by (auto simp: sendDigest_def Let_def bind_eq_Some_conv split: if_splits)

lemma Handle_same: "Handle e m remote n = (n', ms) \<Longrightarrow> same_node n n'"
  by (auto simp: Handle_def Let_def same_node_def handleFetchRep_def split: MsgType.splits)

lemma Inject_same: "same_node n (Inject e i b ttl n)"
  by (simp add: Inject_def Let_def same_node_def case_prod_beta)

lemma serve_inject_Inject:
  "serve_inject e qid qbody qttl (k, n) =
     (if qid = [] then (k + 1, Inject e (cID (cfg n) @ ''-'' @ digits (unat (k + 1))) qbody (Atoi qttl) n)
      else (k, Inject e qid qbody (Atoi qttl) n))"
  by (simp add: serve_inject_def Let_def Inject_def)

lemma life_ok_main: "gossipd_main u http c f = Runs d \<Longrightarrow> life_ok d"
  by (auto simp: gossipd_main_def Let_def Listen_def StartNode_def ServeHTTP_def life_ok_def NewNode_def
      split: option.splits if_splits serve_end.splits prod.splits)

lemma life_ok_node: "life_ok d \<Longrightarrow> same_node (dnode d) n \<Longrightarrow> life_ok (d\<lparr>dnode := n\<rparr>)"
  by (auto simp: life_ok_def same_node_def)

lemma life_ok_gossip: "life_ok d \<Longrightarrow> gossipLoop c d = Some (d', ms) \<Longrightarrow> life_ok d'"
  by (cases c) (auto simp: life_ok_def dest: tickOnce_same split: if_splits)

lemma life_ok_entropy: "life_ok d \<Longrightarrow> antiEntropyLoop c d = Some (d', ms) \<Longrightarrow> life_ok d'"
  by (cases c) (auto simp: life_ok_def dest: sendDigest_same split: if_splits)

lemma life_ok_close:
  "life_ok d \<Longrightarrow> close_stop d = Some d' \<Longrightarrow> life_ok d'" "life_ok d \<Longrightarrow> close_store d = Some d' \<Longrightarrow> life_ok d'"
  "life_ok d \<Longrightarrow> close_tx d = Some d' \<Longrightarrow> life_ok d'"
  by (auto simp: life_ok_def close_stop_def close_store_def close_tx_def CloseTx_def split: if_splits)

definition dnet_ok :: "dnet \<Rightarrow> bool" where
  "dnet_ok s \<longleftrightarrow> (\<forall>a d. daemons s a = Some d \<longrightarrow> life_ok d)"

lemma dnet_sel [simp]:
  "daemons (set_daemon a d s) = (daemons s)(a \<mapsto> d)" "dgrams (set_daemon a d s) = dgrams s"
  "dinjections (set_daemon a d s) = dinjections s" "sent (set_daemon a d s) = sent s"
  "daemons (transmit u a (d, ms) s) = (daemons s)(a \<mapsto> d)"
  "dgrams (transmit u a (d, ms) s) = dgrams s @ sends u a ms (tx d)"
  "dinjections (transmit u a (d, ms) s) = dinjections s" "sent (transmit u a (d, ms) s) = sent s @ map snd ms"
  by (simp_all add: set_daemon_def transmit_def)

text \<open>Every step changes at most one daemon, by one of its operations.\<close>

inductive daemon_op :: "daemon \<Rightarrow> daemon \<Rightarrow> bool" where
  Inject_op: "serve_inject e qid qbody qttl (injected d, dnode d) = (c, n) \<Longrightarrow> daemon_op d (d\<lparr>dnode := n, injected := c\<rparr>)"
| Gossip_op: "gossipLoop c d = Some (d', ms) \<Longrightarrow> daemon_op d d'"
| Entropy_op: "antiEntropyLoop c d = Some (d', ms) \<Longrightarrow> daemon_op d d'"
| Handle_op: "Handle e m remote (dnode d) = (n, ms) \<Longrightarrow> daemon_op d (d\<lparr>dnode := n\<rparr>)"
| Stop_op: "close_stop d = Some d' \<Longrightarrow> daemon_op d d'"
| Store_op: "close_store d = Some d' \<Longrightarrow> daemon_op d d'"
| Tx_op: "close_tx d = Some d' \<Longrightarrow> daemon_op d d'"

lemma dstep_op:
  assumes "dstep u ev s = Some t"
  shows "daemons t = daemons s \<or> (\<exists>a d d'. daemons s a = Some d \<and> daemon_op d d' \<and> daemons t = (daemons s)(a \<mapsto> d'))"
  using assms
  by (cases ev)
    (fastforce simp: Let_def split: option.splits if_splits prod.splits turn.splits intro: daemon_op.intros)+

lemma daemon_op_life: "daemon_op d d' \<Longrightarrow> life_ok d \<Longrightarrow> life_ok d'"
proof (induction rule: daemon_op.induct)
  case (Inject_op e qid qbody qttl d c n)
  then have "same_node (dnode d) n" using Inject_same by (auto simp: serve_inject_Inject split: if_splits)
  with Inject_op.prems show ?case by (auto simp: life_ok_def same_node_def)
qed (blast intro: life_ok_gossip life_ok_entropy life_ok_close life_ok_node Handle_same)+

lemma dnet_ok_step: "dnet_step u s t \<Longrightarrow> dnet_ok s \<Longrightarrow> dnet_ok t"
proof -
  assume st: "dnet_step u s t" and ok: "dnet_ok s"
  from st obtain ev where "dstep u ev s = Some t" by (auto simp: dnet_step_def)
  from dstep_op [OF this] show "dnet_ok t"
  proof (elim disjE exE conjE)
    fix a d d'
    assume d: "daemons s a = Some d" "daemon_op d d'" "daemons t = (daemons s)(a \<mapsto> d')"
    have "life_ok d'" using daemon_op_life d(1,2) ok by (simp add: dnet_ok_def)
    then show ?thesis using ok d(3) by (simp add: dnet_ok_def)
  qed (use ok in \<open>simp add: dnet_ok_def\<close>)
qed

interpretation daemons_alive: invariant_system "dnet_init u" "dnet_step u" dnet_ok for u
proof unfold_locales
  show "dnet_ok s" if "dnet_init u s" for s using that life_ok_main unfolding dnet_init_def dnet_ok_def by blast
  show "dnet_ok t" if "dnet_step u s t" "dnet_ok s" for s t using that dnet_ok_step by blast
qed

text \<open>The loops of a daemon that is being closed end when \<^verbatim>\<open>select\<close> chooses the stop.\<close>

lemma end_gossips:
  "daemons s a = Some d \<Longrightarrow> stopped (dnode d) \<Longrightarrow>
     \<exists>t. exec (dstep u) (replicate (gossips d) (DGossip a OnStop)) s = Some t \<and>
       daemons t a = Some (d\<lparr>gossips := 0, wg := wg d - int (gossips d)\<rparr>)"
proof (induction "gossips d" arbitrary: s d)
  case (Suc k)
  let ?d = "d\<lparr>gossips := k, wg := wg d - 1\<rparr>"
  have g: "gossips d = Suc k" using Suc.hyps(2) by simp
  obtain s1 where s1: "dstep u (DGossip a OnStop) s = Some s1" "daemons s1 a = Some ?d"
    using Suc.prems g by simp
  from Suc.hyps(1) [of ?d s1] s1(2) Suc.prems(2) show ?case unfolding g using s1(1) by auto
qed (auto simp: daemon.splits)

lemma end_entropies:
  "daemons s a = Some d \<Longrightarrow> stopped (dnode d) \<Longrightarrow>
     \<exists>t. exec (dstep u) (replicate (entropies d) (DEntropy a OnStop)) s = Some t \<and>
       daemons t a = Some (d\<lparr>entropies := 0, wg := wg d - int (entropies d)\<rparr>)"
proof (induction "entropies d" arbitrary: s d)
  case (Suc k)
  let ?d = "d\<lparr>entropies := k, wg := wg d - 1\<rparr>"
  have g: "entropies d = Suc k" using Suc.hyps(2) by simp
  obtain s1 where s1: "dstep u (DEntropy a OnStop) s = Some s1" "daemons s1 a = Some ?d"
    using Suc.prems g by simp
  from Suc.hyps(1) [of ?d s1] s1(2) Suc.prems(2) show ?case unfolding g using s1(1) by auto
qed (auto simp: daemon.splits)

lemma close_finishes:
  assumes d: "daemons s a = Some d" and ok: "life_ok d" and w: "closing d = Waiting"
  shows "\<exists>evs t d'. exec (dstep u) evs s = Some t \<and> daemons t a = Some d' \<and> closing d' = AllClosed \<and>
    conn (tx d') = ClosedConn \<and> seen (store (dnode d')) = seen (store (dnode d))"
proof -
  have st: "stopped (dnode d)" and wg: "wg d = int (gossips d) + int (entropies d)" and c: "conn (tx d) = Conn"
    using ok w by (simp_all add: life_ok_def)
  obtain s1 where s1: "exec (dstep u) (replicate (gossips d) (DGossip a OnStop)) s = Some s1"
    "daemons s1 a = Some (d\<lparr>gossips := 0, wg := wg d - int (gossips d)\<rparr>)" using end_gossips [OF d st] by blast
  obtain s2 where s2: "exec (dstep u) (replicate (entropies d) (DEntropy a OnStop)) s1 = Some s2"
    "daemons s2 a = Some (d\<lparr>gossips := 0, entropies := 0, wg := 0\<rparr>)" using end_entropies [OF s1(2)] st wg by auto
  let ?evs = "replicate (gossips d) (DGossip a OnStop) @ replicate (entropies d) (DEntropy a OnStop) @ [DCloseStore a, DCloseTx a]"
  obtain t d' where t: "exec (dstep u) [DCloseStore a, DCloseTx a] s2 = Some t" "daemons t a = Some d'"
    "closing d' = AllClosed" "conn (tx d') = ClosedConn" "dnode d' = (dnode d)\<lparr>store := fst (CloseStore (store (dnode d)))\<rparr>"
    using s2(2) w c by (simp add: close_store_def close_tx_def CloseTx_def)
  have "exec (dstep u) ?evs s = Some t" using s1(1) s2(1) t(1) by (simp only: exec_append option.case)
  moreover have "seen (store (dnode d')) = seen (store (dnode d))"
    using t(5) by (simp add: CloseStore_def split: logfile.splits)
  ultimately show ?thesis using t by blast
qed

section \<open>Refinement of the network\<close>

text \<open>
  The abstract node of a daemon has resolved addresses of peers and is stopped once its store is
  closed, after its loops have ended.
\<close>

definition canon :: "udp \<Rightarrow> string \<Rightarrow> string" where
  "canon u x = (case resolve u x of None \<Rightarrow> x | Some y \<Rightarrow> y)"

definition canon_node :: "udp \<Rightarrow> bool \<Rightarrow> Node \<Rightarrow> Node" where
  "canon_node u b n = n\<lparr>cfg := (cfg n)\<lparr>cSeeds := map (canon u) (cSeeds (cfg n))\<rparr>, peers := map (canon u) (peers n), stopped := b\<rparr>"

definition canon_out :: "udp \<Rightarrow> out \<Rightarrow> out" where
  "canon_out u = map (\<lambda>(a, m). (canon u a, m))"

definition abs_daemon :: "udp \<Rightarrow> daemon \<Rightarrow> Node" where
  "abs_daemon u d = canon_node u (closing d \<in> {StoreShut, AllClosed}) (dnode d)"

lemma canon_node_sel [simp]:
  "store (canon_node u b n) = store n" "cID (cfg (canon_node u b n)) = cID (cfg n)" "cTTL (cfg (canon_node u b n)) = cTTL (cfg n)"
  "cFanout (cfg (canon_node u b n)) = cFanout (cfg n)" "peers (canon_node u b n) = map (canon u) (peers n)"
  "stopped (canon_node u b n) = b" "(canon_node u b n)\<lparr>store := st\<rparr> = canon_node u b (n\<lparr>store := st\<rparr>)"
  by (simp_all add: canon_node_def)

lemma canon_node_stop [simp]: "(canon_node u b n)\<lparr>stopped := c\<rparr> = canon_node u c n"
  by (simp add: canon_node_def)

lemma permute_map: "permute p (map f xs) = map f (permute p xs)"
proof (cases "mset p = mset [0..<length xs]")
  case True
  then have "set p = {0..<length xs}" by (metis set_mset_mset set_upt)
  then show ?thesis using True by (auto simp: permute_def)
qed (simp add: permute_def)

lemma pickPeers_canon: "pickPeers p k (canon_node u b n) = map_option (map (canon u)) (pickPeers p k n)"
  by (simp add: pickPeers_def go_len_def permute_map take_map)

lemma tickOnce_canon:
  "tickOnce e (canon_node u b n) = map_option (\<lambda>(n, ms). (canon_node u b n, canon_out u ms)) (tickOnce e n)"
proof -
  have l: "log_sends clk i r (map f ps) s = log_sends clk i r ps s" for clk i r s and f :: "string \<Rightarrow> string" and ps
    by (induction ps arbitrary: i s) simp_all
  show ?thesis
    by (cases "pickPeers (perm e) (cFanout (cfg n)) (n\<lparr>store := snd (ReadyToPush (store n))\<rparr>)")
      (simp_all add: tickOnce_def case_prod_beta Let_def pickPeers_canon canon_out_def l)
qed

lemma sendDigest_canon:
  "sendDigest e (canon_node u b n) = map_option (\<lambda>(n, ms). (canon_node u b n, canon_out u ms)) (sendDigest e n)"
  by (cases "pickPeers (perm e) 1 n")
    (auto simp: sendDigest_def Let_def pickPeers_canon canon_out_def go_len_def go_index_def in_range_def)

lemma Handle_canon: "Handle e m remote (canon_node u b n) = (let (n, ms) = Handle e m remote n in (canon_node u b n, ms))"
  by (simp add: Handle_def Let_def handleDigest_def handleMissing_def handleFetchRep_def split: MsgType.split)

lemma Handle_dest: "Handle e m remote n = (n', ms) \<Longrightarrow> (a, m') \<in> set ms \<Longrightarrow> a = remote"
  by (auto simp: Handle_def Let_def handleDigest_def handleMissing_def split: MsgType.splits if_splits)

lemma Inject_canon: "Inject e i b ttl (canon_node u c n) = canon_node u c (Inject e i b ttl n)"
  by (simp add: Inject_def Let_def case_prod_beta)

text \<open>
  What is relied on of \<^verbatim>\<open>encoding/json\<close>: what arrives of an encoded message, cut to the buffer, is
  either no message or the message itself.
\<close>

definition faithful :: "udp \<Rightarrow> Msg \<Rightarrow> bool" where
  "faithful u m \<longleftrightarrow> (case unmarshal u (read_buf (marshal u m)) of None \<Rightarrow> True | Some m' \<Rightarrow> m' = m)"

definition carries :: "udp \<Rightarrow> datagram \<Rightarrow> packet \<Rightarrow> bool" where
  "carries u g p \<longleftrightarrow> psrc p = gsrc g \<and> pdst p = gdst g \<and>
     (\<forall>m. unmarshal u (read_buf (bytes g)) = Some m \<longrightarrow> m = pmsg p)"

text \<open>Losing a datagram leaves the packet on the abstract wire, where it is never delivered.\<close>

definition sim :: "udp \<Rightarrow> dnet \<Rightarrow> gnet \<Rightarrow> bool" where
  "sim u s t \<longleftrightarrow> nodes t = (\<lambda>a. map_option (abs_daemon u) (daemons s a)) \<and> injections t = dinjections s \<and>
     (\<forall>g \<in> set (dgrams s). gsrc g \<in> dom (daemons s) \<and> (\<exists>p \<in> set (wire t). carries u g p))"

lemma sends_carried:
  assumes "g \<in> set (sends u a ms x)" and "\<forall>m \<in> snd ` set ms. faithful u m"
  shows "gsrc g = a \<and> (\<exists>(d, m) \<in> set (canon_out u ms). carries u g \<lparr>psrc = a, pdst = d, pmsg = m\<rparr>)"
proof -
  obtain addr m where am: "(addr, m) \<in> set ms" "Send u a addr m x = Inr g"
    using assms(1) by (fastforce simp: sends_def List.map_filter_def split: sum.splits)
  then have g: "g = \<lparr>gsrc = a, gdst = canon u addr, bytes = marshal u m\<rparr>"
    by (auto simp: Send_def canon_def Let_def split: option.splits if_splits)
  have "faithful u m" using assms(2) am(1) by force
  then have "carries u g \<lparr>psrc = a, pdst = canon u addr, pmsg = m\<rparr>"
    by (auto simp: carries_def g faithful_def split: option.splits)
  moreover have "(canon u addr, m) \<in> set (canon_out u ms)" using am(1) by (force simp: canon_out_def)
  ultimately show ?thesis using g by auto
qed

lemma sim_transmit:
  assumes sim: "sim u s t" and a: "daemons s a = Some d" and f: "\<forall>m \<in> snd ` set ms. faithful u m"
    and sub: "daemons s1 = daemons s" "dinjections s1 = dinjections s" "set (dgrams s1) \<subseteq> set (dgrams s)"
  shows "sim u (transmit u a (d', ms) s1) (post a (canon_out u ms) (set_node a (abs_daemon u d') t))" (is "sim u ?s ?t")
proof -
  have "gsrc g \<in> dom (daemons ?s) \<and> (\<exists>p \<in> set (wire ?t). carries u g p)" if g: "g \<in> set (dgrams ?s)" for g
  proof (cases "g \<in> set (dgrams s)")
    case True
    then show ?thesis using sim sub by (auto simp: sim_def)
  next
    case False
    with g sub have "g \<in> set (sends u a ms (tx d'))" by auto
    from sends_carried [OF this f] show ?thesis by force
  qed
  then show ?thesis using sim sub by (auto simp: sim_def)
qed

text \<open>What only the abstraction forgets: the end of a loop, and the first and last step of closing.\<close>

lemma sim_quiet:
  "sim u s t \<Longrightarrow> daemons s a = Some d \<Longrightarrow> abs_daemon u d' = abs_daemon u d \<Longrightarrow> sim u (set_daemon a d' s) t"
  by (auto simp: sim_def)

lemma sim_lose: "sim u s t \<Longrightarrow> set g \<subseteq> set (dgrams s) \<Longrightarrow> sim u (s\<lparr>dgrams := g\<rparr>) t"
  by (auto simp: sim_def)

lemma transmit_nothing: "transmit u a (d, []) s = set_daemon a d s"
  by (simp add: transmit_def sends_def List.map_filter_def)

lemma running_not_shut: "life_ok d \<Longrightarrow> 0 < gossips d \<or> 0 < entropies d \<Longrightarrow> closing d \<notin> {StoreShut, AllClosed}"
  by (auto simp: life_ok_def)

lemma sim_tick:
  assumes sim: "sim u s t" and d: "daemons s a = Some d" "life_ok d" and r: "gossipLoop c d = Some (d', ms)"
    and f: "\<forall>m \<in> snd ` set ms. faithful u m"
  shows "\<exists>t'. (t' = t \<or> gossip_step t t') \<and> sim u (transmit u a (d', ms) s) t'"
proof (cases c)
  case OnStop
  then show ?thesis using r sim_quiet [OF sim d(1)] by (auto simp: transmit_nothing abs_daemon_def split: if_splits)
next
  case (OnTick e)
  then obtain n where n: "tickOnce e (dnode d) = Some (n, ms)" "d' = d\<lparr>dnode := n\<rparr>" "0 < gossips d"
    using r by (auto split: if_splits)
  have x: "closing d \<notin> {StoreShut, AllClosed}" using running_not_shut d(2) n(3) by blast
  have "nodes t a = Some (abs_daemon u d)" using sim d(1) by (simp add: sim_def)
  then have "gstep (GTick a e) t = Some (post a (canon_out u ms) (set_node a (abs_daemon u d') t))"
    using x n(1,2) by (simp add: abs_daemon_def tickOnce_canon)
  then show ?thesis using sim_transmit [OF sim d(1) f, of s d'] gossip_step_def by blast
qed

lemma sim_digest:
  assumes sim: "sim u s t" and d: "daemons s a = Some d" "life_ok d" and r: "antiEntropyLoop c d = Some (d', ms)"
    and f: "\<forall>m \<in> snd ` set ms. faithful u m"
  shows "\<exists>t'. (t' = t \<or> gossip_step t t') \<and> sim u (transmit u a (d', ms) s) t'"
proof (cases c)
  case OnStop
  then show ?thesis using r sim_quiet [OF sim d(1)] by (auto simp: transmit_nothing abs_daemon_def split: if_splits)
next
  case (OnTick e)
  then obtain n where n: "sendDigest e (dnode d) = Some (n, ms)" "d' = d\<lparr>dnode := n\<rparr>" "0 < entropies d"
    using r by (auto split: if_splits)
  have x: "closing d \<notin> {StoreShut, AllClosed}" using running_not_shut d(2) n(3) by blast
  have "nodes t a = Some (abs_daemon u d)" using sim d(1) by (simp add: sim_def)
  then have "gstep (GDigest a e) t = Some (post a (canon_out u ms) (set_node a (abs_daemon u d') t))"
    using x n(1,2) by (simp add: abs_daemon_def sendDigest_canon)
  then show ?thesis using sim_transmit [OF sim d(1) f, of s d'] gossip_step_def by blast
qed

lemma sim_receive:
  assumes sim: "sim u s t" and g: "g \<in> set (dgrams s)" and d: "daemons s (gdst g) = Some d"
    and m: "reader_turn u g (tx d) = Handles m" and h: "Handle e m (gsrc g) (dnode d) = (n, ms)"
    and f: "\<forall>m \<in> snd ` set ms. faithful u m" and addr: "\<forall>a \<in> dom (daemons s). canon u a = a"
    and sub: "daemons s1 = daemons s" "dinjections s1 = dinjections s" "set (dgrams s1) \<subseteq> set (dgrams s)"
  shows "\<exists>t'. gossip_step t t' \<and> sim u (transmit u (gdst g) (d\<lparr>dnode := n\<rparr>, ms) s1) t'"
proof -
  from sim g obtain p where p: "p \<in> set (wire t)" "carries u g p" and src: "gsrc g \<in> dom (daemons s)"
    by (auto simp: sim_def)
  from p(1) obtain k where k: "k < length (wire t)" "wire t ! k = p" by (auto simp: in_set_conv_nth)
  have "pmsg p = m" using p(2) m by (auto simp: reader_turn_def carries_def split: if_splits option.splits)
  then have p': "p = \<lparr>psrc = gsrc g, pdst = gdst g, pmsg = m\<rparr>" using p(2) by (simp add: carries_def)
  have "canon_out u ms = ms" using Handle_dest [OF h] addr src by (force simp: canon_out_def intro: map_idI)
  moreover have "nodes t (gdst g) = Some (abs_daemon u d)" using sim d by (simp add: sim_def)
  ultimately have "gstep (GDeliver k e True) t =
      Some (post (gdst g) (canon_out u ms) (set_node (gdst g) (abs_daemon u (d\<lparr>dnode := n\<rparr>)) t))"
    using k h by (simp add: p' abs_daemon_def Handle_canon)
  then show ?thesis using sim_transmit [OF sim d f sub] gossip_step_def by blast
qed

lemma sim_inject:
  assumes sim: "sim u s t" and d: "daemons s a = Some d" and st: "dstep u (DInject a e qid qbody qttl) s = Some s'"
  shows "\<exists>t'. gossip_step t t' \<and> sim u s' t'"
proof -
  let ?c = "if qid = [] then injected d + 1 else injected d"
  let ?i = "if qid = [] then cID (cfg (dnode d)) @ ''-'' @ digits (unat ?c) else qid"
  let ?r = "created e ?i qbody (Atoi qttl) (dnode d)" and ?n = "Inject e ?i qbody (Atoi qttl) (dnode d)"
  have s': "s' = set_daemon a (d\<lparr>dnode := ?n, injected := ?c\<rparr>) (s\<lparr>dinjections := (a, ?r) # dinjections s\<rparr>)"
    using st d by (auto simp: serve_inject_Inject Let_def split: if_splits)
  have "nodes t a = Some (abs_daemon u d)" using sim d by (simp add: sim_def)
  moreover have "created e i b x (canon_node u c n) = created e i b x n" for i b x c n by (simp add: created_def)
  ultimately have "gstep (GInject a e ?i qbody (Atoi qttl)) t =
      Some (set_node a (abs_daemon u (d\<lparr>dnode := ?n\<rparr>)) (t\<lparr>injections := (a, ?r) # injections t\<rparr>))"
    by (simp add: abs_daemon_def Inject_canon)
  moreover have "sim u s' (set_node a (abs_daemon u (d\<lparr>dnode := ?n\<rparr>)) (t\<lparr>injections := (a, ?r) # injections t\<rparr>))"
    using sim unfolding s' by (auto simp: sim_def abs_daemon_def)
  ultimately show ?thesis using gossip_step_def by blast
qed

lemma sim_close_store:
  assumes sim: "sim u s t" and d: "daemons s a = Some d" "close_store d = Some d'"
  shows "\<exists>t'. gossip_step t t' \<and> sim u (set_daemon a d' s) t'"
proof -
  have "nodes t a = Some (abs_daemon u d)" using sim d by (simp add: sim_def)
  then have "gstep (GClose a) t = Some (set_node a (abs_daemon u d') t)"
    using d(2) by (auto simp: close_store_def CloseNode_def abs_daemon_def split: if_splits)
  moreover have "sim u (set_daemon a d' s) (set_node a (abs_daemon u d') t)" using sim by (auto simp: sim_def)
  ultimately show ?thesis using gossip_step_def by blast
qed

lemma cut_subset: "set (take k xs @ drop (Suc k) xs) \<subseteq> set xs"
  by (auto dest: in_set_takeD in_set_dropD)

lemma sim_receive_step:
  assumes sim: "sim u s t" and st: "dstep u (DReceive k e keep) s = Some s'"
    and f: "\<forall>m \<in> set (sent s'). faithful u m" and addr: "\<forall>a \<in> dom (daemons s). canon u a = a"
  shows "\<exists>t'. (t' = t \<or> gossip_step t t') \<and> sim u s' t'"
proof -
  let ?g = "dgrams s ! k" and ?s = "if keep then s else s\<lparr>dgrams := take k (dgrams s) @ drop (Suc k) (dgrams s)\<rparr>"
  have k: "k < length (dgrams s)" using st by (auto split: if_splits)
  then have g: "?g \<in> set (dgrams s)" by simp
  have sub: "daemons ?s = daemons s" "dinjections ?s = dinjections s" "set (dgrams ?s) \<subseteq> set (dgrams s)"
    using cut_subset [of k "dgrams s"] by simp_all
  obtain d where d: "daemons s (gdst ?g) = Some d" using st k
    by (cases keep; cases "daemons s (gdst ?g)") (simp_all add: Let_def)
  have s': "(case reader_turn u ?g (tx d) of ReaderEnds \<Rightarrow> None | Skips \<Rightarrow> Some ?s
      | Handles m \<Rightarrow> let (n, ms) = Handle e m (gsrc ?g) (dnode d) in Some (transmit u (gdst ?g) (d\<lparr>dnode := n\<rparr>, ms) ?s)) = Some s'"
    using st k d by (cases keep) (simp_all add: Let_def)
  show ?thesis
  proof (cases "reader_turn u ?g (tx d)")
    case ReaderEnds
    then show ?thesis using s' by simp
  next
    case Skips
    then show ?thesis using s' sim sim_lose [OF sim cut_subset] by (cases keep) auto
  next
    case (Handles m)
    obtain n ms where h: "Handle e m (gsrc ?g) (dnode d) = (n, ms)" by (cases "Handle e m (gsrc ?g) (dnode d)")
    have t: "s' = transmit u (gdst ?g) (d\<lparr>dnode := n\<rparr>, ms) ?s" using s' Handles h by simp
    have "\<forall>m \<in> snd ` set ms. faithful u m" using f unfolding t by simp
    from sim_receive [OF sim g d Handles h this addr sub] show ?thesis unfolding t by blast
  qed
qed

lemma sim_step:
  assumes sim: "sim u s t" and st: "dstep u ev s = Some s'" and ok: "dnet_ok s"
    and f: "\<forall>m \<in> set (sent s'). faithful u m" and addr: "\<forall>a \<in> dom (daemons s). canon u a = a"
  shows "\<exists>t'. (t' = t \<or> gossip_step t t') \<and> sim u s' t'"
proof (cases ev)
  case (DInject a e qid qbody qttl)
  then obtain d where d: "daemons s a = Some d" using st by (auto split: option.splits)
  from sim_inject [OF sim d st [unfolded DInject]] show ?thesis by blast
next
  case (DGossip a c)
  then obtain d d' ms where d: "daemons s a = Some d" "gossipLoop c d = Some (d', ms)" "s' = transmit u a (d', ms) s"
    using st by (auto split: option.splits)
  then show ?thesis using sim_tick [OF sim d(1) _ d(2)] ok f by (auto simp: dnet_ok_def)
next
  case (DEntropy a c)
  then obtain d d' ms where d: "daemons s a = Some d" "antiEntropyLoop c d = Some (d', ms)" "s' = transmit u a (d', ms) s"
    using st by (auto split: option.splits)
  then show ?thesis using sim_digest [OF sim d(1) _ d(2)] ok f by (auto simp: dnet_ok_def)
next
  case (DReceive k e keep)
  then show ?thesis using sim_receive_step [OF sim _ f addr] st by blast
next
  case (DLose k)
  then show ?thesis using st sim_lose [OF sim cut_subset] by (auto split: if_splits)
next
  case (DClose a)
  then obtain d d' where d: "daemons s a = Some d" "close_stop d = Some d'" "s' = set_daemon a d' s"
    using st by (auto split: option.splits)
  have "life_ok d" using ok d(1) by (simp add: dnet_ok_def)
  then have "abs_daemon u d' = abs_daemon u d"
    using d(2) by (auto simp: close_stop_def abs_daemon_def canon_node_def life_ok_def split: if_splits)
  then show ?thesis using sim_quiet [OF sim d(1)] d(3) by blast
next
  case (DCloseStore a)
  then obtain d d' where d: "daemons s a = Some d" "close_store d = Some d'" "s' = set_daemon a d' s"
    using st by (auto split: option.splits)
  then show ?thesis using sim_close_store [OF sim d(1,2)] by blast
next
  case (DCloseTx a)
  then obtain d d' where d: "daemons s a = Some d" "close_tx d = Some d'" "s' = set_daemon a d' s"
    using st by (auto split: option.splits)
  then have "abs_daemon u d' = abs_daemon u d" by (auto simp: close_tx_def abs_daemon_def split: if_splits)
  then show ?thesis using sim_quiet [OF sim d(1)] d(3) by blast
qed

lemma sim_init:
  assumes "dnet_init u s"
  shows "\<exists>t. gossip_init t \<and> sim u s t"
proof -
  let ?t = "\<lparr>nodes = \<lambda>a. map_option (abs_daemon u) (daemons s a), wire = [], injections = []\<rparr>"
  have "\<exists>b c. abs_daemon u d = NewNode b c" if "gossipd_main u http x f = Runs d" for http x f d
  proof -
    have "dnode d = NewNode x (config_of f)" "closing d = NotClosing"
      using that by (auto simp: gossipd_main_def Let_def StartNode_def ServeHTTP_def
          split: option.splits if_splits serve_end.splits prod.splits)
    then have "abs_daemon u d = NewNode x ((config_of f)\<lparr>cSeeds := map (canon u) (cSeeds (config_of f))\<rparr>)"
      by (simp add: abs_daemon_def canon_node_def NewNode_def)
    then show ?thesis by blast
  qed
  then have "gossip_init ?t" using assms by (auto simp: gossip_init_def dnet_init_def) blast
  moreover have "sim u s ?t" using assms by (simp add: sim_def dnet_init_def)
  ultimately show ?thesis by blast
qed

lemma dstep_monotone: "dstep u ev s = Some t \<Longrightarrow> set (sent s) \<subseteq> set (sent t) \<and> dom (daemons t) = dom (daemons s)"
  by (cases ev)
    (fastforce simp: Let_def transmit_def case_prod_beta split: option.splits if_splits turn.splits)+

lemma daemons_simulated:
  "reachable (dnet_init u) (dnet_step u) s \<Longrightarrow> \<forall>m \<in> set (sent s). faithful u m \<Longrightarrow>
     \<forall>a \<in> dom (daemons s). canon u a = a \<Longrightarrow> \<exists>t. reachable gossip_init gossip_step t \<and> sim u s t"
proof (induction rule: reachable.induct)
  case (reach_init s)
  then show ?case using sim_init reachable.reach_init by metis
next
  case (reach_step s s')
  obtain ev where ev: "dstep u ev s = Some s'" using reach_step.hyps(2) by (auto simp: dnet_step_def)
  note mono = dstep_monotone [OF ev]
  obtain t where t: "reachable gossip_init gossip_step t" "sim u s t" using reach_step mono by blast
  have "dnet_ok s" using daemons_alive.reachable_inv reach_step.hyps(1) .
  from sim_step [OF t(2) ev this] obtain t' where "t' = t \<or> gossip_step t t'" "sim u s' t'"
    using reach_step.prems mono by blast
  then show ?case using t(1) reachable.reach_step by metis
qed

section \<open>Properties of daemons\<close>

text \<open>C26: Daemons that exchange datagrams behave as the network of nodes. Whatever datagrams are lost,
  repeated, cut to the buffer or not written, whenever loops tick, requests come in and daemons
  close, there is a run of the network that has for every daemon its node with resolved addresses
  and the same injections. It relies on \<^verbatim>\<open>encoding/json\<close> for the messages that were sent, and on
  the resolution of the addresses that packets come from.\<close>

theorem daemons_refine_network:
  assumes "reachable (dnet_init u) (dnet_step u) s" and "\<forall>m \<in> set (sent s). faithful u m"
    and "\<forall>a \<in> dom (daemons s). canon u a = a"
  shows "\<exists>t. reachable gossip_init gossip_step t \<and> nodes t = (\<lambda>a. map_option (abs_daemon u) (daemons s a)) \<and>
    injections t = dinjections s"
  using daemons_simulated [OF assms] by (auto simp: sim_def)

text \<open>Two daemons that know each other; what is sent is encoded by one letter.\<close>

definition letter_udp :: udp where
  "letter_udp = \<lparr>resolve = (\<lambda>x. if x = ''peer'' then Some ''b'' else Some x), listens = (\<lambda>a. True), writes = (\<lambda>b a. True),
     marshal = (\<lambda>m. if mType m = MsgPush then ''p'' else ''d''),
     unmarshal = (\<lambda>b. if b = ''p''
       then Some \<lparr>mType = MsgPush, mFrom = ''a'',
         mRumors = [\<lparr>rID = ''a-1'', rTTL = 2, rBody = ''hi'', rOrigin = ''a'', rInjectTS = 0\<rparr>], mIDs = []\<rparr>
       else None)\<rparr>"

definition demo_flags :: "string \<Rightarrow> string \<Rightarrow> flags" where
  "demo_flags i seed = default_flags\<lparr>fid := i, fbind := i, fseeds := seed, fttl := 2\<rparr>"

definition daemon_of :: "string \<Rightarrow> string \<Rightarrow> daemon" where
  "daemon_of i seed =
     (case gossipd_main letter_udp (\<lambda>a. True) True (demo_flags i seed) of Runs d \<Rightarrow> d)"

definition two_daemons :: dnet where
  "two_daemons = \<lparr>daemons = [''a'' \<mapsto> daemon_of ''a'' ''peer'', ''b'' \<mapsto> daemon_of ''b'' []], dgrams = [], dinjections = [], sent = []\<rparr>"

definition zero_env :: genv where
  "zero_env = \<lparr>clock = (\<lambda>i. 0), perm = [], order = []\<rparr>"

definition told_daemons :: dnet where
  "told_daemons = the (exec (dstep letter_udp)
     [DInject ''a'' zero_env [] ''hi'' [], DGossip ''a'' (OnTick zero_env), DReceive 0 zero_env False, DClose ''b'',
      DGossip ''b'' OnStop, DEntropy ''b'' OnStop, DCloseStore ''b''] two_daemons)"

lemma two_daemons_init: "dnet_init letter_udp two_daemons"
proof -
  have "Listen letter_udp i NewUDPTransport = (\<lparr>conn = Conn\<rparr>, None)" for i
    by (simp add: Listen_def letter_udp_def NewUDPTransport_def)
  then have "gossipd_main letter_udp (\<lambda>a. True) True (demo_flags i x) = Runs (daemon_of i x)" for i x
    by (simp add: daemon_of_def gossipd_main_def StartNode_def ServeHTTP_def NewNode_def config_of_def demo_flags_def default_flags_def)
  then have "\<exists>http c f. gossipd_main letter_udp http c f = Runs (daemon_of i x)" for i x by blast
  then show ?thesis by (auto simp: dnet_init_def two_daemons_def split: if_splits)
qed

lemma told_daemons_reach: "reachable (dnet_init letter_udp) (dnet_step letter_udp) told_daemons"
proof -
  have "\<not> Option.is_none (exec (dstep letter_udp)
     [DInject ''a'' zero_env [] ''hi'' [], DGossip ''a'' (OnTick zero_env), DReceive 0 zero_env False, DClose ''b'',
      DGossip ''b'' OnStop, DEntropy ''b'' OnStop, DCloseStore ''b''] two_daemons)" by code_simp
  then have "exec (dstep letter_udp)
     [DInject ''a'' zero_env [] ''hi'' [], DGossip ''a'' (OnTick zero_env), DReceive 0 zero_env False, DClose ''b'',
      DGossip ''b'' OnStop, DEntropy ''b'' OnStop, DCloseStore ''b''] two_daemons = Some told_daemons"
    by (auto simp: told_daemons_def Option.is_none_def)
  then show ?thesis
    using two_daemons_init by (rule exec_reachable [OF _ reach_init]) (auto simp: dnet_step_def)
qed

theorem daemons_refine_network_witness:
  "\<exists>t. reachable gossip_init gossip_step t \<and> map fst (injections t) = [''a''] \<and>
    map_option (\<lambda>n. map fst (seen (store n))) (nodes t ''b'') = Some [''a-1'']"
proof -
  have e: "list_all (faithful letter_udp) (sent told_daemons)" "Option.is_none (daemons told_daemons ''peer'')"
    "map fst (dinjections told_daemons) = [''a'']"
    "map_option (\<lambda>d. map fst (seen (store (dnode d)))) (daemons told_daemons ''b'') = Some [''a-1'']"
    by code_simp+
  then have "\<forall>m \<in> set (sent told_daemons). faithful letter_udp m" "daemons told_daemons ''peer'' = None"
    by (simp_all add: list_all_iff Option.is_none_def split: option.splits)
  moreover have "\<forall>a \<in> dom (daemons told_daemons). canon letter_udp a = a"
    using calculation(2) by (auto simp: canon_def letter_udp_def)
  ultimately obtain t where "reachable gossip_init gossip_step t" "injections t = dinjections told_daemons"
    "nodes t = (\<lambda>a. map_option (abs_daemon letter_udp) (daemons told_daemons a))"
    using daemons_refine_network [OF told_daemons_reach] by blast
  then show ?thesis using e(3,4) by (auto simp: option.map_comp comp_def abs_daemon_def)
qed

text \<open>C32: Closing a daemon is orderly and can always finish. In every run of daemons, once the store
  of a daemon is closed both its loops have ended and its log is closed, its socket is open until the
  last step, and a daemon told to close has a continuation in which its loops end, its socket
  is closed and it has lost no rumor.\<close>

theorem daemon_closes:
  assumes reach: "reachable (dnet_init u) (dnet_step u) s" and d: "daemons s a = Some d"
  shows "(closing d \<in> {StoreShut, AllClosed} \<longrightarrow> gossips d = 0 \<and> entropies d = 0 \<and> \<not> log_open (store (dnode d))) \<and>
    (conn (tx d) = Conn \<longleftrightarrow> closing d \<noteq> AllClosed) \<and>
    (closing d \<noteq> NotClosing \<longrightarrow> (\<exists>evs t d'. exec (dstep u) evs s = Some t \<and> daemons t a = Some d' \<and> closing d' = AllClosed \<and>
       conn (tx d') = ClosedConn \<and> seen (store (dnode d')) = seen (store (dnode d))))"
proof -
  have ok: "life_ok d" using daemons_alive.reachable_inv [OF reach] d by (simp add: dnet_ok_def)
  have "\<exists>evs t d'. exec (dstep u) evs s = Some t \<and> daemons t a = Some d' \<and> closing d' = AllClosed \<and>
       conn (tx d') = ClosedConn \<and> seen (store (dnode d')) = seen (store (dnode d))" if "closing d \<noteq> NotClosing"
  proof (cases "closing d")
    case Waiting
    then show ?thesis using close_finishes [OF d ok] by blast
  next
    case StoreShut
    then have "exec (dstep u) [DCloseTx a] s = Some (set_daemon a (d\<lparr>tx := (tx d)\<lparr>conn := ClosedConn\<rparr>, closing := AllClosed\<rparr>) s)"
      using d ok by (simp add: close_tx_def life_ok_def CloseTx_def)
    moreover have "daemons (set_daemon a d' s) a = Some d'" for d' by simp
    ultimately show ?thesis by fastforce
  next
    case AllClosed
    then have "exec (dstep u) [] s = Some s" "conn (tx d) = ClosedConn" using ok by (simp_all add: life_ok_def)
    then show ?thesis using d AllClosed by blast
  qed (use that in simp)
  then show ?thesis using ok by (auto simp: life_ok_def)
qed

theorem daemon_closes_witness:
  "\<exists>evs t d'. exec (dstep letter_udp) evs told_daemons = Some t \<and> daemons t ''b'' = Some d' \<and> closing d' = AllClosed"
proof -
  have "map_option closing (daemons told_daemons ''b'') = Some StoreShut" by code_simp
  then obtain d where d: "daemons told_daemons ''b'' = Some d" "closing d = StoreShut" by auto
  then show ?thesis using daemon_closes [OF told_daemons_reach d(1)] by auto
qed

text \<open>An empty address for the metrics ends the program as soon as it has started.\<close>

lemma no_metrics_no_daemon: "fmetrics f = [] \<Longrightarrow> gossipd_main u http c f \<noteq> Runs d"
  by (auto simp: gossipd_main_def Let_def ServeHTTP_def StartNode_def NewNode_def config_of_def
      split: option.splits if_splits serve_end.splits prod.splits)

end
