(* ===== verification/MR_Files.thy ===== *)
theory MR_Files
  imports Strconv "HOL-Library.Word" "HOL-Library.Char_ord" "HOL-Library.List_Lexorder"
begin

unbundle bit_operations_syntax

text \<open>
  The base of the MapReduce library (\<^verbatim>\<open>src/mapreduce/common.go\<close>, \<^verbatim>\<open>ihash\<close> of
  \<^verbatim>\<open>common_map.go\<close>): key/value pairs, the names of intermediate files, the hash and the file
  system. A string is a list of code points below 256; its bytes are those of UTF-8.
\<close>

section \<open>Pairs and phases\<close>

record KeyValue =
  Key :: string
  Value :: string

datatype jobPhase = mapPhase | reducePhase

section \<open>Names\<close>

definition reduceName :: "string \<Rightarrow> int \<Rightarrow> int \<Rightarrow> string" where
  "reduceName jobName mapTask reduceTask =
     ''mrtmp.'' @ jobName @ ''-'' @ Itoa mapTask @ ''-'' @ Itoa reduceTask"

definition mergeName :: "string \<Rightarrow> int \<Rightarrow> string" where
  "mergeName jobName reduceTask = ''mrtmp.'' @ jobName @ ''-res-'' @ Itoa reduceTask"

definition outName :: "string \<Rightarrow> string" where
  "outName jobName = ''mrtmp.'' @ jobName"

section \<open>The hash\<close>

definition utf8 :: "string \<Rightarrow> 8 word list" where
  "utf8 s = concat (map (\<lambda>c. let n = of_char c :: nat in
     if n < 128 then [of_nat n] else [of_nat (192 + n div 64), of_nat (128 + n mod 64)]) s)"

text \<open>FNV-1a with 32 bits, as \<^verbatim>\<open>hash/fnv\<close> computes it.\<close>

definition ihash :: "string \<Rightarrow> 32 word" where
  "ihash s = fold (\<lambda>b h. (h XOR ucast b) * 16777619) (utf8 s) 2166136261"

text \<open>The reduce task of a key; a number of tasks of 0 panics.\<close>

definition partition_of :: "int \<Rightarrow> string \<Rightarrow> int" where
  "partition_of nReduce k = uint (ihash k) mod nReduce"

section \<open>The file system\<close>

text \<open>
  A file holds text or a stream of JSON records, represented by the records. Where a program
  reads the one as the other, the outcome is that of \<^verbatim>\<open>encoding/json\<close>, which is an argument.
  Creating a file may fail; what is written to it is then lost.
\<close>

datatype content = Text string | Json "KeyValue list"

record codec =
  json_text :: "KeyValue list \<Rightarrow> string"
  json_records :: "string \<Rightarrow> KeyValue list"

record fsys =
  disk :: "string \<rightharpoonup> content"
  creatable :: "string \<Rightarrow> bool"

definition create :: "string \<Rightarrow> content \<Rightarrow> fsys \<Rightarrow> fsys" where
  "create n c d = (if creatable d n then d\<lparr>disk := (disk d)(n \<mapsto> c)\<rparr> else d)"

text \<open>The text \<^verbatim>\<open>ioutil.ReadFile\<close> returns, empty on an error.\<close>

definition read_text :: "codec \<Rightarrow> fsys \<Rightarrow> string \<Rightarrow> string" where
  "read_text j d n = (case disk d n of None \<Rightarrow> [] | Some (Text s) \<Rightarrow> s | Some (Json kvs) \<Rightarrow> json_text j kvs)"

text \<open>The records a decoder returns before its first error.\<close>

definition read_records :: "codec \<Rightarrow> fsys \<Rightarrow> string \<Rightarrow> KeyValue list" where
  "read_records j d n = (case disk d n of None \<Rightarrow> [] | Some (Json kvs) \<Rightarrow> kvs | Some (Text s) \<Rightarrow> json_records j s)"

lemma create_sel [simp]:
  "creatable (create n c d) = creatable d"
  "disk (create n c d) m = (if m = n \<and> creatable d n then Some c else disk d m)"
  by (simp_all add: create_def)

section \<open>Names are distinct\<close>

lemma digit_not_minus: "c \<in> set (digits n) \<Longrightarrow> c \<noteq> CHR ''-''"
  using digits_chars [of c n] digit_not_sign(1) by metis

lemma Itoa_nat: "0 \<le> i \<Longrightarrow> Itoa i = digits (nat i)"
  by (simp add: Itoa_def)

lemma split_last:
  assumes "x @ a # y = x' @ a # y'" and "a \<notin> set y" and "a \<notin> set y'"
  shows "x = x'" "y = y'"
proof -
  have t: "takeWhile (\<lambda>c. c \<noteq> a) (rev z @ a # w) = rev z" if "a \<notin> set z" for z w
  proof -
    have "takeWhile (\<lambda>c. c \<noteq> a) (rev z @ a # w) = rev z @ takeWhile (\<lambda>c. c \<noteq> a) (a # w)"
      by (rule takeWhile_append2) (use that in auto)
    then show ?thesis by simp
  qed
  have "rev y @ a # rev x = rev y' @ a # rev x'" using arg_cong [OF assms(1), of rev] by simp
  then have "takeWhile (\<lambda>c. c \<noteq> a) (rev y @ a # rev x) = takeWhile (\<lambda>c. c \<noteq> a) (rev y' @ a # rev x')"
    by (rule arg_cong)
  then show "y = y'" unfolding t [OF assms(2)] t [OF assms(3)] by simp
  then show "x = x'" using assms(1) by simp
qed

lemma Itoa_no_minus: "0 \<le> i \<Longrightarrow> CHR ''-'' \<notin> set (Itoa i)"
  using digit_not_minus [of "CHR ''-''" "nat i"] by (metis Itoa_nat)

lemma reduceName_inj:
  assumes "reduceName J m r = reduceName J m' r'" and "0 \<le> m" "0 \<le> m'" "0 \<le> r" "0 \<le> r'"
  shows "m = m'" "r = r'"
proof -
  have "Itoa m @ CHR ''-'' # Itoa r = Itoa m' @ CHR ''-'' # Itoa r'"
    using assms(1) by (simp add: reduceName_def)
  note eq = split_last [OF this Itoa_no_minus [OF assms(4)] Itoa_no_minus [OF assms(5)]]
  show "m = m'" using eq(1) by (rule Itoa_inj)
  show "r = r'" using eq(2) by (rule Itoa_inj)
qed

lemma mergeName_inj: "mergeName J r = mergeName J r' \<Longrightarrow> r = r'"
  by (auto simp: mergeName_def dest: Itoa_inj)

lemma digits_not_res: "digits n \<noteq> ''res''"
proof
  assume "digits n = ''res''"
  then have "CHR ''r'' \<in> set (digits n)" by simp
  then obtain d where d: "d < 10" "CHR ''r'' = digit d" using digits_chars by blast
  have "(of_char CHR ''r'' :: nat) = 114" by simp
  then show False using d digit_code [OF d(1)] by simp
qed

lemma reduceName_mergeName:
  assumes "0 \<le> m" "0 \<le> r" "0 \<le> r'"
  shows "reduceName J m r \<noteq> mergeName J r'"
proof
  assume "reduceName J m r = mergeName J r'"
  then have "Itoa m @ CHR ''-'' # Itoa r = ''res'' @ CHR ''-'' # Itoa r'"
    by (simp add: reduceName_def mergeName_def)
  from split_last(1) [OF this Itoa_no_minus [OF assms(2)] Itoa_no_minus [OF assms(3)]]
  show False using digits_not_res assms(1) by (simp add: Itoa_nat)
qed

lemma outName_other: "outName J \<noteq> reduceName J m r" "outName J \<noteq> mergeName J r"
  by (simp_all add: outName_def reduceName_def mergeName_def)

section \<open>The hash chooses a reduce task\<close>

lemma partition_range: "0 < n \<Longrightarrow> 0 \<le> partition_of n k \<and> partition_of n k < n"
  by (simp add: partition_of_def)

end
