(* ===== verification/MR_Tasks.thy ===== *)
theory MR_Tasks
  imports MR_Files "HOL-Library.AList"
begin

text \<open>
  The tasks of a MapReduce job: \<^verbatim>\<open>doMap\<close> (\<^verbatim>\<open>src/mapreduce/common_map.go\<close>), \<^verbatim>\<open>doReduce\<close>
  (\<^verbatim>\<open>common_reduce.go\<close>), \<^verbatim>\<open>merge\<close> and \<^verbatim>\<open>CleanupFiles\<close> (\<^verbatim>\<open>master_splitmerge.go\<close>), as
  functions on the file system, with what each leaves on the disk.
\<close>

section \<open>Map tasks\<close>

text \<open>How the program stops: a panic, \<^verbatim>\<open>log.Fatal\<close>, or a wait that has not ended.\<close>

datatype mr_stop = Panic | Fatal | Stuck

text \<open>A record is written to the open file of that name.\<close>

definition append_record :: "string \<Rightarrow> KeyValue \<Rightarrow> fsys \<Rightarrow> fsys" where
  "append_record n kv d =
     (if creatable d n
      then d\<lparr>disk := (disk d)(n \<mapsto> Json ((case disk d n of Some (Json kvs) \<Rightarrow> kvs | _ \<Rightarrow> []) @ [kv]))\<rparr>
      else d)"

text \<open>The loop over the pairs; \<open>opened\<close> are the partitions whose encoder exists.\<close>

fun emit :: "string \<Rightarrow> int \<Rightarrow> int \<Rightarrow> int list \<Rightarrow> KeyValue list \<Rightarrow> fsys \<Rightarrow> fsys" where
  "emit J m n opened [] d = d"
| "emit J m n opened (kv # kvs) d =
     (let r = partition_of n (Key kv);
          rname = reduceName J m r;
          d = (if r \<in> set opened then d else create rname (Json []) d)
      in emit J m n (r # opened) kvs (append_record rname kv d))"

definition doMap ::
  "codec \<Rightarrow> string \<Rightarrow> int \<Rightarrow> string \<Rightarrow> int \<Rightarrow> (string \<Rightarrow> string \<Rightarrow> KeyValue list) \<Rightarrow> fsys \<Rightarrow> mr_stop + fsys" where
  "doMap j J m inFile n mapF d =
     (let kvs = mapF inFile (read_text j d inFile)
      in if n < 0 then Inl Panic
      else if n = 0 \<and> kvs \<noteq> [] then Inl Panic
      else Inr (emit J m n [] kvs d))"

section \<open>Reduce tasks\<close>

fun bucket_add :: "KeyValue \<Rightarrow> (string \<times> string list) list \<Rightarrow> (string \<times> string list) list" where
  "bucket_add kv [] = [(Key kv, [Value kv])]"
| "bucket_add kv ((k, vs) # bs) =
     (if k = Key kv then (k, vs @ [Value kv]) # bs else (k, vs) # bucket_add kv bs)"

definition bucket :: "(string \<times> string list) list \<Rightarrow> string \<Rightarrow> string list" where
  "bucket bs k = (case map_of bs k of None \<Rightarrow> [] | Some vs \<Rightarrow> vs)"

definition doReduce ::
  "codec \<Rightarrow> string \<Rightarrow> int \<Rightarrow> int \<Rightarrow> (string \<Rightarrow> string list \<Rightarrow> string) \<Rightarrow> fsys \<Rightarrow> fsys" where
  "doReduce j J r nMap reduceF d =
     (let buckets = fold (\<lambda>m bs. fold bucket_add (read_records j d (reduceName J m r)) bs) (go_range nMap) [];
          keys = sort (map fst buckets)
      in create (mergeName J r) (Json (map (\<lambda>k. \<lparr>Key = k, Value = reduceF k (bucket buckets k)\<rparr>) keys)) d)"

section \<open>Merging and cleaning up\<close>

fun merge_read :: "codec \<Rightarrow> string \<Rightarrow> fsys \<Rightarrow> int list \<Rightarrow> (string \<times> string) list \<Rightarrow> mr_stop + (string \<times> string) list" where
  "merge_read j J d [] kvs = Inr kvs"
| "merge_read j J d (i # is) kvs =
     (if disk d (mergeName J i) = None then Inl Fatal
      else merge_read j J d is
        (fold (\<lambda>kv. AList.update (Key kv) (Value kv)) (read_records j d (mergeName J i)) kvs))"

definition line :: "(string \<times> string) list \<Rightarrow> string \<Rightarrow> string" where
  "line kvs k = k @ '': '' @ (case map_of kvs k of None \<Rightarrow> [] | Some v \<Rightarrow> v) @ [CHR 0x0A]"

definition mergeAll :: "codec \<Rightarrow> string \<Rightarrow> int \<Rightarrow> fsys \<Rightarrow> mr_stop + fsys" where
  "mergeAll j J n d =
     (case merge_read j J d (go_range n) [] of
        Inl e \<Rightarrow> Inl e
      | Inr kvs \<Rightarrow>
          let keys = sort (map fst kvs)
          in if \<not> creatable d (outName J) then Inl Fatal
          else Inr (create (outName J) (Text (concat (map (line kvs) keys))) d))"

definition removeFile :: "string \<Rightarrow> fsys \<Rightarrow> mr_stop + fsys" where
  "removeFile n d = (if disk d n = None then Inl Fatal else Inr (d\<lparr>disk := (disk d)(n := None)\<rparr>))"

fun remove_all :: "string list \<Rightarrow> fsys \<Rightarrow> mr_stop + fsys" where
  "remove_all [] d = Inr d"
| "remove_all (n # ns) d = (case removeFile n d of Inl e \<Rightarrow> Inl e | Inr d \<Rightarrow> remove_all ns d)"

definition CleanupFiles :: "string \<Rightarrow> string list \<Rightarrow> int \<Rightarrow> fsys \<Rightarrow> mr_stop + fsys" where
  "CleanupFiles J files n d =
     remove_all
       (concat (map (\<lambda>i. map (\<lambda>r. reduceName J i r) (go_range n)) (go_range (go_len files)))
        @ map (mergeName J) (go_range n) @ [outName J]) d"

section \<open>What a map task leaves on the disk\<close>

definition part :: "int \<Rightarrow> int \<Rightarrow> KeyValue list \<Rightarrow> KeyValue list" where
  "part n r kvs = filter (\<lambda>kv. partition_of n (Key kv) = r) kvs"

lemma part_simps [simp]:
  "part n r [] = []"
  "part n r (kv # kvs) = (if partition_of n (Key kv) = r then kv # part n r kvs else part n r kvs)"
  "part n r (xs @ ys) = part n r xs @ part n r ys"
  by (simp_all add: part_def)

lemma append_record_sel [simp]:
  "creatable (append_record n kv d) = creatable d"
  "disk (append_record n kv d) x = (if x = n \<and> creatable d n
     then Some (Json ((case disk d n of Some (Json kvs) \<Rightarrow> kvs | _ \<Rightarrow> []) @ [kv])) else disk d x)"
  by (simp_all add: append_record_def)

lemma emit_creatable [simp]: "creatable (emit J m n opened kvs d) = creatable d"
  by (induction kvs arbitrary: opened d) (auto simp: Let_def)

text \<open>
  A partition that is not open yet is started afresh, an open one is continued, and all
  other files are left alone.
\<close>

lemma emit_disk:
  assumes "\<And>x. creatable d x" and "0 < n" and "0 \<le> m" and "0 \<le> r"
  shows "disk (emit J m n opened kvs d) (reduceName J m r) =
      (if part n r kvs = [] then disk d (reduceName J m r)
       else Some (Json ((if r \<in> set opened
           then (case disk d (reduceName J m r) of Some (Json old) \<Rightarrow> old | _ \<Rightarrow> []) else []) @ part n r kvs)))"
  using assms(1)
proof (induction kvs arbitrary: opened d)
  case (Cons kv kvs)
  let ?p = "partition_of n (Key kv)"
  let ?d0 = "if ?p \<in> set opened then d else create (reduceName J m ?p) (Json []) d"
  let ?d = "append_record (reduceName J m ?p) kv ?d0"
  have p0: "0 \<le> ?p" using partition_range [OF assms(2)] by blast
  have emit: "emit J m n opened (kv # kvs) d = emit J m n (?p # opened) kvs ?d" by (simp add: Let_def)
  have cr: "creatable ?d y" for y using Cons.prems by simp
  have "reduceName J m r = reduceName J m ?p \<longleftrightarrow> r = ?p"
    using reduceName_inj(2) [of J m r m ?p] p0 assms(3,4) by auto
  then show ?case
    unfolding emit Cons.IH [OF cr] using Cons.prems by (auto split: option.splits content.splits)
qed simp

lemma emit_other:
  assumes "0 < n" and "\<And>r. 0 \<le> r \<Longrightarrow> x \<noteq> reduceName J m r"
  shows "disk (emit J m n opened kvs d) x = disk d x"
proof (induction kvs arbitrary: opened d)
  case (Cons kv kvs)
  have "x \<noteq> reduceName J m (partition_of n (Key kv))" using assms partition_range by blast
  then show ?case by (simp add: Let_def Cons.IH)
qed simp

lemma emit_new:
  assumes "\<And>x. creatable d x" and "0 < n" and "0 \<le> m" and "0 \<le> r"
  shows "disk (emit J m n [] kvs d) (reduceName J m r) =
      (if part n r kvs = [] then disk d (reduceName J m r) else Some (Json (part n r kvs)))"
  using emit_disk [where opened = "[]", OF assms] by simp

section \<open>What a reduce task computes\<close>

definition vals :: "string \<Rightarrow> KeyValue list \<Rightarrow> string list" where
  "vals k kvs = map Value (filter (\<lambda>kv. Key kv = k) kvs)"

lemma vals_simps [simp]:
  "vals k [] = []" "vals k (kv # kvs) = (if Key kv = k then Value kv # vals k kvs else vals k kvs)"
  "vals k (xs @ ys) = vals k xs @ vals k ys"
  by (simp_all add: vals_def)

lemma vals_Nil: "vals k kvs = [] \<longleftrightarrow> k \<notin> Key ` set kvs"
  by (induction kvs) auto

lemma bucket_add_keys: "map fst (bucket_add kv bs) = (if Key kv \<in> set (map fst bs) then map fst bs else map fst bs @ [Key kv])"
  by (induction kv bs rule: bucket_add.induct) auto

lemma bucket_bucket_add: "bucket (bucket_add kv bs) k = bucket bs k @ (if Key kv = k then [Value kv] else [])"
  by (induction kv bs rule: bucket_add.induct) (auto simp: bucket_def)

lemma fold_bucket:
  "bucket (fold bucket_add kvs bs) k = bucket bs k @ vals k kvs"
  "set (map fst (fold bucket_add kvs bs)) = set (map fst bs) \<union> Key ` set kvs"
  "distinct (map fst bs) \<Longrightarrow> distinct (map fst (fold bucket_add kvs bs))"
proof -
  have add: "distinct (map fst (bucket_add kv bs))" if "distinct (map fst bs)" for kv bs
    unfolding bucket_add_keys using that by simp
  show "bucket (fold bucket_add kvs bs) k = bucket bs k @ vals k kvs"
    by (induction kvs arbitrary: bs) (simp_all add: bucket_bucket_add)
  show "set (map fst (fold bucket_add kvs bs)) = set (map fst bs) \<union> Key ` set kvs"
    by (induction kvs arbitrary: bs) (auto simp: bucket_add_keys simp del: set_map)
  show "distinct (map fst bs) \<Longrightarrow> distinct (map fst (fold bucket_add kvs bs))"
    by (induction kvs arbitrary: bs) (simp_all add: add)
qed

lemma fold_concat: "fold (\<lambda>m. fold f (g m)) ms = fold f (concat (map g ms))"
  by (induction ms) auto

text \<open>The contents of the result file: every key once, in order, with its values reduced.\<close>

definition grouped :: "(string \<Rightarrow> string list \<Rightarrow> string) \<Rightarrow> KeyValue list \<Rightarrow> KeyValue list" where
  "grouped reduceF kvs =
     map (\<lambda>k. \<lparr>Key = k, Value = reduceF k (vals k kvs)\<rparr>) (sorted_list_of_set (Key ` set kvs))"

lemma sort_distinct: "distinct xs \<Longrightarrow> sort xs = sorted_list_of_set (set xs)"
  by (simp add: sorted_list_of_set_sort_remdups distinct_remdups_id)

lemma doReduce_eq:
  "doReduce j J r nMap reduceF d = create (mergeName J r)
     (Json (grouped reduceF (concat (map (\<lambda>m. read_records j d (reduceName J m r)) (go_range nMap))))) d"
proof -
  let ?kvs = "concat (map (\<lambda>m. read_records j d (reduceName J m r)) (go_range nMap))"
  let ?bs = "fold bucket_add ?kvs []"
  have eq: "fold (\<lambda>m bs. fold bucket_add (read_records j d (reduceName J m r)) bs) (go_range nMap) [] = ?bs"
    by (simp add: fold_concat)
  have "sort (map fst ?bs) = sorted_list_of_set (Key ` set ?kvs)"
  proof -
    have "distinct (map fst ?bs)" by (rule fold_bucket(3)) simp
    moreover have "set (map fst ?bs) = Key ` set ?kvs" unfolding fold_bucket(2) by simp
    ultimately show ?thesis by (simp only: sort_distinct)
  qed
  moreover have "bucket ?bs k = vals k ?kvs" for k
    using fold_bucket(1) [where kvs = ?kvs and bs = "[]" and k = k] by (simp add: bucket_def)
  ultimately show ?thesis by (simp add: doReduce_def Let_def eq grouped_def)
qed

end
