(* ===== verification/MR_Job.thy ===== *)
theory MR_Job
  imports MR_Tasks
begin

text \<open>
  A whole job run by the master itself (\<^verbatim>\<open>Sequential\<close> and \<^verbatim>\<open>run\<close> of
  \<^verbatim>\<open>src/mapreduce/master.go\<close>), and its result: the file of the job holds every key with its
  reduced values, as if all pairs had been grouped at once.
\<close>

section \<open>The master\<close>

text \<open>
  \<open>ready\<close> holds the workers that goroutines offer on \<^verbatim>\<open>registerChannel\<close>, \<open>offered\<close> says that \<^verbatim>\<open>run\<close>
  offers the end of the job on \<^verbatim>\<open>doneChannel\<close>, and \<open>shutdown\<close> that the channel of that name is closed.
\<close>

datatype listener = NoListener | Listening | ListenerClosed

record Master =
  address :: string
  ready :: "string list"
  offered :: bool
  workers :: "string list"
  jobName :: string
  files :: "string list"
  nReduce :: int
  shutdown :: bool
  lis :: listener
  stats :: "int list"

definition newMaster :: "string \<Rightarrow> Master" where
  "newMaster m = \<lparr>address = m, ready = [], offered = False, workers = [], jobName = [], files = [], nReduce = 0,
     shutdown = False, lis = NoListener, stats = []\<rparr>"

definition Register :: "string \<Rightarrow> Master \<Rightarrow> Master" where
  "Register w mr = mr\<lparr>workers := workers mr @ [w], ready := ready mr @ [w]\<rparr>"

fun run_maps ::
  "codec \<Rightarrow> string \<Rightarrow> int \<Rightarrow> (string \<Rightarrow> string \<Rightarrow> KeyValue list) \<Rightarrow> int \<Rightarrow> string list \<Rightarrow> fsys \<Rightarrow> mr_stop + fsys" where
  "run_maps j J n mapF m [] d = Inr d"
| "run_maps j J n mapF m (f # fs) d =
     (case doMap j J m f n mapF d of Inl e \<Rightarrow> Inl e | Inr d \<Rightarrow> run_maps j J n mapF (m + 1) fs d)"

definition run_reduces ::
  "codec \<Rightarrow> string \<Rightarrow> int \<Rightarrow> (string \<Rightarrow> string list \<Rightarrow> string) \<Rightarrow> int list \<Rightarrow> fsys \<Rightarrow> fsys" where
  "run_reduces j J nMap reduceF rs d = fold (\<lambda>i. doReduce j J i nMap reduceF) rs d"

type_synonym mstate = "Master \<times> fsys"

text \<open>The job, with the procedure that runs a phase and the one that ends the job as arguments.\<close>

definition run ::
  "codec \<Rightarrow> (jobPhase \<Rightarrow> mstate \<Rightarrow> mr_stop + mstate) \<Rightarrow> (mstate \<Rightarrow> mr_stop + mstate) \<Rightarrow>
     string \<Rightarrow> string list \<Rightarrow> int \<Rightarrow> mstate \<Rightarrow> mr_stop + mstate" where
  "run j schedule finish J fs nreduce st =
     (case schedule mapPhase ((fst st)\<lparr>jobName := J, files := fs, nReduce := nreduce\<rparr>, snd st) of
        Inl e \<Rightarrow> Inl e
      | Inr st \<Rightarrow>
          (case schedule reducePhase st of
             Inl e \<Rightarrow> Inl e
           | Inr st \<Rightarrow>
               (case finish st of
                  Inl e \<Rightarrow> Inl e
                | Inr (mr, d) \<Rightarrow>
                    (case mergeAll j (jobName mr) (nReduce mr) d of
                       Inl e \<Rightarrow> Inl e
                     | Inr d \<Rightarrow> Inr (mr\<lparr>offered := True\<rparr>, d)))))"

text \<open>\<^verbatim>\<open>Wait\<close> receives the end of the job; None while there is none.\<close>

definition Wait :: "Master \<Rightarrow> Master option" where
  "Wait mr = (if offered mr then Some (mr\<lparr>offered := False\<rparr>) else None)"

definition seq_phase ::
  "codec \<Rightarrow> (string \<Rightarrow> string \<Rightarrow> KeyValue list) \<Rightarrow> (string \<Rightarrow> string list \<Rightarrow> string) \<Rightarrow>
     jobPhase \<Rightarrow> mstate \<Rightarrow> mr_stop + mstate" where
  "seq_phase j mapF reduceF phase st =
     (let (mr, d) = st
      in case phase of
           mapPhase \<Rightarrow>
             (case run_maps j (jobName mr) (nReduce mr) mapF 0 (files mr) d of Inl e \<Rightarrow> Inl e | Inr d \<Rightarrow> Inr (mr, d))
         | reducePhase \<Rightarrow> Inr (mr, run_reduces j (jobName mr) (go_len (files mr)) reduceF (go_range (nReduce mr)) d))"

definition Sequential ::
  "codec \<Rightarrow> string \<Rightarrow> string list \<Rightarrow> int \<Rightarrow> (string \<Rightarrow> string \<Rightarrow> KeyValue list) \<Rightarrow>
     (string \<Rightarrow> string list \<Rightarrow> string) \<Rightarrow> fsys \<Rightarrow> mr_stop + mstate" where
  "Sequential j J fs n mapF reduceF d =
     run j (seq_phase j mapF reduceF) (\<lambda>(mr, d). Inr (mr\<lparr>stats := [go_len fs + n]\<rparr>, d)) J fs n (newMaster ''master'', d)"

section \<open>The specification\<close>

text \<open>All pairs of all inputs, and the text that reports them grouped and reduced.\<close>

definition all_pairs :: "codec \<Rightarrow> (string \<Rightarrow> string \<Rightarrow> KeyValue list) \<Rightarrow> string list \<Rightarrow> fsys \<Rightarrow> KeyValue list" where
  "all_pairs j mapF fs d = concat (map (\<lambda>f. mapF f (read_text j d f)) fs)"

definition report :: "(string \<Rightarrow> string list \<Rightarrow> string) \<Rightarrow> KeyValue list \<Rightarrow> string" where
  "report reduceF kvs =
     concat (map (\<lambda>kv. Key kv @ '': '' @ Value kv @ [CHR 0x0A]) (grouped reduceF kvs))"

text \<open>A file that no task of the job writes.\<close>

definition foreign :: "string \<Rightarrow> string \<Rightarrow> bool" where
  "foreign J x \<longleftrightarrow> (\<forall>m r. 0 \<le> m \<longrightarrow> 0 \<le> r \<longrightarrow> x \<noteq> reduceName J m r)"

section \<open>Merging\<close>

lemma fold_update:
  assumes "\<And>kv. kv \<in> set L \<Longrightarrow> Value kv = g (Key kv)"
  shows "distinct (map fst kvs) \<Longrightarrow> distinct (map fst (fold (\<lambda>kv. AList.update (Key kv) (Value kv)) L kvs))"
    "map_of (fold (\<lambda>kv. AList.update (Key kv) (Value kv)) L kvs) k =
       (if k \<in> Key ` set L then Some (g k) else map_of kvs k)"
proof -
  show "distinct (map fst kvs) \<Longrightarrow> distinct (map fst (fold (\<lambda>kv. AList.update (Key kv) (Value kv)) L kvs))"
    by (induction L arbitrary: kvs) (simp_all add: distinct_update)
  show "map_of (fold (\<lambda>kv. AList.update (Key kv) (Value kv)) L kvs) k =
       (if k \<in> Key ` set L then Some (g k) else map_of kvs k)"
    using assms
  proof (induction L arbitrary: kvs)
    case (Cons kv L)
    then show ?case by (auto simp: update_conv')
  qed simp
qed

lemma keys_map_of: "set (map fst kvs) = {k. map_of kvs k \<noteq> None}"
  using dom_map_of_conv_image_fst [of kvs] by (auto simp: dom_def)

lemma merge_read_eq:
  "(\<And>i. i \<in> set is \<Longrightarrow> disk d (mergeName J i) = Some (Json (R i))) \<Longrightarrow>
     merge_read j J d is kvs = Inr (fold (\<lambda>kv. AList.update (Key kv) (Value kv)) (concat (map R is)) kvs)"
  by (induction "is" arbitrary: kvs) (simp_all add: read_records_def)

lemma mergeAll_eq:
  assumes "\<And>i. i \<in> set (go_range n) \<Longrightarrow> disk d (mergeName J i) = Some (Json (R i))"
    and "creatable d (outName J)"
    and "\<And>kv. kv \<in> set (concat (map R (go_range n))) \<Longrightarrow> Value kv = g (Key kv)"
    and "Key ` set (concat (map R (go_range n))) = K"
  shows "mergeAll j J n d = Inr (create (outName J)
     (Text (concat (map (\<lambda>k. k @ '': '' @ g k @ [CHR 0x0A]) (sorted_list_of_set K)))) d)"
proof -
  let ?L = "concat (map R (go_range n))"
  let ?kvs = "fold (\<lambda>kv. AList.update (Key kv) (Value kv)) ?L []"
  have m: "map_of ?kvs k = (if k \<in> K then Some (g k) else None)" for k
    using fold_update(2) [where L = ?L and g = g and kvs = "[]" and k = k, OF assms(3)]
    unfolding assms(4) by simp
  have "distinct (map fst ?kvs)" by (rule fold_update(1) [OF assms(3)]) simp_all
  moreover have keys: "set (map fst ?kvs) = K" unfolding keys_map_of m by auto
  ultimately have sorted: "sort (map fst ?kvs) = sorted_list_of_set K" by (simp only: sort_distinct)
  have fin: "finite K" using keys by (metis List.finite_set)
  have "map (line ?kvs) (sorted_list_of_set K) = map (\<lambda>k. k @ '': '' @ g k @ [CHR 0x0A]) (sorted_list_of_set K)"
    using fin by (intro map_cong) (simp_all add: line_def m)
  then show ?thesis
    using assms(2) sorted by (simp only: mergeAll_def merge_read_eq [OF assms(1)] Let_def sum.case) simp
qed

section \<open>The reduce phase\<close>

lemma doReduce_sel [simp]: "creatable (doReduce j J r nMap reduceF d) = creatable d"
  by (simp add: doReduce_eq)

lemma run_reduces_creatable [simp]: "creatable (run_reduces j J nMap reduceF rs d) = creatable d"
  by (induction rs arbitrary: d) (simp_all add: run_reduces_def)

lemma read_doReduce:
  assumes "0 \<le> m" and "0 \<le> r" and "0 \<le> i"
  shows "read_records j (doReduce j' J i nMap reduceF d) (reduceName J m r) = read_records j d (reduceName J m r)"
  using reduceName_mergeName [OF assms] by (simp add: read_records_def doReduce_eq)

lemma run_reduces_other:
  "(\<And>r. r \<in> set rs \<Longrightarrow> x \<noteq> mergeName J r) \<Longrightarrow> disk (run_reduces j J nMap reduceF rs d) x = disk d x"
  by (induction rs arbitrary: d) (auto simp: run_reduces_def doReduce_eq)

text \<open>Every result file holds the pairs of its partition, grouped and reduced.\<close>

lemma run_reduces_disk:
  assumes "\<And>x. creatable d x" and "\<And>r. r \<in> set rs \<Longrightarrow> 0 \<le> r"
  shows "i \<in> set rs \<Longrightarrow> disk (run_reduces j J nMap reduceF rs d) (mergeName J i) =
      Some (Json (grouped reduceF (concat (map (\<lambda>m. read_records j d (reduceName J m i)) (go_range nMap)))))"
  using assms
proof (induction rs arbitrary: d)
  case (Cons r rs)
  let ?d = "doReduce j J r nMap reduceF d"
  have r0: "0 \<le> r" "0 \<le> i" using Cons.prems by auto
  have same: "map (\<lambda>m. read_records j ?d (reduceName J m q)) (go_range nMap) =
      map (\<lambda>m. read_records j d (reduceName J m q)) (go_range nMap)" if "0 \<le> q" for q
    using read_doReduce [OF _ that r0(1)] by (intro map_cong) auto
  show ?case
  proof (cases "i \<in> set rs")
    case True
    from Cons.IH [OF True, of ?d] same [OF r0(2)] show ?thesis
      using Cons.prems by (simp add: run_reduces_def)
  next
    case False
    have "disk (run_reduces j J nMap reduceF rs e) (mergeName J i) = disk e (mergeName J i)" for e
      using False mergeName_inj [of J i] by (intro run_reduces_other) auto
    then show ?thesis using False Cons.prems by (auto simp: run_reduces_def doReduce_eq)
  qed
qed simp

section \<open>The map phase\<close>

lemma doMap_eq:
  "0 < n \<Longrightarrow> doMap j J m f n mapF d = Inr (emit J m n [] (mapF f (read_text j d f)) d)"
  by (simp add: doMap_def Let_def)

lemma emit_foreign: "0 < n \<Longrightarrow> 0 \<le> m \<Longrightarrow> foreign J x \<Longrightarrow> disk (emit J m n [] kvs d) x = disk d x"
  by (rule emit_other) (auto simp: foreign_def)

lemma emit_task_other:
  assumes "0 < n" and "0 \<le> m" and "0 \<le> m'" and "0 \<le> r" and "m' \<noteq> m"
  shows "disk (emit J m n [] kvs d) (reduceName J m' r) = disk d (reduceName J m' r)"
  using reduceName_inj(1) [of J m' r m] assms by (intro emit_other) auto

lemma read_text_cong: "disk d f = disk d' f \<Longrightarrow> read_text j d f = read_text j d' f"
  by (simp add: read_text_def)

text \<open>
  After the map phase the file of map task \<open>m + i\<close> for reduce task \<open>r\<close> holds the pairs of input
  \<open>i\<close> in that partition, if there are any; all other files are as before.
\<close>

lemma run_maps_disk:
  assumes "\<And>x. creatable d x" and "0 < n" and "0 \<le> m" and "\<And>f. f \<in> set fs \<Longrightarrow> foreign J f"
  shows "\<exists>d'. run_maps j J n mapF m fs d = Inr d' \<and> (\<forall>x. creatable d' x) \<and>
    (\<forall>x. (\<forall>i r. i < length fs \<longrightarrow> 0 \<le> r \<longrightarrow> x \<noteq> reduceName J (m + int i) r) \<longrightarrow> disk d' x = disk d x) \<and>
    (\<forall>i r. i < length fs \<longrightarrow> 0 \<le> r \<longrightarrow> disk d' (reduceName J (m + int i) r) =
       (let kvs = part n r (mapF (fs ! i) (read_text j d (fs ! i)))
        in if kvs = [] then disk d (reduceName J (m + int i) r) else Some (Json kvs)))"
  using assms(1,3,4)
proof (induction fs arbitrary: d m)
  case (Cons f fs)
  let ?kvs = "mapF f (read_text j d f)"
  let ?d = "emit J m n [] ?kvs d"
  have cr: "creatable ?d x" for x using Cons.prems(1) by simp
  have for_f: "foreign J g" if "g \<in> set fs" for g using Cons.prems(3) that by simp
  have m1: "0 \<le> m + 1" using Cons.prems(2) by simp
  obtain d' where d': "run_maps j J n mapF (m + 1) fs ?d = Inr d'" "\<forall>x. creatable d' x"
    and other: "\<And>x. (\<forall>i r. i < length fs \<longrightarrow> 0 \<le> r \<longrightarrow> x \<noteq> reduceName J (m + 1 + int i) r) \<Longrightarrow> disk d' x = disk ?d x"
    and tasks: "\<And>i r. i < length fs \<Longrightarrow> 0 \<le> r \<Longrightarrow> disk d' (reduceName J (m + 1 + int i) r) =
       (let kvs = part n r (mapF (fs ! i) (read_text j ?d (fs ! i)))
        in if kvs = [] then disk ?d (reduceName J (m + 1 + int i) r) else Some (Json kvs))"
    using Cons.IH [OF cr m1 for_f] by blast
  have run: "run_maps j J n mapF m (f # fs) d = Inr d'" using d'(1) by (simp add: doMap_eq [OF assms(2)])
  have later: "disk ?d (reduceName J (m + 1 + int i) r) = disk d (reduceName J (m + 1 + int i) r)" if "0 \<le> r" for i r
    using that Cons.prems(2) by (intro emit_task_other [OF assms(2)]) auto
  have same: "read_text j ?d g = read_text j d g" if "g \<in> set fs" for g
    by (rule read_text_cong) (rule emit_foreign [OF assms(2) Cons.prems(2) for_f [OF that]])
  have "disk d' x = disk d x"
    if x: "\<forall>i r. i < length (f # fs) \<longrightarrow> 0 \<le> r \<longrightarrow> x \<noteq> reduceName J (m + int i) r" for x
  proof -
    have "disk d' x = disk ?d x"
      using x [rule_format, of "Suc _"] by (intro other) (auto simp: add.assoc)
    also have "\<dots> = disk d x" using x [rule_format, of 0] by (intro emit_other [OF assms(2)]) auto
    finally show ?thesis .
  qed
  moreover have "disk d' (reduceName J (m + int i) r) =
       (let kvs = part n r (mapF ((f # fs) ! i) (read_text j d ((f # fs) ! i)))
        in if kvs = [] then disk d (reduceName J (m + int i) r) else Some (Json kvs))"
    if "i < length (f # fs)" "0 \<le> r" for i r
  proof (cases i)
    case 0
    have "disk d' (reduceName J m r) = disk ?d (reduceName J m r)"
      using reduceName_inj(1) [of J m r] that(2) Cons.prems(2) by (intro other) force
    then show ?thesis
      using 0 emit_new [OF Cons.prems(1) assms(2) Cons.prems(2) that(2)] by (simp add: Let_def)
  next
    case (Suc k)
    then show ?thesis
      using tasks [of k r] that later [OF that(2), of k] same [of "fs ! k"] by (simp add: Let_def ac_simps)
  qed
  ultimately show ?case using run d'(2) by blast
qed auto

section \<open>The whole job\<close>

lemma part_concat: "part n r (concat xss) = concat (map (part n r) xss)"
  by (induction xss) simp_all

lemma vals_part: "partition_of n k = r \<Longrightarrow> vals k (part n r kvs) = vals k kvs"
  by (induction kvs) auto

lemma keys_part: "Key ` set (part n r kvs) = {k \<in> Key ` set kvs. partition_of n k = r}"
  by (auto simp: part_def)

text \<open>Once the map files and result files are as the tasks leave them, the merge reports all pairs.\<close>

lemma report_partitions:
  assumes "0 < n" and "creatable d (outName J)"
    and "\<And>i. 0 \<le> i \<Longrightarrow> i < n \<Longrightarrow> disk d (mergeName J i) = Some (Json (grouped reduceF (part n i kvs)))"
  shows "mergeAll j J n d = Inr (create (outName J) (Text (report reduceF kvs)) d)"
proof -
  let ?R = "\<lambda>i. grouped reduceF (part n i kvs)"
  let ?L = "concat (map ?R (go_range n))"
  have el: "kv \<in> set ?L \<longleftrightarrow> (\<exists>k \<in> Key ` set kvs. kv = \<lparr>Key = k, Value = reduceF k (vals k kvs)\<rparr>)" for kv
  proof -
    have "kv \<in> set (?R i) \<longleftrightarrow> (\<exists>k \<in> Key ` set kvs. partition_of n k = i \<and>
        kv = \<lparr>Key = k, Value = reduceF k (vals k kvs)\<rparr>)" for i
      by (auto simp: grouped_def keys_part vals_part)
    then show ?thesis using partition_range [OF assms(1)] by fastforce
  qed
  have K: "Key ` set ?L = Key ` set kvs"
  proof (intro equalityI subsetI)
    fix k assume "k \<in> Key ` set kvs"
    then have "\<lparr>Key = k, Value = reduceF k (vals k kvs)\<rparr> \<in> set ?L" using el by blast
    then show "k \<in> Key ` set ?L" by force
  next
    fix k assume "k \<in> Key ` set ?L"
    then obtain kv where "kv \<in> set ?L" "k = Key kv" by blast
    then show "k \<in> Key ` set kvs" using el [of kv] by auto
  qed
  have "mergeAll j J n d = Inr (create (outName J) (Text (concat (map
      (\<lambda>k. k @ '': '' @ reduceF k (vals k kvs) @ [CHR 0x0A]) (sorted_list_of_set (Key ` set kvs))))) d)"
  proof (rule mergeAll_eq [where R = ?R, OF _ assms(2) _ K])
    show "Value kv = reduceF (Key kv) (vals (Key kv) kvs)" if "kv \<in> set ?L" for kv
      using that el [of kv] by auto
  qed (use assms(3) in simp)
  then show ?thesis by (simp add: report_def grouped_def comp_def)
qed

lemma map_range_concat:
  "concat (map (\<lambda>m. f (fs ! nat m)) (go_range (go_len fs))) = concat (map f fs)"
proof -
  have "map (\<lambda>m. f (fs ! nat m)) (go_range (go_len fs)) = map f fs"
    by (rule nth_equalityI) (simp_all add: go_range_def go_len_def)
  then show ?thesis by simp
qed

lemma read_part:
  "disk d n = (if kvs = [] then disk d0 n else Some (Json kvs)) \<Longrightarrow> disk d0 n = None \<Longrightarrow> read_records j d n = kvs"
  by (auto simp: read_records_def split: if_splits)

text \<open>What a reduce task gathers from complete map files.\<close>

lemma gathered:
  assumes "\<And>m. 0 \<le> m \<Longrightarrow> m < go_len fs \<Longrightarrow> read_records j d (reduceName J m i) = part n i (g (fs ! nat m))"
  shows "concat (map (\<lambda>m. read_records j d (reduceName J m i)) (go_range (go_len fs))) = part n i (concat (map g fs))"
proof -
  have "concat (map (\<lambda>m. read_records j d (reduceName J m i)) (go_range (go_len fs))) =
      concat (map (\<lambda>m. part n i (g (fs ! nat m))) (go_range (go_len fs)))"
    using assms by (intro arg_cong [of _ _ concat] map_cong) auto
  also have "\<dots> = part n i (concat (map g fs))"
    by (simp add: map_range_concat [of "\<lambda>f. part n i (g f)"] part_concat comp_def)
  finally show ?thesis .
qed

text \<open>The intermediate file of a map task, absent when the task has no pair for the partition.\<close>

definition map_file :: "int \<Rightarrow> int \<Rightarrow> KeyValue list \<Rightarrow> content option" where
  "map_file n r kvs = (if part n r kvs = [] then None else Some (Json (part n r kvs)))"

lemma Sequential_run:
  assumes "0 < n" and "\<And>x. creatable d x" and "\<And>f. f \<in> set fs \<Longrightarrow> foreign J f"
    and "\<And>m r. 0 \<le> m \<Longrightarrow> 0 \<le> r \<Longrightarrow> disk d (reduceName J m r) = None"
  shows "\<exists>mr d'. Sequential j J fs n mapF reduceF d = Inr (mr, d') \<and> stats mr = [go_len fs + n] \<and>
    disk d' (outName J) = Some (Text (report reduceF (all_pairs j mapF fs d))) \<and>
    (\<forall>i r. 0 \<le> i \<longrightarrow> i < go_len fs \<longrightarrow> 0 \<le> r \<longrightarrow>
      disk d' (reduceName J i r) = map_file n r (mapF (fs ! nat i) (read_text j d (fs ! nat i)))) \<and>
    (\<forall>r. 0 \<le> r \<longrightarrow> r < n \<longrightarrow> disk d' (mergeName J r) \<noteq> None)"
proof -
  let ?g = "\<lambda>f. mapF f (read_text j d f)"
  obtain d1 where d1: "run_maps j J n mapF 0 fs d = Inr d1" "\<And>x. creatable d1 x"
    and files: "\<And>i r. i < length fs \<Longrightarrow> 0 \<le> r \<Longrightarrow> disk d1 (reduceName J (int i) r) =
      (let kvs = part n r (?g (fs ! i)) in if kvs = [] then disk d (reduceName J (int i) r) else Some (Json kvs))"
    using run_maps_disk [OF assms(2,1) order_refl assms(3), of fs j mapF] unfolding add_0_left by blast
  let ?d2 = "run_reduces j J (go_len fs) reduceF (go_range n) d1"
  have maps: "disk d1 (reduceName J i r) = map_file n r (?g (fs ! nat i))" if "0 \<le> i" "i < go_len fs" "0 \<le> r" for i r
    using files [of "nat i" r] assms(4) that by (simp add: go_len_def Let_def map_file_def)
  have "concat (map (\<lambda>m. read_records j d1 (reduceName J m i)) (go_range (go_len fs))) =
      part n i (all_pairs j mapF fs d)" if "0 \<le> i" "i < n" for i
    unfolding all_pairs_def using that maps by (intro gathered) (simp add: read_records_def map_file_def)
  then have merges: "disk ?d2 (mergeName J i) = Some (Json (grouped reduceF (part n i (all_pairs j mapF fs d))))"
    if "0 \<le> i" "i < n" for i
    using run_reduces_disk [OF d1(2), of "go_range n"] that by simp
  then have "mergeAll j J n ?d2 = Inr (create (outName J) (Text (report reduceF (all_pairs j mapF fs d))) ?d2)"
    using d1(2) by (intro report_partitions [OF assms(1)]) simp_all
  moreover have "disk ?d2 (reduceName J i r) = disk d1 (reduceName J i r)" if "0 \<le> i" "0 \<le> r" for i r
    using reduceName_mergeName [OF that] by (intro run_reduces_other) auto
  ultimately show ?thesis
    using d1 maps merges by (simp add: Sequential_def run_def seq_phase_def Let_def outName_other [symmetric])
qed

lemma Sequential_result:
  assumes "0 < n" and "\<And>x. creatable d x" and "\<And>f. f \<in> set fs \<Longrightarrow> foreign J f"
    and "\<And>m r. 0 \<le> m \<Longrightarrow> 0 \<le> r \<Longrightarrow> disk d (reduceName J m r) = None"
  shows "\<exists>mr d'. Sequential j J fs n mapF reduceF d = Inr (mr, d') \<and> stats mr = [go_len fs + n] \<and>
    disk d' (outName J) = Some (Text (report reduceF (all_pairs j mapF fs d)))"
  using Sequential_run [OF assms, where j = j and mapF = mapF and reduceF = reduceF] by blast

text \<open>C23: A sequential job computes the grouped reduction of all pairs. With at least one reduce
  task, a disk that can be written, inputs that are no files of the job and no intermediate
  files left over, the job ends and its output file lists every key once, in order, with the
  reduction of all its values in the order of the inputs.\<close>

theorem Sequential_correct:
  assumes "0 < n" and "\<And>x. creatable d x" and "\<And>f. f \<in> set fs \<Longrightarrow> foreign J f"
    and "\<And>m r. 0 \<le> m \<Longrightarrow> 0 \<le> r \<Longrightarrow> disk d (reduceName J m r) = None"
  shows "\<exists>mr d'. Sequential j J fs n mapF reduceF d = Inr (mr, d') \<and> stats mr = [go_len fs + n] \<and>
    disk d' (outName J) = Some (Text (report reduceF (all_pairs j mapF fs d)))"
  using assms by (rule Sequential_result)

text \<open>One input on an otherwise empty disk, with the tasks of a job that counts characters.\<close>

definition one_input :: fsys where
  "one_input = \<lparr>disk = [''in'' \<mapsto> Text ''aba''], creatable = (\<lambda>_. True)\<rparr>"

definition no_codec :: codec where
  "no_codec = \<lparr>json_text = (\<lambda>_. []), json_records = (\<lambda>_. [])\<rparr>"

definition mapChars :: "string \<Rightarrow> string \<Rightarrow> KeyValue list" where
  "mapChars f s = map (\<lambda>c. \<lparr>Key = [c], Value = f\<rparr>) s"

definition countValues :: "string \<Rightarrow> string list \<Rightarrow> string" where
  "countValues k vs = Itoa (go_len vs)"

lemma one_input_ok:
  "creatable one_input x" "f \<in> set [''in''] \<Longrightarrow> foreign J f" "disk one_input (reduceName J m r) = None"
  by (auto simp: one_input_def foreign_def reduceName_def)

theorem Sequential_correct_witness:
  "\<exists>mr d'. Sequential no_codec ''t'' [''in''] 2 mapChars countValues one_input = Inr (mr, d') \<and> stats mr = [3] \<and>
    disk d' ''mrtmp.t'' = Some (Text (''a: 2'' @ [CHR 0x0A] @ ''b: 1'' @ [CHR 0x0A]))"
proof -
  have "report countValues (all_pairs no_codec mapChars [''in''] one_input) =
      ''a: 2'' @ [CHR 0x0A] @ ''b: 1'' @ [CHR 0x0A]" by code_simp
  moreover have "outName ''t'' = ''mrtmp.t''" "go_len [''in''] + 2 = 3" by code_simp+
  ultimately show ?thesis
    using Sequential_correct [where fs = "[''in'']" and n = 2 and J = "''t''" and j = no_codec
      and mapF = mapChars and reduceF = countValues, OF _ one_input_ok] by simp
qed

section \<open>Cleaning up\<close>

lemma remove_all_result:
  assumes "distinct ns"
  shows "remove_all ns d = (if \<exists>n \<in> set ns. disk d n = None then Inl Fatal
    else Inr (d\<lparr>disk := disk d |` (- set ns)\<rparr>))"
  using assms
proof (induction ns arbitrary: d)
  case (Cons n ns)
  then have "(\<exists>m \<in> set ns. ((disk d)(n := None)) m = None) \<longleftrightarrow> (\<exists>m \<in> set ns. disk d m = None)" by auto
  moreover have "((disk d)(n := None)) |` (- set ns) = disk d |` (- set (n # ns))" by (auto simp: restrict_map_def)
  ultimately show ?case using Cons.IH [of "d\<lparr>disk := (disk d)(n := None)\<rparr>"] Cons.prems by (simp add: removeFile_def)
qed (simp add: restrict_map_def)

text \<open>The names that \<^verbatim>\<open>CleanupFiles\<close> removes.\<close>

definition job_files :: "string \<Rightarrow> string list \<Rightarrow> int \<Rightarrow> string list" where
  "job_files J fs n = concat (map (\<lambda>i. map (\<lambda>r. reduceName J i r) (go_range n)) (go_range (go_len fs)))
     @ map (mergeName J) (go_range n) @ [outName J]"

lemma distinct_job_files: "distinct (job_files J fs n)"
proof -
  have "concat (map (\<lambda>i. map (\<lambda>r. reduceName J i r) (go_range n)) (go_range (go_len fs))) =
      map (\<lambda>(i, r). reduceName J i r) (List.product (go_range (go_len fs)) (go_range n))"
    by (simp add: product_concat_map map_concat comp_def)
  moreover have "distinct \<dots>"
    by (auto simp: distinct_map distinct_product inj_on_def dest: reduceName_inj)
  ultimately have "distinct (concat (map (\<lambda>i. map (\<lambda>r. reduceName J i r) (go_range n)) (go_range (go_len fs))))"
    by simp
  moreover have "distinct (map (mergeName J) (go_range n))"
    by (auto simp: distinct_map inj_on_def dest: mergeName_inj)
  ultimately show ?thesis
    using outName_other [of J] reduceName_mergeName [of _ _ _ J] unfolding job_files_def by fastforce
qed

lemma CleanupFiles_result:
  "CleanupFiles J fs n d = (if \<exists>x \<in> set (job_files J fs n). disk d x = None then Inl Fatal
    else Inr (d\<lparr>disk := disk d |` (- set (job_files J fs n))\<rparr>))"
  using remove_all_result [OF distinct_job_files] by (simp add: CleanupFiles_def job_files_def)

text \<open>C34: Cleaning up after a job stops the program unless every map task has a pair for every
  reduce task: \<^verbatim>\<open>doMap\<close> creates no file for an empty partition, and \<^verbatim>\<open>CleanupFiles\<close> removes one
  file for each pair of tasks and calls \<^verbatim>\<open>log.Fatal\<close> on a missing one. Otherwise it removes the
  files of the job and no others. The disk can be written and held no intermediate files of the
  job before.\<close>

theorem cleanup_after_Sequential:
  assumes "0 < n" and "\<And>x. creatable d x" and "\<And>f. f \<in> set fs \<Longrightarrow> foreign J f"
    and "\<And>m r. 0 \<le> m \<Longrightarrow> 0 \<le> r \<Longrightarrow> disk d (reduceName J m r) = None"
  shows "\<exists>mr d'. Sequential j J fs n mapF reduceF d = Inr (mr, d') \<and>
    CleanupFiles J fs n d' =
      (if \<exists>i < length fs. \<exists>r \<in> {0..<n}. part n r (mapF (fs ! i) (read_text j d (fs ! i))) = []
       then Inl Fatal else Inr (d'\<lparr>disk := disk d' |` (- set (job_files J fs n))\<rparr>))"
proof -
  obtain mr d' where d': "Sequential j J fs n mapF reduceF d = Inr (mr, d')"
    and out: "disk d' (outName J) \<noteq> None" "\<And>r. 0 \<le> r \<Longrightarrow> r < n \<Longrightarrow> disk d' (mergeName J r) \<noteq> None"
    and maps: "\<And>i r. 0 \<le> i \<Longrightarrow> i < go_len fs \<Longrightarrow> 0 \<le> r \<Longrightarrow>
      disk d' (reduceName J i r) = map_file n r (mapF (fs ! nat i) (read_text j d (fs ! nat i)))"
    using Sequential_run [OF assms, where j = j and mapF = mapF and reduceF = reduceF]
    by (metis option.distinct(1))
  have "\<not> (\<exists>r \<in> {0..<n}. disk d' (mergeName J r) = None)" using out(2) by (meson atLeastLessThan_iff)
  then have "(\<exists>x \<in> set (job_files J fs n). disk d' x = None) \<longleftrightarrow>
      (\<exists>i \<in> {0..<go_len fs}. \<exists>r \<in> {0..<n}. disk d' (reduceName J i r) = None)"
    using out(1) unfolding job_files_def by (simp del: not_None_eq add: bex_Un)
  also have "\<dots> \<longleftrightarrow> (\<exists>i \<in> {0..<go_len fs}. \<exists>r \<in> {0..<n}. part n r (mapF (fs ! nat i) (read_text j d (fs ! nat i))) = [])"
    using maps by (intro bex_cong refl) (simp add: map_file_def)
  also have "\<dots> \<longleftrightarrow> (\<exists>i < length fs. \<exists>r \<in> {0..<n}. part n r (mapF (fs ! i) (read_text j d (fs ! i))) = [])"
    by (simp add: bex_range)
  finally show ?thesis using d' by (simp only: CleanupFiles_result) simp
qed

theorem cleanup_after_Sequential_witness:
  "\<exists>mr d'. Sequential no_codec ''t'' [''in''] 3 mapChars countValues one_input = Inr (mr, d') \<and>
    CleanupFiles ''t'' [''in''] 3 d' = Inl Fatal"
proof -
  have "[''in''] ! 0 = ''in'' \<and> (part 3 0 (mapChars ''in'' (read_text no_codec one_input ''in'')) = [] \<or>
      part 3 1 (mapChars ''in'' (read_text no_codec one_input ''in'')) = [] \<or>
      part 3 2 (mapChars ''in'' (read_text no_codec one_input ''in'')) = [])" by code_simp
  then have "\<exists>i < length [''in'']. \<exists>r \<in> {0..<3}.
      part 3 r (mapChars ([''in''] ! i) (read_text no_codec one_input ([''in''] ! i))) = []"
    by (intro exI [of _ 0]) fastforce
  then show ?thesis
    using cleanup_after_Sequential [where fs = "[''in'']" and n = 3 and J = "''t''" and j = no_codec
      and mapF = mapChars and reduceF = countValues, OF _ one_input_ok] by (simp only: if_True)
qed

end
