(* ===== verification/MR_Schedule.thy ===== *)
theory MR_Schedule
  imports MR_Job
begin

text \<open>
  Distributed jobs: workers (\<^verbatim>\<open>src/mapreduce/worker.go\<close>), the RPC arguments
  (\<^verbatim>\<open>common_rpc.go\<close>), the master's \<^verbatim>\<open>killWorkers\<close>, and \<^verbatim>\<open>schedule\<close> (\<^verbatim>\<open>schedule.go\<close>) with one
  goroutine per task as a transition system. A call that fails may have run any part of its
  task before the worker stopped, and the worker is not used again.
\<close>

section \<open>Workers\<close>

record DoTaskArgs =
  JobName :: string
  File :: string
  Phase :: jobPhase
  TaskNumber :: int
  NumOtherPhase :: int

record Worker =
  wname :: string
  wMap :: "string \<Rightarrow> string \<Rightarrow> KeyValue list"
  wReduce :: "string \<Rightarrow> string list \<Rightarrow> string"
  nRPC :: int
  nTasks :: int

definition newWorker ::
  "string \<Rightarrow> (string \<Rightarrow> string \<Rightarrow> KeyValue list) \<Rightarrow> (string \<Rightarrow> string list \<Rightarrow> string) \<Rightarrow> int \<Rightarrow> Worker" where
  "newWorker w mapF reduceF n = \<lparr>wname = w, wMap = mapF, wReduce = reduceF, nRPC = n, nTasks = 0\<rparr>"

definition DoTask :: "codec \<Rightarrow> DoTaskArgs \<Rightarrow> Worker \<Rightarrow> fsys \<Rightarrow> mr_stop + fsys" where
  "DoTask j arg wk d =
     (case Phase arg of
        mapPhase \<Rightarrow> doMap j (JobName arg) (TaskNumber arg) (File arg) (NumOtherPhase arg) (wMap wk) d
      | reducePhase \<Rightarrow> Inr (doReduce j (JobName arg) (TaskNumber arg) (NumOtherPhase arg) (wReduce wk) d))"

text \<open>The reply of \<^verbatim>\<open>Shutdown\<close> is the number of tasks.\<close>

definition Shutdown :: "Worker \<Rightarrow> Worker \<times> int" where
  "Shutdown wk = (let res = nTasks wk; wk = wk\<lparr>nRPC := 1\<rparr> in (wk\<lparr>nTasks := nTasks wk - 1\<rparr>, res))"

text \<open>The master collects the replies of the workers that answer.\<close>

definition killWorkers :: "(string \<Rightarrow> int option) \<Rightarrow> Master \<Rightarrow> int list" where
  "killWorkers answer mr = List.map_filter answer (workers mr)"

section \<open>Scheduling a phase\<close>

datatype tstatus = Waiting | Calling string | Finished

record sched =
  master :: Master
  sphase :: jobPhase
  status :: "tstatus list"
  sdisk :: fsys

definition ntasks :: "jobPhase \<Rightarrow> Master \<Rightarrow> int" where
  "ntasks p mr = (case p of mapPhase \<Rightarrow> go_len (files mr) | reducePhase \<Rightarrow> nReduce mr)"

definition nios :: "jobPhase \<Rightarrow> Master \<Rightarrow> int" where
  "nios p mr = (case p of mapPhase \<Rightarrow> nReduce mr | reducePhase \<Rightarrow> go_len (files mr))"

definition task_args :: "jobPhase \<Rightarrow> nat \<Rightarrow> Master \<Rightarrow> DoTaskArgs" where
  "task_args p t mr = \<lparr>JobName = jobName mr,
     File = (case p of mapPhase \<Rightarrow> files mr ! t | reducePhase \<Rightarrow> []), Phase = p,
     TaskNumber = int t, NumOtherPhase = nios p mr\<rparr>"

definition start_phase :: "jobPhase \<Rightarrow> Master \<Rightarrow> fsys \<Rightarrow> sched" where
  "start_phase p mr d = \<lparr>master = mr, sphase = p, status = replicate (nat (ntasks p mr)) Waiting, sdisk = d\<rparr>"

text \<open>What a worker leaves behind that stops after \<open>k\<close> records.\<close>

definition partial_task :: "codec \<Rightarrow> nat \<Rightarrow> DoTaskArgs \<Rightarrow> Worker \<Rightarrow> fsys \<Rightarrow> fsys" where
  "partial_task j k arg wk d =
     (case Phase arg of
        mapPhase \<Rightarrow> emit (JobName arg) (TaskNumber arg) (NumOtherPhase arg) []
          (take k (wMap wk (File arg) (read_text j d (File arg)))) d
      | reducePhase \<Rightarrow>
          (if k = 0 then d
           else create (mergeName (JobName arg) (TaskNumber arg)) (Json (take (k - 1) (grouped (wReduce wk)
             (concat (map (\<lambda>m. read_records j d (reduceName (JobName arg) m (TaskNumber arg)))
               (go_range (NumOtherPhase arg))))))) d))"

datatype sevent = SRegister string | SGrab nat nat | SDone nat | SFail nat nat

fun sstep ::
  "codec \<Rightarrow> (string \<Rightarrow> string \<Rightarrow> KeyValue list) \<Rightarrow> (string \<Rightarrow> string list \<Rightarrow> string) \<Rightarrow>
     sevent \<Rightarrow> sched \<Rightarrow> sched option" where
  "sstep j mapF reduceF (SRegister w) s = Some (s\<lparr>master := Register w (master s)\<rparr>)"
| "sstep j mapF reduceF (SGrab t k) s =
     (if t < length (status s) \<and> status s ! t = Waiting \<and> k < length (ready (master s))
      then Some (s\<lparr>status := (status s)[t := Calling (ready (master s) ! k)],
        master := (master s)\<lparr>ready := take k (ready (master s)) @ drop (Suc k) (ready (master s))\<rparr>\<rparr>)
      else None)"
| "sstep j mapF reduceF (SDone t) s =
     (if t < length (status s)
      then (case status s ! t of
          Calling w \<Rightarrow>
            (case DoTask j (task_args (sphase s) t (master s)) (newWorker w mapF reduceF 0) (sdisk s) of
               Inl e \<Rightarrow> None
             | Inr d \<Rightarrow> Some (s\<lparr>status := (status s)[t := Finished], sdisk := d,
                 master := (master s)\<lparr>ready := ready (master s) @ [w]\<rparr>\<rparr>))
        | _ \<Rightarrow> None)
      else None)"
| "sstep j mapF reduceF (SFail t k) s =
     (if t < length (status s)
      then (case status s ! t of
          Calling w \<Rightarrow> Some (s\<lparr>status := (status s)[t := Waiting],
            sdisk := partial_task j k (task_args (sphase s) t (master s)) (newWorker w mapF reduceF 0) (sdisk s)\<rparr>)
        | _ \<Rightarrow> None)
      else None)"

section \<open>The map phase\<close>

text \<open>
  The disk agrees with the run of all finished tasks: their files are complete, the others
  may hold a part, and partitions without pairs are untouched.
\<close>

definition map_inv ::
  "codec \<Rightarrow> (string \<Rightarrow> string \<Rightarrow> KeyValue list) \<Rightarrow> fsys \<Rightarrow> sched \<Rightarrow> bool" where
  "map_inv j mapF d0 s \<longleftrightarrow> sphase s = mapPhase \<and> (\<forall>x. creatable (sdisk s) x) \<and>
     length (status s) = length (files (master s)) \<and>
     (\<forall>x. foreign (jobName (master s)) x \<longrightarrow> disk (sdisk s) x = disk d0 x) \<and>
     (\<forall>t r. t < length (files (master s)) \<longrightarrow> 0 \<le> r \<longrightarrow>
        (let kvs = part (nReduce (master s)) r (mapF (files (master s) ! t) (read_text j d0 (files (master s) ! t)));
             c = disk (sdisk s) (reduceName (jobName (master s)) (int t) r)
         in (kvs = [] \<longrightarrow> c = disk d0 (reduceName (jobName (master s)) (int t) r)) \<and>
            (kvs \<noteq> [] \<longrightarrow> status s ! t = Finished \<longrightarrow> c = Some (Json kvs))))"

definition job_fixed :: "Master \<Rightarrow> Master \<Rightarrow> bool" where
  "job_fixed mr mr' \<longleftrightarrow> jobName mr' = jobName mr \<and> files mr' = files mr \<and> nReduce mr' = nReduce mr"

lemma sstep_fixed: "sstep j mapF reduceF ev s = Some s' \<Longrightarrow> job_fixed (master s) (master s') \<and> sphase s' = sphase s"
  by (cases ev) (auto simp: job_fixed_def Register_def split: if_splits tstatus.splits sum.splits)

lemma exec_fixed:
  "exec (sstep j mapF reduceF) evs s = Some s' \<Longrightarrow> job_fixed (master s) (master s') \<and> sphase s' = sphase s"
proof (induction evs arbitrary: s)
  case (Cons ev evs)
  then obtain s1 where s1: "sstep j mapF reduceF ev s = Some s1" "exec (sstep j mapF reduceF) evs s1 = Some s'"
    by (auto split: option.splits)
  from sstep_fixed [OF s1(1)] Cons.IH [OF s1(2)] show ?case by (simp add: job_fixed_def)
qed (simp add: job_fixed_def)

text \<open>Running the pairs of a task, or a part of them, on the disk.\<close>

lemma map_inv_emit:
  assumes inv: "map_inv j mapF d0 s" and n: "0 < nReduce (master s)" and t: "t < length (files (master s))"
    and f: "foreign (jobName (master s)) (files (master s) ! t)"
    and kvs: "kvs = mapF (files (master s) ! t) (read_text j (sdisk s) (files (master s) ! t))"
    and s': "sphase s' = sphase s" "master s' = (master s)\<lparr>ready := rd\<rparr>" "status s' = (status s)[t := st]"
      "sdisk s' = emit (jobName (master s)) (int t) (nReduce (master s)) [] (take k kvs) (sdisk s)"
    and full: "st = Finished \<Longrightarrow> length kvs \<le> k"
  shows "map_inv j mapF d0 s'"
proof -
  let ?J = "jobName (master s)" and ?n = "nReduce (master s)" and ?fs = "files (master s)"
  have cr: "creatable (sdisk s) x" for x using inv by (simp add: map_inv_def)
  have "disk (sdisk s) (?fs ! t) = disk d0 (?fs ! t)" using inv f by (simp add: map_inv_def)
  then have kvs0: "kvs = mapF (?fs ! t) (read_text j d0 (?fs ! t))" using kvs read_text_cong by metis
  have own: "disk (sdisk s') (reduceName ?J (int t) r) = (if part ?n r (take k kvs) = []
      then disk (sdisk s) (reduceName ?J (int t) r) else Some (Json (part ?n r (take k kvs))))" if "0 \<le> r" for r
    unfolding s'(4) using that by (intro emit_new [OF cr n]) simp_all
  have other: "disk (sdisk s') (reduceName ?J (int u) r) = disk (sdisk s) (reduceName ?J (int u) r)"
    if "0 \<le> r" "u \<noteq> t" for u r
    unfolding s'(4) using that by (intro emit_task_other [OF n]) simp_all
  have for': "disk (sdisk s') x = disk (sdisk s) x" if "foreign ?J x" for x
    unfolding s'(4) using that by (intro emit_foreign [OF n]) simp_all
  have sub: "part ?n r (take k kvs) = []" if "part ?n r kvs = []" for r
    using that by (auto simp: part_def filter_empty_conv dest: in_set_takeD)
  have len: "length (status s') = length ?fs" "length (status s) = length ?fs"
    using inv s'(3) by (simp_all add: map_inv_def)
  have task: "let kvs = part ?n r (mapF (?fs ! u) (read_text j d0 (?fs ! u)));
      c = disk (sdisk s') (reduceName ?J (int u) r)
    in (kvs = [] \<longrightarrow> c = disk d0 (reduceName ?J (int u) r)) \<and>
       (kvs \<noteq> [] \<longrightarrow> status s' ! u = Finished \<longrightarrow> c = Some (Json kvs))" if u: "u < length ?fs" "0 \<le> r" for u r
  proof -
    let ?k = "part ?n r (mapF (?fs ! u) (read_text j d0 (?fs ! u)))"
    have IH: "?k = [] \<longrightarrow> disk (sdisk s) (reduceName ?J (int u) r) = disk d0 (reduceName ?J (int u) r)"
      "?k \<noteq> [] \<longrightarrow> status s ! u = Finished \<longrightarrow> disk (sdisk s) (reduceName ?J (int u) r) = Some (Json ?k)"
      using inv u by (simp_all add: map_inv_def Let_def)
    show ?thesis
    proof (cases "u = t")
      case True
      then show ?thesis using own [OF u(2)] IH kvs0 sub [of r] full t len s'(3) by (auto simp: Let_def)
    next
      case False
      then show ?thesis using other [OF u(2) False] IH s'(3) by (simp add: Let_def)
    qed
  qed
  have "sphase s = mapPhase" "\<And>x. foreign ?J x \<Longrightarrow> disk (sdisk s) x = disk d0 x"
    "All (creatable (sdisk s))"
    using inv unfolding map_inv_def by blast+
  then show ?thesis
    using task len for' unfolding map_inv_def by (simp add: s'(1,2,4))
qed

lemma finished_update: "xs[t := Calling w] ! u = Finished \<Longrightarrow> xs ! u = Finished"
  by (cases "t < length xs"; cases "u = t") (simp_all add: list_update_beyond)

lemma map_inv_step:
  assumes inv: "map_inv j mapF d0 s" and n: "0 < nReduce (master s)"
    and f: "\<And>f. f \<in> set (files (master s)) \<Longrightarrow> foreign (jobName (master s)) f"
    and st: "sstep j mapF reduceF ev s = Some s'"
  shows "map_inv j mapF d0 s'"
proof -
  have ph: "sphase s = mapPhase" and len: "length (status s) = length (files (master s))"
    using inv by (simp_all add: map_inv_def)
  show ?thesis
  proof (cases ev)
    case (SRegister w)
    then show ?thesis using inv st by (auto simp: map_inv_def Register_def)
  next
    case (SGrab t k)
    then have "status s' = (status s)[t := Calling (ready (master s) ! k)]" "sdisk s' = sdisk s"
      "sphase s' = sphase s" "master s' = (master s)\<lparr>ready := take k (ready (master s)) @ drop (Suc k) (ready (master s))\<rparr>"
      "status s ! t = Waiting"
      using st by (auto split: if_splits)
    then show ?thesis
      using inv finished_update unfolding map_inv_def by (auto simp: Let_def)
  next
    case (SDone t)
    then obtain w d where w: "t < length (status s)" "status s ! t = Calling w"
      "DoTask j (task_args (sphase s) t (master s)) (newWorker w mapF reduceF 0) (sdisk s) = Inr d"
      "s' = s\<lparr>status := (status s)[t := Finished], sdisk := d, master := (master s)\<lparr>ready := ready (master s) @ [w]\<rparr>\<rparr>"
      using st by (auto split: if_splits tstatus.splits sum.splits)
    let ?kvs = "mapF (files (master s) ! t) (read_text j (sdisk s) (files (master s) ! t))"
    have "d = emit (jobName (master s)) (int t) (nReduce (master s)) [] (take (length ?kvs) ?kvs) (sdisk s)"
      using w(3) n by (simp add: DoTask_def task_args_def nios_def newWorker_def ph doMap_eq)
    then show ?thesis
      using w(1,4) len f
      by (intro map_inv_emit [OF inv n _ _ refl, where t = t and s' = s' and rd = "ready (master s) @ [w]"
        and st = Finished and k = "length ?kvs"]) simp_all
  next
    case (SFail t k)
    then obtain w where w: "t < length (status s)"
      "s' = s\<lparr>status := (status s)[t := Waiting],
        sdisk := partial_task j k (task_args (sphase s) t (master s)) (newWorker w mapF reduceF 0) (sdisk s)\<rparr>"
      using st by (auto split: if_splits tstatus.splits)
    then show ?thesis
      using len f
      by (intro map_inv_emit [OF inv n _ _ refl, where t = t and s' = s' and rd = "ready (master s)"
        and st = Waiting and k = k])
        (simp_all add: partial_task_def task_args_def nios_def newWorker_def ph)
  qed
qed

definition sched_step ::
  "codec \<Rightarrow> (string \<Rightarrow> string \<Rightarrow> KeyValue list) \<Rightarrow> (string \<Rightarrow> string list \<Rightarrow> string) \<Rightarrow> sched \<Rightarrow> sched \<Rightarrow> bool" where
  "sched_step j mapF reduceF s t \<longleftrightarrow> (\<exists>ev. sstep j mapF reduceF ev s = Some t)"

text \<open>A job that can be run: reduce tasks, inputs of its own and a disk that can be written.\<close>

definition runnable :: "Master \<Rightarrow> fsys \<Rightarrow> bool" where
  "runnable mr d \<longleftrightarrow> 0 < nReduce mr \<and> (\<forall>x. creatable d x) \<and> (\<forall>f \<in> set (files mr). foreign (jobName mr) f)"

definition phase_init :: "jobPhase \<Rightarrow> fsys \<Rightarrow> sched \<Rightarrow> bool" where
  "phase_init p d s \<longleftrightarrow> (\<exists>mr. s = start_phase p mr d \<and> runnable mr d)"

lemma runnable_fixed: "job_fixed mr mr' \<Longrightarrow> runnable mr' d = runnable mr d"
  by (simp add: job_fixed_def runnable_def)

interpretation map_sched: invariant_system "phase_init mapPhase d0" "sched_step j mapF reduceF"
  "\<lambda>s. runnable (master s) d0 \<and> map_inv j mapF d0 s" for j mapF reduceF d0
proof unfold_locales
  show "runnable (master s) d0 \<and> map_inv j mapF d0 s" if "phase_init mapPhase d0 s" for s
    using that by (auto simp: phase_init_def start_phase_def map_inv_def ntasks_def runnable_def go_len_def Let_def)
  show "runnable (master t) d0 \<and> map_inv j mapF d0 t"
    if st: "sched_step j mapF reduceF s t" and ok: "runnable (master s) d0 \<and> map_inv j mapF d0 s" for s t
  proof -
    obtain ev where ev: "sstep j mapF reduceF ev s = Some t" using st by (auto simp: sched_step_def)
    have "map_inv j mapF d0 t" using ok by (intro map_inv_step [OF _ _ _ ev]) (auto simp: runnable_def)
    then show ?thesis using ok runnable_fixed sstep_fixed [OF ev] by blast
  qed
qed

section \<open>The reduce phase\<close>

definition reduce_out ::
  "codec \<Rightarrow> (string \<Rightarrow> string list \<Rightarrow> string) \<Rightarrow> Master \<Rightarrow> fsys \<Rightarrow> int \<Rightarrow> KeyValue list" where
  "reduce_out j reduceF mr d r = grouped reduceF
     (concat (map (\<lambda>m. read_records j d (reduceName (jobName mr) m r)) (go_range (go_len (files mr)))))"

definition reduce_inv ::
  "codec \<Rightarrow> (string \<Rightarrow> string list \<Rightarrow> string) \<Rightarrow> fsys \<Rightarrow> sched \<Rightarrow> bool" where
  "reduce_inv j reduceF d0 s \<longleftrightarrow> sphase s = reducePhase \<and> (\<forall>x. creatable (sdisk s) x) \<and>
     length (status s) = nat (nReduce (master s)) \<and>
     (\<forall>x. (\<forall>r. 0 \<le> r \<longrightarrow> x \<noteq> mergeName (jobName (master s)) r) \<longrightarrow> disk (sdisk s) x = disk d0 x) \<and>
     (\<forall>t < length (status s). status s ! t = Finished \<longrightarrow>
        disk (sdisk s) (mergeName (jobName (master s)) (int t)) =
          Some (Json (reduce_out j reduceF (master s) d0 (int t))))"

lemma reduce_inv_write:
  assumes inv: "reduce_inv j reduceF d0 s" and t: "t < length (status s)"
    and s': "sphase s' = sphase s" "master s' = (master s)\<lparr>ready := rd\<rparr>" "status s' = (status s)[t := st]"
      "sdisk s' = create (mergeName (jobName (master s)) (int t)) (Json kvs) (sdisk s) \<or> sdisk s' = sdisk s \<and> st \<noteq> Finished"
    and full: "st = Finished \<Longrightarrow> kvs = reduce_out j reduceF (master s) d0 (int t)"
  shows "reduce_inv j reduceF d0 s'"
proof -
  let ?J = "jobName (master s)"
  have cr: "\<forall>x. creatable (sdisk s') x" "creatable (sdisk s) (mergeName ?J (int t))"
    using inv s'(4) unfolding reduce_inv_def by auto
  have other: "disk (sdisk s') x = disk (sdisk s) x" if "x \<noteq> mergeName ?J (int t)" for x
    using s'(4) that by auto
  have own: "disk (sdisk s') (mergeName ?J (int t)) = Some (Json kvs)" if "st = Finished"
    using s'(4) that cr(2) by auto
  have out: "reduce_out j reduceF (master s') d0 r = reduce_out j reduceF (master s) d0 r" for r
    using s'(2) by (simp add: reduce_out_def)
  have "disk (sdisk s') (mergeName ?J (int u)) = Some (Json (reduce_out j reduceF (master s) d0 (int u)))"
    if "u < length (status s)" "status s' ! u = Finished" for u
  proof (cases "u = t")
    case True
    then show ?thesis using that own full s'(3) by simp
  next
    case False
    then have "mergeName ?J (int u) \<noteq> mergeName ?J (int t)" using mergeName_inj by force
    then show ?thesis using that other inv s'(3) False by (simp add: reduce_inv_def)
  qed
  moreover have "disk (sdisk s') x = disk d0 x" if "\<forall>r. 0 \<le> r \<longrightarrow> x \<noteq> mergeName ?J r" for x
    using that other [of x] inv by (simp add: reduce_inv_def)
  ultimately show ?thesis
    using inv cr(1) s'(1-3) out unfolding reduce_inv_def by simp
qed

lemma reduce_inv_step:
  assumes inv: "reduce_inv j reduceF d0 s" and st: "sstep j mapF reduceF ev s = Some s'"
  shows "reduce_inv j reduceF d0 s'"
proof -
  have ph: "sphase s = reducePhase" using inv by (simp add: reduce_inv_def)
  have same: "concat (map (\<lambda>m. read_records j (sdisk s) (reduceName (jobName (master s)) m (int t)))
      (go_range (go_len (files (master s))))) =
    concat (map (\<lambda>m. read_records j d0 (reduceName (jobName (master s)) m (int t))) (go_range (go_len (files (master s)))))" for t
  proof (intro arg_cong [of _ _ concat] map_cong refl)
    fix m assume "m \<in> set (go_range (go_len (files (master s))))"
    then have "\<forall>r. 0 \<le> r \<longrightarrow> reduceName (jobName (master s)) m (int t) \<noteq> mergeName (jobName (master s)) r"
      using reduceName_mergeName by auto
    then show "read_records j (sdisk s) (reduceName (jobName (master s)) m (int t)) =
        read_records j d0 (reduceName (jobName (master s)) m (int t))"
      using inv by (simp add: reduce_inv_def read_records_def)
  qed
  show ?thesis
  proof (cases ev)
    case (SRegister w)
    then show ?thesis using inv st by (auto simp: reduce_inv_def Register_def reduce_out_def)
  next
    case (SGrab t k)
    then show ?thesis
      using inv st
      by (intro reduce_inv_write [OF inv, where t = t and st = "Calling (ready (master s) ! k)"
        and rd = "take k (ready (master s)) @ drop (Suc k) (ready (master s))"]) (auto split: if_splits)
  next
    case (SDone t)
    then obtain w d where w: "t < length (status s)" "status s ! t = Calling w"
      "DoTask j (task_args (sphase s) t (master s)) (newWorker w mapF reduceF 0) (sdisk s) = Inr d"
      "s' = s\<lparr>status := (status s)[t := Finished], sdisk := d, master := (master s)\<lparr>ready := ready (master s) @ [w]\<rparr>\<rparr>"
      using st by (auto split: if_splits tstatus.splits sum.splits)
    have "d = create (mergeName (jobName (master s)) (int t)) (Json (reduce_out j reduceF (master s) d0 (int t))) (sdisk s)"
      using w(3) by (simp add: DoTask_def task_args_def nios_def newWorker_def ph doReduce_eq reduce_out_def same)
    then show ?thesis
      using w(1,4) by (intro reduce_inv_write [OF inv, where t = t and st = Finished
        and rd = "ready (master s) @ [w]"]) auto
  next
    case (SFail t k)
    then obtain w where w: "t < length (status s)"
      "s' = s\<lparr>status := (status s)[t := Waiting],
        sdisk := partial_task j k (task_args (sphase s) t (master s)) (newWorker w mapF reduceF 0) (sdisk s)\<rparr>"
      using st by (auto split: if_splits tstatus.splits)
    then show ?thesis
      by (intro reduce_inv_write [OF inv, where t = t and st = Waiting and rd = "ready (master s)"
          and kvs = "take (k - 1) (reduce_out j reduceF (master s) d0 (int t))"])
        (auto simp: partial_task_def task_args_def nios_def newWorker_def ph reduce_out_def same)
  qed
qed

interpretation reduce_sched: invariant_system "phase_init reducePhase d0" "sched_step j mapF reduceF"
  "\<lambda>s. runnable (master s) d0 \<and> reduce_inv j reduceF d0 s" for j mapF reduceF d0
proof unfold_locales
  show "runnable (master s) d0 \<and> reduce_inv j reduceF d0 s" if "phase_init reducePhase d0 s" for s
    using that by (auto simp: phase_init_def start_phase_def reduce_inv_def ntasks_def runnable_def)
  show "runnable (master t) d0 \<and> reduce_inv j reduceF d0 t"
    if st: "sched_step j mapF reduceF s t" and ok: "runnable (master s) d0 \<and> reduce_inv j reduceF d0 s" for s t
  proof -
    obtain ev where ev: "sstep j mapF reduceF ev s = Some t" using st by (auto simp: sched_step_def)
    have "reduce_inv j reduceF d0 t" using ok reduce_inv_step [OF _ ev] by blast
    then show ?thesis using ok runnable_fixed sstep_fixed [OF ev] by blast
  qed
qed

section \<open>Distributed jobs\<close>

definition phase_done :: "sched \<Rightarrow> bool" where
  "phase_done s \<longleftrightarrow> list_all (\<lambda>x. x = Finished) (status s)"

lemma exec_phase:
  assumes "exec (sstep j mapF reduceF) evs (start_phase p mr d) = Some s" and "runnable mr d"
  shows "reachable (phase_init p d) (sched_step j mapF reduceF) s"
proof (rule exec_reachable [OF assms(1)])
  show "reachable (phase_init p d) (sched_step j mapF reduceF) (start_phase p mr d)"
    using assms(2) by (intro reach_init) (auto simp: phase_init_def)
qed (auto simp: sched_step_def)

text \<open>After the map phase every intermediate file reads as its partition.\<close>

lemma map_phase_files:
  assumes inv: "map_inv j mapF d0 s" and don: "phase_done s" and i: "0 \<le> i" "i < go_len (files (master s))" "0 \<le> r"
    and new: "disk d0 (reduceName (jobName (master s)) i r) = None"
  shows "read_records j (sdisk s) (reduceName (jobName (master s)) i r) =
    part (nReduce (master s)) r (mapF (files (master s) ! nat i) (read_text j d0 (files (master s) ! nat i)))"
proof -
  let ?kvs = "part (nReduce (master s)) r (mapF (files (master s) ! nat i) (read_text j d0 (files (master s) ! nat i)))"
  have len: "nat i < length (files (master s))" using i by (simp add: go_len_def)
  then have "status s ! nat i = Finished"
    using inv don by (simp add: map_inv_def phase_done_def list_all_length)
  then have "disk (sdisk s) (reduceName (jobName (master s)) i r) =
      (if ?kvs = [] then disk d0 (reduceName (jobName (master s)) i r) else Some (Json ?kvs))"
    using inv len i(1,3) unfolding map_inv_def Let_def by (metis int_nat_eq)
  then show ?thesis using new by (rule read_part)
qed

text \<open>
  Whatever workers register, however tasks are assigned, and however often a call fails after any
  part of its task was done, if all map tasks and then all reduce tasks have been reported done,
  the merged output is the grouped reduction of all pairs.
\<close>

lemma phases_merge:
  assumes "runnable mr d" and "\<And>m r. 0 \<le> m \<Longrightarrow> 0 \<le> r \<Longrightarrow> disk d (reduceName (jobName mr) m r) = None"
    and "exec (sstep j mapF reduceF) evs1 (start_phase mapPhase mr d) = Some s1" and "phase_done s1"
    and "exec (sstep j mapF reduceF) evs2 (start_phase reducePhase (master s1) (sdisk s1)) = Some s2"
    and "phase_done s2"
  shows "\<exists>d'. mergeAll j (jobName mr) (nReduce mr) (sdisk s2) = Inr d' \<and>
    disk d' (outName (jobName mr)) = Some (Text (report reduceF (all_pairs j mapF (files mr) d)))"
proof -
  let ?J = "jobName mr" and ?n = "nReduce mr"
  have fix1: "jobName (master s1) = ?J" "files (master s1) = files mr" "nReduce (master s1) = ?n"
    using exec_fixed [OF assms(3)] by (simp_all add: job_fixed_def start_phase_def)
  have inv1: "map_inv j mapF d s1"
    using map_sched.reachable_inv [OF exec_phase [OF assms(3,1)]] by blast
  then have run1: "runnable (master s1) (sdisk s1)"
    using assms(1) unfolding runnable_def fix1 map_inv_def by blast
  have fix2: "jobName (master s2) = ?J" "files (master s2) = files mr" "nReduce (master s2) = ?n"
    using exec_fixed [OF assms(5)] fix1 by (simp_all add: job_fixed_def start_phase_def)
  have inv2: "reduce_inv j reduceF (sdisk s1) s2"
    using reduce_sched.reachable_inv [OF exec_phase [OF assms(5) run1]] by blast
  have n: "0 < ?n" using assms(1) by (simp add: runnable_def)
  have "concat (map (\<lambda>m. read_records j (sdisk s1) (reduceName ?J m i)) (go_range (go_len (files mr)))) =
      part ?n i (all_pairs j mapF (files mr) d)" if "0 \<le> i" for i
    unfolding all_pairs_def
    using map_phase_files [OF inv1 assms(4) _ _ that] assms(2) [OF _ that] unfolding fix1
    by (intro gathered) blast
  then have out: "reduce_out j reduceF (master s2) (sdisk s1) i = grouped reduceF (part ?n i (all_pairs j mapF (files mr) d))"
    if "0 \<le> i" for i
    using that by (simp add: reduce_out_def fix2)
  have "disk (sdisk s2) (mergeName ?J i) = Some (Json (grouped reduceF (part ?n i (all_pairs j mapF (files mr) d))))"
    if "0 \<le> i" "i < ?n" for i
  proof -
    have "nat i < length (status s2)" using inv2 that fix2 by (simp add: reduce_inv_def)
    moreover from this have "status s2 ! nat i = Finished"
      using assms(6) by (simp add: phase_done_def list_all_length)
    ultimately have "disk (sdisk s2) (mergeName (jobName (master s2)) (int (nat i))) =
        Some (Json (reduce_out j reduceF (master s2) (sdisk s1) (int (nat i))))"
      using inv2 unfolding reduce_inv_def by blast
    then show ?thesis using that(1) out fix2(1) by simp
  qed
  moreover have cr: "creatable (sdisk s2) (outName ?J)" using inv2 unfolding reduce_inv_def by blast
  ultimately have "mergeAll j ?J ?n (sdisk s2) =
      Inr (create (outName ?J) (Text (report reduceF (all_pairs j mapF (files mr) d))) (sdisk s2))"
    using n by (intro report_partitions)
  then show ?thesis using cr by simp
qed

text \<open>
  Two workers; the call of the first for the map task fails after one record, the second runs it
  and both reduce tasks.
\<close>

definition demo_job :: Master where
  "demo_job = (newMaster ''master'')\<lparr>lis := Listening, jobName := ''t'', files := [''in''], nReduce := 2\<rparr>"

definition demo_maps :: sched where
  "demo_maps = the (exec (sstep no_codec mapChars countValues)
     [SRegister ''w1'', SRegister ''w2'', SGrab 0 0, SFail 0 1, SGrab 0 0, SDone 0]
     (start_phase mapPhase demo_job one_input))"

definition demo_reduces :: sched where
  "demo_reduces = the (exec (sstep no_codec mapChars countValues) [SGrab 1 0, SDone 1, SGrab 0 0, SDone 0]
     (start_phase reducePhase (master demo_maps) (sdisk demo_maps)))"

lemma demo_runs:
  "runnable demo_job one_input"
  "exec (sstep no_codec mapChars countValues)
     [SRegister ''w1'', SRegister ''w2'', SGrab 0 0, SFail 0 1, SGrab 0 0, SDone 0]
     (start_phase mapPhase demo_job one_input) = Some demo_maps"
  "phase_done demo_maps"
  "exec (sstep no_codec mapChars countValues) [SGrab 1 0, SDone 1, SGrab 0 0, SDone 0]
     (start_phase reducePhase (master demo_maps) (sdisk demo_maps)) = Some demo_reduces"
  "phase_done demo_reduces"
proof -
  show "runnable demo_job one_input"
    using one_input_ok by (simp add: runnable_def demo_job_def newMaster_def)
  have "\<not> Option.is_none (exec (sstep no_codec mapChars countValues)
     [SRegister ''w1'', SRegister ''w2'', SGrab 0 0, SFail 0 1, SGrab 0 0, SDone 0]
     (start_phase mapPhase demo_job one_input))" by code_simp
  then show "exec (sstep no_codec mapChars countValues)
     [SRegister ''w1'', SRegister ''w2'', SGrab 0 0, SFail 0 1, SGrab 0 0, SDone 0]
     (start_phase mapPhase demo_job one_input) = Some demo_maps"
    unfolding demo_maps_def by (simp add: Option.is_none_def)
  have "\<not> Option.is_none (exec (sstep no_codec mapChars countValues) [SGrab 1 0, SDone 1, SGrab 0 0, SDone 0]
     (start_phase reducePhase (master demo_maps) (sdisk demo_maps)))" by code_simp
  then show "exec (sstep no_codec mapChars countValues) [SGrab 1 0, SDone 1, SGrab 0 0, SDone 0]
     (start_phase reducePhase (master demo_maps) (sdisk demo_maps)) = Some demo_reduces"
    unfolding demo_reduces_def by (simp add: Option.is_none_def)
  show "phase_done demo_maps" by code_simp
  show "phase_done demo_reduces" by code_simp
qed

section \<open>Completion\<close>

lemma DoTask_runs:
  "0 < nReduce (master s) \<Longrightarrow> \<exists>d. DoTask j (task_args (sphase s) t (master s)) (newWorker w mapF reduceF 0) (sdisk s) = Inr d"
  by (cases "sphase s") (simp_all add: DoTask_def task_args_def nios_def newWorker_def doMap_eq)

definition unfinished :: "sched \<Rightarrow> nat" where
  "unfinished s = length (filter (\<lambda>x. x \<noteq> Finished) (status s))"

lemma unfinished_update:
  "t < length xs \<Longrightarrow> xs ! t \<noteq> Finished \<Longrightarrow>
     Suc (length (filter (\<lambda>x. x \<noteq> Finished) (xs[t := Finished]))) = length (filter (\<lambda>x. x \<noteq> Finished) xs)"
  by (induction xs arbitrary: t) (auto simp: nth_Cons split: nat.splits)

lemma finish_call:
  assumes "0 < nReduce (master s)" and "t < length (status s)" and "status s ! t = Calling w"
  shows "\<exists>s'. sstep j mapF reduceF (SDone t) s = Some s' \<and> ready (master s') = ready (master s) @ [w] \<and>
    Suc (unfinished s') = unfinished s \<and> nReduce (master s') = nReduce (master s)"
  using DoTask_runs [OF assms(1), of j t w mapF reduceF] assms unfinished_update [of t "status s"]
  by (auto simp: unfinished_def)

lemma grab_next:
  assumes "0 < unfinished s" and "ready (master s) \<noteq> []" and no: "\<not> (\<exists>t < length (status s). \<exists>w. status s ! t = Calling w)"
  shows "\<exists>t w s'. sstep j mapF reduceF (SGrab t 0) s = Some s' \<and> t < length (status s') \<and> status s' ! t = Calling w \<and>
    unfinished s' = unfinished s \<and> nReduce (master s') = nReduce (master s)"
proof -
  have "\<exists>x \<in> set (status s). x \<noteq> Finished"
    using assms(1) by (metis (mono_tags) filter_False length_greater_0_conv unfinished_def)
  then obtain t where t: "t < length (status s)" "status s ! t \<noteq> Finished" by (auto simp: in_set_conv_nth)
  then have w: "status s ! t = Waiting" using no by (cases "status s ! t") auto
  let ?w = "ready (master s) ! 0"
  let ?s = "s\<lparr>status := (status s)[t := Calling ?w], master := (master s)\<lparr>ready := drop (Suc 0) (ready (master s))\<rparr>\<rparr>"
  have "sstep j mapF reduceF (SGrab t 0) s = Some ?s" using t(1) w assms(2) by simp
  moreover have "unfinished ?s = unfinished s"
    using unfinished_update [of t "status s"] unfinished_update [of t "(status s)[t := Calling ?w]"] t
    by (simp add: unfinished_def)
  ultimately show ?thesis using t(1) by (intro exI [of _ t] exI [of _ ?w] exI [of _ ?s]) simp
qed

text \<open>C31: A phase that has a worker can be completed. From any state in which a worker waits or
  works, there is a run without further failures that finishes all tasks of the phase.\<close>

theorem schedule_can_finish:
  assumes "0 < nReduce (master s)"
    and "ready (master s) \<noteq> [] \<or> (\<exists>t < length (status s). \<exists>w. status s ! t = Calling w)"
  shows "\<exists>evs s'. exec (sstep j mapF reduceF) evs s = Some s' \<and> phase_done s' \<and>
    list_all (\<lambda>ev. case ev of SFail t k \<Rightarrow> False | _ \<Rightarrow> True) evs"
  using assms
proof (induction "unfinished s" arbitrary: s)
  case 0
  then have "phase_done s"
    by (auto simp: unfinished_def phase_done_def list_all_iff filter_empty_conv)
  then show ?case by (intro exI [of _ "[]"]) simp
next
  case (Suc k)
  have call: "\<exists>evs s''. exec (sstep j mapF reduceF) evs s' = Some s'' \<and> phase_done s'' \<and>
      list_all (\<lambda>ev. case ev of SFail t k \<Rightarrow> False | _ \<Rightarrow> True) evs"
    if s': "0 < nReduce (master s')" "unfinished s' = unfinished s" "t < length (status s')" "status s' ! t = Calling w"
    for s' t w
  proof -
    obtain s1 where s1: "sstep j mapF reduceF (SDone t) s' = Some s1" "ready (master s1) = ready (master s') @ [w]"
      "Suc (unfinished s1) = unfinished s'" "nReduce (master s1) = nReduce (master s')"
      using finish_call [OF s'(1,3,4)] by blast
    then obtain evs s'' where "exec (sstep j mapF reduceF) evs s1 = Some s''" "phase_done s''"
      "list_all (\<lambda>ev. case ev of SFail t k \<Rightarrow> False | _ \<Rightarrow> True) evs"
      using Suc.hyps(1) [of s1] Suc.hyps(2) s'(1,2) by auto
    then show ?thesis using s1(1) by (intro exI [of _ "SDone t # evs"]) simp
  qed
  show ?case
  proof (cases "\<exists>t < length (status s). \<exists>w. status s ! t = Calling w")
    case True
    then show ?thesis using call [OF Suc.prems(1) refl] by blast
  next
    case False
    then obtain t w s' where g: "sstep j mapF reduceF (SGrab t 0) s = Some s'" "t < length (status s')" "status s' ! t = Calling w"
      "unfinished s' = unfinished s" "nReduce (master s') = nReduce (master s)"
      using grab_next [of s j mapF reduceF] Suc.hyps(2) Suc.prems(2) by auto
    then obtain evs s'' where "exec (sstep j mapF reduceF) evs s' = Some s''" "phase_done s''"
      "list_all (\<lambda>ev. case ev of SFail t k \<Rightarrow> False | _ \<Rightarrow> True) evs"
      using call [of s' t w] Suc.prems(1) by auto
    then show ?thesis using g(1) by (intro exI [of _ "SGrab t 0 # evs"]) simp
  qed
qed

theorem schedule_can_finish_witness:
  "\<exists>evs s'. exec (sstep no_codec mapChars countValues) evs
      (start_phase mapPhase (Register ''w'' demo_job) one_input) = Some s' \<and> phase_done s' \<and>
    list_all (\<lambda>ev. case ev of SFail t k \<Rightarrow> False | _ \<Rightarrow> True) evs"
  by (rule schedule_can_finish) (simp_all add: start_phase_def demo_job_def newMaster_def Register_def)

end
