(* ===== verification/MR_Apps.thy ===== *)
theory MR_Apps
  imports MR_Schedule
begin

text \<open>
  The two applications of the MapReduce library: word count (\<^verbatim>\<open>src/main/wc.go\<close>) and the
  inverted index (\<^verbatim>\<open>src/main/ii.go\<close>), their map and reduce functions, and what a whole job
  writes.
\<close>

section \<open>Words\<close>

text \<open>\<^verbatim>\<open>unicode.IsLetter\<close> below code 256.\<close>

definition IsLetter :: "char \<Rightarrow> bool" where
  "IsLetter c \<longleftrightarrow> (let n = of_char c :: nat in
     (65 \<le> n \<and> n \<le> 90) \<or> (97 \<le> n \<and> n \<le> 122) \<or> n = 170 \<or> n = 181 \<or> n = 186 \<or>
     (192 \<le> n \<and> n \<le> 214) \<or> (216 \<le> n \<and> n \<le> 246) \<or> 248 \<le> n)"

text \<open>\<^verbatim>\<open>strings.FieldsFunc\<close>: the runs of characters that are no separators.\<close>

fun fields_loop :: "(char \<Rightarrow> bool) \<Rightarrow> string \<Rightarrow> string \<Rightarrow> string list" where
  "fields_loop f cur [] = (if cur = [] then [] else [cur])"
| "fields_loop f cur (c # cs) =
     (if f c then (if cur = [] then fields_loop f [] cs else cur # fields_loop f [] cs)
      else fields_loop f (cur @ [c]) cs)"

definition FieldsFunc :: "string \<Rightarrow> (char \<Rightarrow> bool) \<Rightarrow> string list" where
  "FieldsFunc s f = fields_loop f [] s"

section \<open>Word count\<close>

definition wc_mapF :: "string \<Rightarrow> string \<Rightarrow> KeyValue list" where
  "wc_mapF document v =
     (let words = FieldsFunc v (\<lambda>r. \<not> IsLetter r)
      in map (\<lambda>w. \<lparr>Key = w, Value = ''1''\<rparr>) words)"

text \<open>The sum is an \<^verbatim>\<open>int\<close> of 64 bits.\<close>

definition wc_reduceF :: "string \<Rightarrow> string list \<Rightarrow> string" where
  "wc_reduceF key vs = Itoa (sint (fold (\<lambda>v count. count + word_of_int (Atoi v)) vs (0 :: 64 word)))"

section \<open>Inverted index\<close>

fun ii_loop :: "string \<Rightarrow> string list \<Rightarrow> string list \<Rightarrow> KeyValue list" where
  "ii_loop document alreadyread [] = []"
| "ii_loop document alreadyread (w # ws) =
     (if w \<notin> set alreadyread
      then \<lparr>Key = w, Value = document\<rparr> # ii_loop document (w # alreadyread) ws
      else ii_loop document alreadyread ws)"

definition ii_mapF :: "string \<Rightarrow> string \<Rightarrow> KeyValue list" where
  "ii_mapF document v = ii_loop document [] (FieldsFunc v (\<lambda>r. \<not> IsLetter r))"

definition ii_reduceF :: "string \<Rightarrow> string list \<Rightarrow> string" where
  "ii_reduceF key vs =
     (let docs = sort vs; count = go_len docs in Itoa count @ '' '' @ Join docs CHR '','')"

section \<open>Fields\<close>

lemma fields_loop_concat:
  "\<forall>c \<in> set cur. \<not> f c \<Longrightarrow> concat (fields_loop f cur s) = cur @ filter (\<lambda>c. \<not> f c) s"
  by (induction s arbitrary: cur) simp_all

lemma fields_loop_words:
  "\<forall>c \<in> set cur. \<not> f c \<Longrightarrow> \<forall>w \<in> set (fields_loop f cur s). w \<noteq> [] \<and> (\<forall>c \<in> set w. \<not> f c)"
proof (induction s arbitrary: cur)
  case (Cons a s)
  show ?case
  proof (cases "f a")
    case True
    have "\<forall>w \<in> set (fields_loop f [] s). w \<noteq> [] \<and> (\<forall>c \<in> set w. \<not> f c)" by (rule Cons.IH) simp
    then show ?thesis using True Cons.prems by (cases "cur = []") simp_all
  next
    case False
    have "\<forall>w \<in> set (fields_loop f (cur @ [a]) s). w \<noteq> [] \<and> (\<forall>c \<in> set w. \<not> f c)"
      using False Cons.prems by (intro Cons.IH) auto
    then show ?thesis using False by simp
  qed
qed simp

lemma fields_loop_split:
  "f c \<Longrightarrow> fields_loop f cur (s @ c # t) = fields_loop f cur s @ fields_loop f [] t"
  by (induction s arbitrary: cur) simp_all

text \<open>The words of a text are its maximal runs of letters: they are not empty, consist of letters,
  and together are all letters of the text in order; around a separator the words are those of
  the two sides.\<close>

lemma FieldsFunc_spec:
  "concat (FieldsFunc s f) = filter (\<lambda>c. \<not> f c) s \<and>
   list_all (\<lambda>w. w \<noteq> [] \<and> list_all (\<lambda>c. \<not> f c) w) (FieldsFunc s f) \<and>
   (f c \<longrightarrow> FieldsFunc (s @ c # t) f = FieldsFunc s f @ FieldsFunc t f)"
  using fields_loop_concat [of "[]" f s] fields_loop_words [of "[]" f s] fields_loop_split
  by (simp add: FieldsFunc_def list_all_iff)

section \<open>Counting words\<close>

abbreviation words_of :: "string \<Rightarrow> string list" where
  "words_of s \<equiv> FieldsFunc s (\<lambda>r. \<not> IsLetter r)"

lemma vals_wc: "vals w (map (\<lambda>w. \<lparr>Key = w, Value = ''1''\<rparr>) ws) = replicate (count_list ws w) ''1''"
  by (induction ws) auto

lemma Atoi_one: "Atoi ''1'' = 1"
proof -
  have "Itoa 1 = ''1''" by code_simp
  then show ?thesis using Atoi_Itoa [of 1] by simp
qed

lemma sum_ones:
  "fold (\<lambda>v count. count + word_of_int (Atoi v)) (replicate n ''1'') (x :: 64 word) = x + of_nat n"
proof (induction n arbitrary: x)
  case (Suc n)
  then show ?case by (simp add: Atoi_one ac_simps)
qed simp

lemma wc_reduce_ones: "int n < 2 ^ 63 \<Longrightarrow> wc_reduceF w (replicate n ''1'') = Itoa (int n)"
  unfolding wc_reduceF_def sum_ones by (simp add: signed_of_nat signed_take_bit_int_eq_self)

lemma count_list_le: "count_list xs x \<le> length xs"
  by (induction xs) auto

lemma grouped_wc:
  assumes "int (length ws) < 2 ^ 63"
  shows "grouped wc_reduceF (map (\<lambda>w. \<lparr>Key = w, Value = ''1''\<rparr>) ws) =
    map (\<lambda>w. \<lparr>Key = w, Value = Itoa (int (count_list ws w))\<rparr>) (sorted_list_of_set (set ws))"
proof -
  have "wc_reduceF w (replicate (count_list ws w) ''1'') = Itoa (int (count_list ws w))" for w
    using assms count_list_le [of ws w] by (intro wc_reduce_ones) linarith
  then show ?thesis by (simp add: grouped_def vals_wc image_image)
qed

text \<open>C29: Word count. On a disk that can be written and
  holds no intermediate files of the job from an earlier run, the sequential job of \<^verbatim>\<open>wc.go\<close> ends and writes one line per word of its
  inputs, in order, with the number of times the word occurs in all of them.\<close>

theorem word_count:
  assumes "\<And>x. creatable d x" and "\<And>f. f \<in> set fs \<Longrightarrow> foreign ''wcseq'' f"
    and "\<And>m r. 0 \<le> m \<Longrightarrow> 0 \<le> r \<Longrightarrow> disk d (reduceName ''wcseq'' m r) = None"
    and "ws = concat (map (\<lambda>f. words_of (read_text j d f)) fs)" and "int (length ws) < 2 ^ 63"
  shows "\<exists>mr d'. Sequential j ''wcseq'' fs 3 wc_mapF wc_reduceF d = Inr (mr, d') \<and>
    disk d' ''mrtmp.wcseq'' = Some (Text (concat (map (\<lambda>w. w @ '': '' @ Itoa (int (count_list ws w)) @ [CHR 0x0A])
      (sorted_list_of_set (set ws)))))"
proof -
  have all: "all_pairs j wc_mapF fs d = map (\<lambda>w. \<lparr>Key = w, Value = ''1''\<rparr>) ws"
    unfolding assms(4) by (simp add: all_pairs_def wc_mapF_def map_concat comp_def)
  then have "report wc_reduceF (all_pairs j wc_mapF fs d) =
      concat (map (\<lambda>w. w @ '': '' @ Itoa (int (count_list ws w)) @ [CHR 0x0A]) (sorted_list_of_set (set ws)))"
    by (simp add: report_def grouped_wc [OF assms(5)] comp_def)
  then show ?thesis
    using Sequential_result [where n = 3 and fs = fs and j = j and mapF = wc_mapF and reduceF = wc_reduceF, OF _ assms(1-3)] by (auto simp: outName_def)
qed

text \<open>Two inputs on an otherwise empty disk.\<close>

definition two_inputs :: fsys where
  "two_inputs = \<lparr>disk = [''a'' \<mapsto> Text ''to be, or'', ''b'' \<mapsto> Text ''not to be''], creatable = (\<lambda>_. True)\<rparr>"

lemma two_inputs_ok:
  "creatable two_inputs x" "f \<in> set [''a'', ''b''] \<Longrightarrow> foreign J f"
  "disk two_inputs (reduceName J m r) = None"
  by (auto simp: two_inputs_def foreign_def reduceName_def)

theorem word_count_witness:
  "\<exists>mr d'. Sequential no_codec ''wcseq'' [''a'', ''b''] 3 wc_mapF wc_reduceF two_inputs = Inr (mr, d') \<and>
    disk d' ''mrtmp.wcseq'' = Some (Text (''be: 2'' @ [CHR 0x0A] @ ''not: 1'' @ [CHR 0x0A] @
      ''or: 1'' @ [CHR 0x0A] @ ''to: 2'' @ [CHR 0x0A]))"
proof -
  let ?ws = "[''to'', ''be'', ''or'', ''not'', ''to'', ''be'']"
  have "?ws = concat (map (\<lambda>f. words_of (read_text no_codec two_inputs f)) [''a'', ''b''])" by code_simp
  note word_count [OF two_inputs_ok this]
  moreover have "concat (map (\<lambda>w. w @ '': '' @ Itoa (int (count_list ?ws w)) @ [CHR 0x0A]) (sorted_list_of_set (set ?ws))) =
      ''be: 2'' @ [CHR 0x0A] @ ''not: 1'' @ [CHR 0x0A] @ ''or: 1'' @ [CHR 0x0A] @ ''to: 2'' @ [CHR 0x0A]" by code_simp
  ultimately show ?thesis by simp
qed

section \<open>Indexing words\<close>

lemma vals_ii_loop:
  "vals w (ii_loop f seen ws) = (if w \<in> set ws \<and> w \<notin> set seen then [f] else [])"
  by (induction ws arbitrary: seen) auto

lemma keys_ii_loop: "Key ` set (ii_loop f seen ws) = set ws - set seen"
  by (induction ws arbitrary: seen) auto

lemma vals_concat: "vals w (concat kvss) = concat (map (vals w) kvss)"
  by (induction kvss) simp_all

lemma concat_singletons: "concat (map (\<lambda>x. if P x then [x] else []) xs) = filter P xs"
  by (induction xs) auto

text \<open>The inputs that contain a word.\<close>

definition docs_with :: "codec \<Rightarrow> fsys \<Rightarrow> string list \<Rightarrow> string \<Rightarrow> string list" where
  "docs_with j d fs w = filter (\<lambda>f. w \<in> set (words_of (read_text j d f))) fs"

lemma vals_ii: "vals w (all_pairs j ii_mapF fs d) = docs_with j d fs w"
  by (simp add: all_pairs_def vals_concat comp_def ii_mapF_def vals_ii_loop docs_with_def concat_singletons)

lemma keys_ii: "Key ` set (all_pairs j ii_mapF fs d) = (\<Union>f \<in> set fs. set (words_of (read_text j d f)))"
  by (simp add: all_pairs_def image_UN ii_mapF_def keys_ii_loop)

text \<open>C30: Inverted index. On a disk that can be written and
  holds no intermediate files of the job from an earlier run, the sequential job of \<^verbatim>\<open>ii.go\<close> ends and writes one line per word of its
  inputs, in order, with the number of inputs that contain the word and their names, sorted and
  separated by commas.\<close>

theorem inverted_index:
  assumes "\<And>x. creatable d x" and "\<And>f. f \<in> set fs \<Longrightarrow> foreign ''iiseq'' f"
    and "\<And>m r. 0 \<le> m \<Longrightarrow> 0 \<le> r \<Longrightarrow> disk d (reduceName ''iiseq'' m r) = None"
  shows "\<exists>mr d'. Sequential j ''iiseq'' fs 3 ii_mapF ii_reduceF d = Inr (mr, d') \<and>
    disk d' ''mrtmp.iiseq'' = Some (Text (concat (map (\<lambda>w. w @ '': '' @
        Itoa (go_len (docs_with j d fs w)) @ '' '' @ Join (sort (docs_with j d fs w)) CHR '','' @ [CHR 0x0A])
      (sorted_list_of_set (\<Union>f \<in> set fs. set (words_of (read_text j d f)))))))"
proof -
  have "report ii_reduceF (all_pairs j ii_mapF fs d) = concat (map (\<lambda>w. w @ '': '' @
        Itoa (go_len (docs_with j d fs w)) @ '' '' @ Join (sort (docs_with j d fs w)) CHR '','' @ [CHR 0x0A])
      (sorted_list_of_set (\<Union>f \<in> set fs. set (words_of (read_text j d f)))))"
    by (simp add: report_def grouped_def vals_ii keys_ii ii_reduceF_def Let_def comp_def go_len_def)
  then show ?thesis
    using Sequential_result [where n = 3 and fs = fs and j = j and mapF = ii_mapF and reduceF = ii_reduceF, OF _ assms] by (auto simp: outName_def)
qed

theorem inverted_index_witness:
  "\<exists>mr d'. Sequential no_codec ''iiseq'' [''a'', ''b''] 3 ii_mapF ii_reduceF two_inputs = Inr (mr, d') \<and>
    disk d' ''mrtmp.iiseq'' = Some (Text (''be: 2 a,b'' @ [CHR 0x0A] @ ''not: 1 b'' @ [CHR 0x0A] @
      ''or: 1 a'' @ [CHR 0x0A] @ ''to: 2 a,b'' @ [CHR 0x0A]))"
proof -
  have "concat (map (\<lambda>w. w @ '': '' @ Itoa (go_len (docs_with no_codec two_inputs [''a'', ''b''] w)) @ '' '' @
        Join (sort (docs_with no_codec two_inputs [''a'', ''b''] w)) CHR '','' @ [CHR 0x0A])
      (sorted_list_of_set (\<Union>f \<in> set [''a'', ''b'']. set (words_of (read_text no_codec two_inputs f))))) =
      ''be: 2 a,b'' @ [CHR 0x0A] @ ''not: 1 b'' @ [CHR 0x0A] @ ''or: 1 a'' @ [CHR 0x0A] @ ''to: 2 a,b'' @ [CHR 0x0A]"
    by code_simp
  then show ?thesis using inverted_index [where j = no_codec and fs = "[''a'', ''b'']", OF two_inputs_ok] by simp
qed

end
