(* ===== verification/MR_Master.thy ===== *)
theory MR_Master
  imports MR_Schedule
begin

text \<open>
  Distributed jobs as a whole: the RPC server of the master (\<^verbatim>\<open>src/mapreduce/master_rpc.go\<close>),
  \<^verbatim>\<open>Distributed\<close> of \<^verbatim>\<open>master.go\<close>, and the life of a worker (\<^verbatim>\<open>RunWorker\<close> and \<^verbatim>\<open>register\<close> of
  \<^verbatim>\<open>worker.go\<close>). Whether the operating system lets a server listen and whether a call reaches
  its server are arguments.
\<close>

section \<open>The RPC server of the master\<close>

definition startRPCServer :: "bool \<Rightarrow> Master \<Rightarrow> mr_stop + Master" where
  "startRPCServer listens mr = (if listens then Inr (mr\<lparr>lis := Listening\<rparr>) else Inl Fatal)"

text \<open>Closing the channel a second time panics.\<close>

definition Master_Shutdown :: "Master \<Rightarrow> mr_stop + Master" where
  "Master_Shutdown mr = (if shutdown mr then Inl Panic else Inr (mr\<lparr>shutdown := True, lis := ListenerClosed\<rparr>))"

text \<open>A call of a server that does not listen fails, and a failure is only printed.\<close>

definition stopRPCServer :: "bool \<Rightarrow> Master \<Rightarrow> mr_stop + Master" where
  "stopRPCServer reached mr = (if reached \<and> lis mr = Listening then Master_Shutdown mr else Inr mr)"

text \<open>
  One turn of the loop that accepts connections: whether it goes on, or None while it waits. \<open>r\<close> is
  what \<^verbatim>\<open>Accept\<close> does on an open listener: a connection, an error or nothing yet.
\<close>

definition accept_turn :: "bool option \<Rightarrow> Master \<Rightarrow> bool option" where
  "accept_turn r mr = (if shutdown mr then Some False else if lis mr = Listening then r else Some False)"

text \<open>A worker registers through the server, if it reaches it.\<close>

definition register :: "bool \<Rightarrow> Worker \<Rightarrow> Master \<Rightarrow> Master" where
  "register reached wk mr = (if reached \<and> lis mr = Listening then Register (wname wk) mr else mr)"

section \<open>Distributed\<close>

text \<open>
  \<^verbatim>\<open>schedule\<close> run to its end by the events \<open>evs\<close>; it waits as long as a task is not done.
\<close>

definition schedule ::
  "codec \<Rightarrow> (string \<Rightarrow> string \<Rightarrow> KeyValue list) \<Rightarrow> (string \<Rightarrow> string list \<Rightarrow> string) \<Rightarrow> (jobPhase \<Rightarrow> sevent list) \<Rightarrow>
     jobPhase \<Rightarrow> mstate \<Rightarrow> mr_stop + mstate" where
  "schedule j mapF reduceF evs phase st =
     (case exec (sstep j mapF reduceF) (evs phase) (start_phase phase (fst st) (snd st)) of
        None \<Rightarrow> Inl Stuck
      | Some s \<Rightarrow> if phase_done s then Inr (master s, sdisk s) else Inl Stuck)"

definition finish :: "(string \<Rightarrow> int option) \<Rightarrow> bool \<Rightarrow> mstate \<Rightarrow> mr_stop + mstate" where
  "finish answer reached st =
     (let (mr, d) = st
      in case stopRPCServer reached (mr\<lparr>stats := killWorkers answer mr\<rparr>) of Inl e \<Rightarrow> Inl e | Inr mr \<Rightarrow> Inr (mr, d))"

definition Distributed ::
  "codec \<Rightarrow> (string \<Rightarrow> string \<Rightarrow> KeyValue list) \<Rightarrow> (string \<Rightarrow> string list \<Rightarrow> string) \<Rightarrow> (jobPhase \<Rightarrow> sevent list) \<Rightarrow>
     bool \<Rightarrow> (string \<Rightarrow> int option) \<Rightarrow> bool \<Rightarrow> string \<Rightarrow> string list \<Rightarrow> int \<Rightarrow> string \<Rightarrow> fsys \<Rightarrow> mr_stop + mstate" where
  "Distributed j mapF reduceF evs listens answer reached J fs nreduce m d =
     (case startRPCServer listens (newMaster m) of
        Inl e \<Rightarrow> Inl e
      | Inr mr \<Rightarrow> run j (schedule j mapF reduceF evs) (finish answer reached) J fs nreduce (mr, d))"

text \<open>What the events of \<^verbatim>\<open>schedule\<close> leave of the server.\<close>

lemma sstep_server: "sstep j mapF reduceF ev s = Some s' \<Longrightarrow>
    lis (master s') = lis (master s) \<and> shutdown (master s') = shutdown (master s)"
  by (cases ev) (auto simp: Register_def split: if_splits tstatus.splits sum.splits)

lemma exec_server: "exec (sstep j mapF reduceF) evs s = Some s' \<Longrightarrow>
    lis (master s') = lis (master s) \<and> shutdown (master s') = shutdown (master s)"
proof (induction evs arbitrary: s)
  case (Cons ev evs)
  then obtain s1 where s1: "sstep j mapF reduceF ev s = Some s1" "exec (sstep j mapF reduceF) evs s1 = Some s'"
    by (auto split: option.splits)
  from sstep_server [OF s1(1)] Cons.IH [OF s1(2)] show ?case by simp
qed simp

lemma Distributed_result:
  assumes n: "0 < n" and cr: "\<And>x. creatable d x" and fs: "\<And>f. f \<in> set fs \<Longrightarrow> foreign J f"
    and new: "\<And>i r. 0 \<le> i \<Longrightarrow> 0 \<le> r \<Longrightarrow> disk d (reduceName J i r) = None"
    and mr: "mr = (newMaster m)\<lparr>lis := Listening, jobName := J, files := fs, nReduce := n\<rparr>"
    and s1: "exec (sstep j mapF reduceF) (evs mapPhase) (start_phase mapPhase mr d) = Some s1" "phase_done s1"
    and s2: "exec (sstep j mapF reduceF) (evs reducePhase) (start_phase reducePhase (master s1) (sdisk s1)) = Some s2"
      "phase_done s2"
  shows "\<exists>mr' d'. Distributed j mapF reduceF evs True answer True J fs n m d = Inr (mr', d') \<and>
    disk d' (outName J) = Some (Text (report reduceF (all_pairs j mapF fs d))) \<and>
    stats mr' = List.map_filter answer (workers (master s2)) \<and> accept_turn r mr' = Some False \<and> Wait mr' \<noteq> None"
proof -
  have run: "runnable mr d" using n cr fs by (simp add: runnable_def mr newMaster_def)
  have sel: "jobName mr = J" "nReduce mr = n" "files mr = fs" by (simp_all add: mr newMaster_def)
  have fix2: "jobName (master s2) = J" "nReduce (master s2) = n"
    using exec_fixed [OF s1(1)] exec_fixed [OF s2(1)] by (simp_all add: job_fixed_def start_phase_def mr)
  have srv: "lis (master s2) = Listening" "\<not> shutdown (master s2)"
    using exec_server [OF s1(1)] exec_server [OF s2(1)] by (simp_all add: start_phase_def mr newMaster_def)
  obtain d' where d': "mergeAll j J n (sdisk s2) = Inr d'"
    "disk d' (outName J) = Some (Text (report reduceF (all_pairs j mapF fs d)))"
    using phases_merge [OF run _ s1 s2] new unfolding sel by blast
  have "startRPCServer True (newMaster m) = Inr ((newMaster m)\<lparr>lis := Listening\<rparr>)" by (simp add: startRPCServer_def)
  then show ?thesis
    using s1 s2 srv d' fix2
    by (simp add: Distributed_def run_def schedule_def finish_def stopRPCServer_def Master_Shutdown_def
        accept_turn_def Wait_def killWorkers_def mr)
qed

text \<open>C22: A distributed job computes the same result as a sequential one. On a disk that can be written and
  holds no intermediate files of the job from an earlier run, whatever workers register,
  however tasks are assigned, and however often a call fails after any part of its task was done,
  if both phases end, the job ends: its output file lists every key once, in order, with the
  reduction of all its values, the statistics are the answers of the workers to the shutdown, the
  server of the master has stopped and \<^verbatim>\<open>Wait\<close> returns.\<close>

theorem Distributed_correct:
  assumes n: "0 < n" and cr: "\<And>x. creatable d x" and fs: "\<And>f. f \<in> set fs \<Longrightarrow> foreign J f"
    and new: "\<And>i r. 0 \<le> i \<Longrightarrow> 0 \<le> r \<Longrightarrow> disk d (reduceName J i r) = None"
    and mr: "mr = (newMaster m)\<lparr>lis := Listening, jobName := J, files := fs, nReduce := n\<rparr>"
    and s1: "exec (sstep j mapF reduceF) (evs mapPhase) (start_phase mapPhase mr d) = Some s1" "phase_done s1"
    and s2: "exec (sstep j mapF reduceF) (evs reducePhase) (start_phase reducePhase (master s1) (sdisk s1)) = Some s2"
      "phase_done s2"
  shows "\<exists>mr' d'. Distributed j mapF reduceF evs True answer True J fs n m d = Inr (mr', d') \<and>
    disk d' (outName J) = Some (Text (report reduceF (all_pairs j mapF fs d))) \<and>
    stats mr' = List.map_filter answer (workers (master s2)) \<and> accept_turn r mr' = Some False \<and> Wait mr' \<noteq> None"
  using Distributed_result [where n = n and d = d and fs = fs and J = J, OF n cr fs new mr s1 s2] by blast

definition demo_evs :: "jobPhase \<Rightarrow> sevent list" where
  "demo_evs p = (case p of
      mapPhase \<Rightarrow> [SRegister ''w1'', SRegister ''w2'', SGrab 0 0, SFail 0 1, SGrab 0 0, SDone 0]
    | reducePhase \<Rightarrow> [SGrab 1 0, SDone 1, SGrab 0 0, SDone 0])"

theorem Distributed_correct_witness:
  "\<exists>mr d'. Distributed no_codec mapChars countValues demo_evs True (\<lambda>w. if w = ''w2'' then Some 3 else None) True
      ''t'' [''in''] 2 ''master'' one_input = Inr (mr, d') \<and>
    disk d' ''mrtmp.t'' = Some (Text (''a: 2'' @ [CHR 0x0A] @ ''b: 1'' @ [CHR 0x0A])) \<and> stats mr = [3] \<and> Wait mr \<noteq> None"
proof -
  let ?ans = "\<lambda>w. if w = ''w2'' then Some (3 :: int) else None"
  have "report countValues (all_pairs no_codec mapChars [''in''] one_input) =
      ''a: 2'' @ [CHR 0x0A] @ ''b: 1'' @ [CHR 0x0A]" "outName ''t'' = ''mrtmp.t''"
    "List.map_filter ?ans (workers (master demo_reduces)) = [3]" by code_simp+
  moreover have "foreign ''t'' f" if "f \<in> set [''in'']" for f using one_input_ok that by simp
  moreover have "exec (sstep no_codec mapChars countValues) (demo_evs mapPhase) (start_phase mapPhase demo_job one_input) = Some demo_maps"
    "exec (sstep no_codec mapChars countValues) (demo_evs reducePhase)
      (start_phase reducePhase (master demo_maps) (sdisk demo_maps)) = Some demo_reduces"
    using demo_runs(2,4) by (simp_all add: demo_evs_def)
  ultimately show ?thesis
    using Distributed_correct [where n = 2 and d = one_input and fs = "[''in'']" and J = "''t''" and mr = demo_job and
        m = "''master''" and j = no_codec and mapF = mapChars and reduceF = countValues and evs = demo_evs and
        ?s1.0 = demo_maps and ?s2.0 = demo_reduces and answer = ?ans and r = None]
      one_input_ok demo_runs(3,5) by (auto simp: demo_job_def)
qed

section \<open>The life of a worker\<close>

text \<open>
  The loop of \<^verbatim>\<open>RunWorker\<close> is at the check of \<^verbatim>\<open>nRPC\<close>, waits in \<^verbatim>\<open>Accept\<close>, holds an accepted
  connection, has handed it to \<^verbatim>\<open>ServeConn\<close> and not counted it yet, or has ended. Each critical section
  is a step. A \<^verbatim>\<open>Shutdown\<close> comes in on a connection that is served, at any point of the loop.
  \<open>served\<close> is a history variable: the number of connections handed to \<^verbatim>\<open>ServeConn\<close>.
\<close>

datatype wloop = AtCheck | InAccept | Accepted | Serving | Exited

record wserver =
  wk :: Worker
  loop :: wloop
  wlis :: listener
  served :: nat

definition RunWorker ::
  "bool \<Rightarrow> bool \<Rightarrow> string \<Rightarrow> (string \<Rightarrow> string \<Rightarrow> KeyValue list) \<Rightarrow> (string \<Rightarrow> string list \<Rightarrow> string) \<Rightarrow> int \<Rightarrow>
     Master \<Rightarrow> mr_stop + (wserver \<times> Master)" where
  "RunWorker listens reached me MapFunc ReduceFunc n mr =
     (let wk = newWorker me MapFunc ReduceFunc n
      in if listens then Inr (\<lparr>wk = wk, loop = AtCheck, wlis = Listening, served = 0\<rparr>, register reached wk mr)
         else Inl Fatal)"

datatype wevent = WCheck | WAccept | WError | WServe | WCount | WShutdown

fun wstep :: "wevent \<Rightarrow> wserver \<Rightarrow> wserver option" where
  "wstep WCheck s =
     (if loop s = AtCheck
      then Some (if nRPC (wk s) = 0 then s\<lparr>loop := Exited, wlis := ListenerClosed\<rparr> else s\<lparr>loop := InAccept\<rparr>)
      else None)"
| "wstep WAccept s = (if loop s = InAccept then Some (s\<lparr>loop := Accepted\<rparr>) else None)"
| "wstep WError s = (if loop s = InAccept then Some (s\<lparr>loop := Exited, wlis := ListenerClosed\<rparr>) else None)"
| "wstep WServe s =
     (if loop s = Accepted
      then Some (s\<lparr>loop := Serving, wk := (wk s)\<lparr>nRPC := nRPC (wk s) - 1\<rparr>, served := Suc (served s)\<rparr>)
      else None)"
| "wstep WCount s =
     (if loop s = Serving then Some (s\<lparr>loop := AtCheck, wk := (wk s)\<lparr>nTasks := nTasks (wk s) + 1\<rparr>\<rparr>) else None)"
| "wstep WShutdown s = (if 0 < served s then Some (s\<lparr>wk := fst (Shutdown (wk s))\<rparr>) else None)"

text \<open>
  As long as no shutdown comes, the connections served and those still allowed add up to \<open>q\<close>, which
  a loop that starts below zero never reaches.
\<close>

definition quota :: "int \<Rightarrow> wserver \<Rightarrow> bool" where
  "quota q s \<longleftrightarrow> int (served s) + nRPC (wk s) = q \<and>
     (0 \<le> q \<longrightarrow> 0 \<le> nRPC (wk s) \<and> (loop s \<in> {InAccept, Accepted} \<longrightarrow> 0 < nRPC (wk s))) \<and>
     (loop s = Exited \<longrightarrow> nRPC (wk s) = 0) \<and> (wlis s = Listening \<longleftrightarrow> loop s \<noteq> Exited)"

definition calm :: "wevent list \<Rightarrow> bool" where
  "calm evs \<longleftrightarrow> WShutdown \<notin> set evs \<and> WError \<notin> set evs"

lemma quota_step: "wstep ev s = Some s' \<Longrightarrow> calm [ev] \<Longrightarrow> quota q s \<Longrightarrow> quota q s'"
  by (cases ev) (auto simp: quota_def calm_def split: if_splits)

lemma quota_exec: "exec wstep evs s = Some s' \<Longrightarrow> calm evs \<Longrightarrow> quota q s \<Longrightarrow> quota q s'"
proof (induction evs arbitrary: s)
  case (Cons ev evs)
  then obtain s1 where s1: "wstep ev s = Some s1" "exec wstep evs s1 = Some s'" by (auto split: option.splits)
  have "calm [ev]" "calm evs" using Cons.prems(2) by (simp_all add: calm_def)
  with Cons.IH [OF s1(2)] quota_step [OF s1(1)] Cons.prems(3) show ?case by blast
qed simp

lemma quota_start: "RunWorker True b me mapF reduceF n mr = Inr (s, mr') \<Longrightarrow> quota n s"
  by (auto simp: RunWorker_def quota_def newWorker_def Let_def)

lemma quota_shutdown:
  "wstep WShutdown s = Some s' \<Longrightarrow> loop s \<noteq> Exited \<Longrightarrow> wlis s = Listening \<Longrightarrow> quota (int (served s) + 1) s'"
  by (auto simp: quota_def Shutdown_def Let_def split: if_splits)

text \<open>The listener is open exactly while the loop runs, whatever happens.\<close>

lemma listening_exec:
  "exec wstep evs s = Some s' \<Longrightarrow> (wlis s = Listening \<longleftrightarrow> loop s \<noteq> Exited) \<Longrightarrow> (wlis s' = Listening \<longleftrightarrow> loop s' \<noteq> Exited)"
proof (induction evs arbitrary: s)
  case (Cons ev evs)
  then obtain s1 where s1: "wstep ev s = Some s1" "exec wstep evs s1 = Some s'" by (auto split: option.splits)
  then have "wlis s1 = Listening \<longleftrightarrow> loop s1 \<noteq> Exited" using Cons.prems(2) by (cases ev) (auto split: if_splits)
  with Cons.IH [OF s1(2)] show ?case by blast
qed simp

text \<open>C33: A worker started with a quota of \<open>n\<close> connections serves at most \<open>n\<close> of them and, unless its
  listener fails, ends only after exactly \<open>n\<close>; with a negative quota it never ends by itself. Once it
  is told to shut down at any moment of its loop, it still serves exactly one more connection
  before it ends.\<close>

theorem worker_quota:
  assumes start: "RunWorker True b me mapF reduceF n mr = Inr (s, mr')"
    and run: "exec wstep evs s = Some s1"
  shows "(calm evs \<longrightarrow> (0 \<le> n \<longrightarrow> int (served s1) \<le> n) \<and> (loop s1 = Exited \<longrightarrow> int (served s1) = n)) \<and>
    (\<forall>evs' s2. loop s1 \<noteq> Exited \<and> exec wstep (WShutdown # evs') s1 = Some s2 \<and> calm evs' \<longrightarrow>
       served s2 \<le> served s1 + 1 \<and> (loop s2 = Exited \<longrightarrow> served s2 = served s1 + 1))"
proof (intro conjI allI impI; (elim conjE)?)
  assume "calm evs"
  note q = quota_exec [OF run this quota_start [OF start]]
  show "int (served s1) \<le> n" if "0 \<le> n" using q that by (simp add: quota_def)
  show "int (served s1) = n" if "loop s1 = Exited" using q that by (simp add: quota_def)
next
  fix evs' s2
  assume ex: "loop s1 \<noteq> Exited" and sd: "exec wstep (WShutdown # evs') s1 = Some s2" and c: "calm evs'"
  have "wlis s1 = Listening"
    using listening_exec [OF run] quota_start [OF start] ex by (simp add: quota_def)
  moreover obtain s' where "wstep WShutdown s1 = Some s'" "exec wstep evs' s' = Some s2"
    using sd by (auto split: option.splits if_splits)
  ultimately have q: "quota (int (served s1) + 1) s2" using quota_exec c quota_shutdown ex by blast
  show "served s2 \<le> served s1 + 1" using q by (auto simp: quota_def)
  show "served s2 = served s1 + 1" if "loop s2 = Exited" using q that by (auto simp: quota_def)
qed

definition told :: wserver where
  "told = \<lparr>wk = newWorker ''w'' mapChars countValues (- 1), loop = AtCheck, wlis = Listening, served = 0\<rparr>"

definition told_run :: "wevent list" where
  "told_run = [WCheck, WAccept, WServe, WCount, WCheck]"

definition told_rest :: "wevent list" where
  "told_rest = [WAccept, WServe, WCount, WCheck]"

definition told_done :: wserver where
  "told_done = the (exec wstep (WShutdown # told_rest) (the (exec wstep told_run told)))"

lemma told_runs:
  "exec wstep told_run told = Some (the (exec wstep told_run told))"
  "loop (the (exec wstep told_run told)) \<noteq> Exited" "served (the (exec wstep told_run told)) = 1"
  "exec wstep (WShutdown # told_rest) (the (exec wstep told_run told)) = Some told_done"
  "loop told_done = Exited" "calm told_rest"
  by (simp_all add: told_run_def told_rest_def told_done_def told_def newWorker_def Shutdown_def calm_def)

theorem worker_quota_witness: "served told_done = 2"
proof -
  have "RunWorker True False ''w'' mapChars countValues (- 1) demo_job = Inr (told, register False (wk told) demo_job)"
    by (simp add: RunWorker_def told_def Let_def)
  from worker_quota [OF this told_runs(1), THEN conjunct2, rule_format, OF conjI [OF told_runs(2) conjI [OF told_runs(4,6)]]]
  show ?thesis using told_runs(3,5) by (simp only: one_add_one)
qed

end
