(* ===== verification/MR_Mains.thy ===== *)
theory MR_Mains
  imports MR_Apps MR_Master
begin

text \<open>
  The command lines of the two applications (\<^verbatim>\<open>main\<close> of \<^verbatim>\<open>src/main/wc.go\<close> and \<^verbatim>\<open>src/main/ii.go\<close>): a
  sequential master, a master of a distributed job, or a worker. What the operating system does
  for the sockets and how the tasks of a distributed job are scheduled are arguments.
\<close>

section \<open>Programs\<close>

text \<open>
  The system around a program: which addresses it may listen on, which it can reach, what a worker
  answers to its shutdown, and how the calls of a phase go.
\<close>

record mr_os =
  os_listen :: "string \<Rightarrow> bool"
  os_dial :: "string \<Rightarrow> bool"
  os_answer :: "string \<Rightarrow> int option"
  os_calls :: "jobPhase \<Rightarrow> sevent list"

text \<open>How a program goes on: it prints its usage, its job has ended, or it serves as a worker.\<close>

datatype mr_end = Usage string | JobDone Master fsys | WorkerUp wserver Master

text \<open>
  The two programs differ in the name of the job and in the functions. \<open>mr\<close> is the master that a
  worker registers with. The arguments include the name of the program.
\<close>

definition mr_main ::
  "string \<Rightarrow> (string \<Rightarrow> string \<Rightarrow> KeyValue list) \<Rightarrow> (string \<Rightarrow> string list \<Rightarrow> string) \<Rightarrow>
     codec \<Rightarrow> mr_os \<Rightarrow> Master \<Rightarrow> string list \<Rightarrow> fsys \<Rightarrow> mr_stop + mr_end" where
  "mr_main J mapF reduceF j os mr args d =
     (if go_len args < 4
      then (case go_index args 0 of
              None \<Rightarrow> Inl Panic
            | Some prog \<Rightarrow> Inr (Usage (prog @ '': see usage comments in file'' @ [CHR 0x0A])))
      else if args ! 1 = ''master''
      then (case (if args ! 2 = ''sequential''
                  then Sequential j J (drop 3 args) 3 mapF reduceF d
                  else Distributed j mapF reduceF (os_calls os) (os_listen os (args ! 2)) (os_answer os)
                    (os_dial os (args ! 2)) J (drop 3 args) 3 (args ! 2) d) of
              Inl e \<Rightarrow> Inl e
            | Inr (mr, d) \<Rightarrow> (case Wait mr of None \<Rightarrow> Inl Stuck | Some mr \<Rightarrow> Inr (JobDone mr d)))
      else (case RunWorker (os_listen os (args ! 3)) (os_dial os (args ! 2)) (args ! 3) mapF reduceF 100 mr of
              Inl e \<Rightarrow> Inl e
            | Inr (s, mr) \<Rightarrow> Inr (WorkerUp s mr)))"

definition wc_main :: "codec \<Rightarrow> mr_os \<Rightarrow> Master \<Rightarrow> string list \<Rightarrow> fsys \<Rightarrow> mr_stop + mr_end" where
  "wc_main = mr_main ''wcseq'' wc_mapF wc_reduceF"

definition ii_main :: "codec \<Rightarrow> mr_os \<Rightarrow> Master \<Rightarrow> string list \<Rightarrow> fsys \<Rightarrow> mr_stop + mr_end" where
  "ii_main = mr_main ''iiseq'' ii_mapF ii_reduceF"

text \<open>The text in the output file of a job that has ended.\<close>

definition job_output :: "string \<Rightarrow> mr_stop + mr_end \<Rightarrow> string option" where
  "job_output J r =
     (case r of
        Inr (JobDone mr d) \<Rightarrow> (case disk d (outName J) of Some (Text t) \<Rightarrow> Some t | _ \<Rightarrow> None)
      | _ \<Rightarrow> None)"

section \<open>Masters\<close>

lemma Sequential_waits: "Sequential j J fs n mapF reduceF d = Inr (mr, d') \<Longrightarrow> offered mr"
  by (auto simp: Sequential_def run_def Let_def split: sum.splits prod.splits)

lemma sequential_output:
  assumes "fs \<noteq> []" and "\<And>x. creatable d x" and "\<And>f. f \<in> set fs \<Longrightarrow> foreign J f"
    and "\<And>i r. 0 \<le> i \<Longrightarrow> 0 \<le> r \<Longrightarrow> disk d (reduceName J i r) = None"
  shows "job_output J (mr_main J mapF reduceF j os m ([prog, ''master'', ''sequential''] @ fs) d) =
    Some (report reduceF (all_pairs j mapF fs d))"
proof -
  obtain mr d' where r: "Sequential j J fs 3 mapF reduceF d = Inr (mr, d')"
    "disk d' (outName J) = Some (Text (report reduceF (all_pairs j mapF fs d)))"
    using Sequential_result [where n = 3 and fs = fs and j = j and mapF = mapF and reduceF = reduceF, OF _ assms(2-4)] by auto
  have "Wait mr \<noteq> None" using Sequential_waits [OF r(1)] by (simp add: Wait_def)
  moreover have "\<not> go_len ([prog, ''master'', ''sequential''] @ fs) < 4" using assms(1) by (cases fs) (auto simp: go_len_def)
  ultimately show ?thesis using r by (auto simp: mr_main_def job_output_def)
qed

text \<open>C28: The two ways to run a job from the command line write the same output. On a disk that can be written and
  holds no intermediate files of the job from an earlier run, started as a master
  with the same inputs, sequentially or at an address with workers that register, fail and work in
  any order, as long as both phases end, the program ends and its output file is the grouped
  reduction of all pairs.\<close>

theorem modes_agree:
  assumes fs: "fs \<noteq> []" "\<And>f. f \<in> set fs \<Longrightarrow> foreign J f" and cr: "\<And>x. creatable d x"
    and new: "\<And>i r. 0 \<le> i \<Longrightarrow> 0 \<le> r \<Longrightarrow> disk d (reduceName J i r) = None"
    and os: "addr \<noteq> ''sequential''" "os_listen os addr" "os_dial os addr"
    and mr: "mr = (newMaster addr)\<lparr>lis := Listening, jobName := J, files := fs, nReduce := 3\<rparr>"
    and s1: "exec (sstep j mapF reduceF) (os_calls os mapPhase) (start_phase mapPhase mr d) = Some s1" "phase_done s1"
    and s2: "exec (sstep j mapF reduceF) (os_calls os reducePhase) (start_phase reducePhase (master s1) (sdisk s1)) = Some s2"
      "phase_done s2"
  shows "job_output J (mr_main J mapF reduceF j os m ([prog, ''master'', addr] @ fs) d) = Some (report reduceF (all_pairs j mapF fs d)) \<and>
    job_output J (mr_main J mapF reduceF j os m ([prog, ''master'', ''sequential''] @ fs) d) =
      job_output J (mr_main J mapF reduceF j os m ([prog, ''master'', addr] @ fs) d)"
proof -
  obtain mr' d' where r: "Distributed j mapF reduceF (os_calls os) True (os_answer os) True J fs 3 addr d = Inr (mr', d')"
    "disk d' (outName J) = Some (Text (report reduceF (all_pairs j mapF fs d)))" "Wait mr' \<noteq> None"
    using Distributed_result [where n = 3 and d = d and fs = fs and J = J and answer = "os_answer os" and r = None, OF _ cr fs(2) new mr s1 s2] by auto
  have "\<not> go_len ([prog, ''master'', addr] @ fs) < 4" using fs(1) by (cases fs) (auto simp: go_len_def)
  then have "job_output J (mr_main J mapF reduceF j os m ([prog, ''master'', addr] @ fs) d) = Some (report reduceF (all_pairs j mapF fs d))"
    using r os by (auto simp: mr_main_def job_output_def)
  then show ?thesis using sequential_output [OF fs(1) cr fs(2) new] by simp
qed

text \<open>The inverted index at an address, with two workers of which one fails once.\<close>

definition ii_os :: mr_os where
  "ii_os = \<lparr>os_listen = (\<lambda>_. True), os_dial = (\<lambda>_. True), os_answer = (\<lambda>_. None), os_calls = (\<lambda>p. case p of
      mapPhase \<Rightarrow> [SRegister ''w1'', SRegister ''w2'', SGrab 0 0, SFail 0 1, SGrab 0 0, SDone 0]
    | reducePhase \<Rightarrow> [SGrab 2 0, SDone 2, SGrab 1 0, SDone 1, SGrab 0 0, SDone 0])\<rparr>"

definition ii_master :: Master where
  "ii_master = (newMaster ''host:1'')\<lparr>lis := Listening, jobName := ''iiseq'', files := [''in''], nReduce := 3\<rparr>"

definition ii_maps :: sched where
  "ii_maps = the (exec (sstep no_codec ii_mapF ii_reduceF) (os_calls ii_os mapPhase) (start_phase mapPhase ii_master one_input))"

definition ii_reduces :: sched where
  "ii_reduces = the (exec (sstep no_codec ii_mapF ii_reduceF) (os_calls ii_os reducePhase)
     (start_phase reducePhase (master ii_maps) (sdisk ii_maps)))"

lemma ii_runs:
  "exec (sstep no_codec ii_mapF ii_reduceF) (os_calls ii_os mapPhase) (start_phase mapPhase ii_master one_input) = Some ii_maps"
  "phase_done ii_maps"
  "exec (sstep no_codec ii_mapF ii_reduceF) (os_calls ii_os reducePhase)
     (start_phase reducePhase (master ii_maps) (sdisk ii_maps)) = Some ii_reduces"
  "phase_done ii_reduces"
proof -
  have "\<not> Option.is_none (exec (sstep no_codec ii_mapF ii_reduceF) (os_calls ii_os mapPhase) (start_phase mapPhase ii_master one_input))"
    by code_simp
  then show "exec (sstep no_codec ii_mapF ii_reduceF) (os_calls ii_os mapPhase) (start_phase mapPhase ii_master one_input) = Some ii_maps"
    by (auto simp: ii_maps_def Option.is_none_def)
  have "\<not> Option.is_none (exec (sstep no_codec ii_mapF ii_reduceF) (os_calls ii_os reducePhase)
     (start_phase reducePhase (master ii_maps) (sdisk ii_maps)))" by code_simp
  then show "exec (sstep no_codec ii_mapF ii_reduceF) (os_calls ii_os reducePhase)
     (start_phase reducePhase (master ii_maps) (sdisk ii_maps)) = Some ii_reduces"
    by (auto simp: ii_reduces_def Option.is_none_def)
  show "phase_done ii_maps" "phase_done ii_reduces" by code_simp+
qed

theorem modes_agree_witness:
  "job_output ''iiseq'' (ii_main no_codec ii_os ii_master [''ii'', ''master'', ''host:1'', ''in''] one_input) =
     Some (''aba: 1 in'' @ [CHR 0x0A]) \<and>
   job_output ''iiseq'' (ii_main no_codec ii_os ii_master [''ii'', ''master'', ''sequential'', ''in''] one_input) =
     job_output ''iiseq'' (ii_main no_codec ii_os ii_master [''ii'', ''master'', ''host:1'', ''in''] one_input)"
proof -
  have "report ii_reduceF (all_pairs no_codec ii_mapF [''in''] one_input) =
      ''aba: 1 in'' @ [CHR 0x0A]" by code_simp
  moreover have "os_listen ii_os ''host:1''" "os_dial ii_os ''host:1''" by (simp_all add: ii_os_def)
  ultimately show ?thesis
    using modes_agree [where fs = "[''in'']" and addr = "''host:1''" and os = ii_os and prog = "''ii''" and m = ii_master,
        OF _ one_input_ok(2,1,3) _ _ _ ii_master_def ii_runs] unfolding ii_main_def by simp
qed

section \<open>Workers\<close>

text \<open>A worker started from the command line serves at most 100 connections, unless it is told to shut down.\<close>

lemma main_worker_bound:
  assumes "mr_main J mapF reduceF j os m args d = Inr (WorkerUp s mr)" and "exec wstep evs s = Some s1" and "calm evs"
  shows "served s1 \<le> 100 \<and> (loop s1 = Exited \<longrightarrow> served s1 = 100)"
proof -
  have "RunWorker True (os_dial os (args ! 2)) (args ! 3) mapF reduceF 100 m = Inr (s, mr)"
    using assms(1) by (auto simp: mr_main_def RunWorker_def Let_def split: if_splits sum.splits option.splits prod.splits)
  from quota_exec [OF assms(2,3) quota_start [OF this]] show ?thesis by (auto simp: quota_def)
qed

end
