(* ===== verification/Lab_Mains.thy ===== *)
theory Lab_Mains
  imports Strconv
begin

text \<open>
  The command line programs of \<^verbatim>\<open>src/main\<close> around the packages \<^verbatim>\<open>lockservice\<close>, \<^verbatim>\<open>pbservice\<close>, \<^verbatim>\<open>viewservice\<close> and
  \<^verbatim>\<open>diskv\<close>. The packages are not part of the repository: their functions are arguments, which act
  on a state \<open>'w\<close> of everything outside the program.
\<close>

section \<open>The packages\<close>

record ('k, 'w) lockservice =
  lk_MakeClerk :: "string \<Rightarrow> string \<Rightarrow> 'w \<Rightarrow> 'k \<times> 'w"
  lk_Lock :: "'k \<Rightarrow> string \<Rightarrow> 'w \<Rightarrow> bool \<times> 'w"
  lk_Unlock :: "'k \<Rightarrow> string \<Rightarrow> 'w \<Rightarrow> bool \<times> 'w"
  lk_StartServer :: "string \<Rightarrow> string \<Rightarrow> bool \<Rightarrow> 'w \<Rightarrow> 'w"

record ('k, 'w) pbservice =
  pb_MakeClerk :: "string \<Rightarrow> string \<Rightarrow> 'w \<Rightarrow> 'k \<times> 'w"
  pb_Get :: "'k \<Rightarrow> string \<Rightarrow> 'w \<Rightarrow> string \<times> 'w"
  pb_Put :: "'k \<Rightarrow> string \<Rightarrow> string \<Rightarrow> 'w \<Rightarrow> 'w"
  pb_StartServer :: "string \<Rightarrow> string \<Rightarrow> 'w \<Rightarrow> 'w"

record ('k, 'w) diskv =
  dv_StartServer :: "int \<Rightarrow> string list \<Rightarrow> string list \<Rightarrow> int \<Rightarrow> string \<Rightarrow> bool \<Rightarrow> 'w \<Rightarrow> 'k \<times> 'w"
  dv_Setunreliable :: "'k \<Rightarrow> bool \<Rightarrow> 'w \<Rightarrow> 'w"

text \<open>
  How a program ends: by \<^verbatim>\<open>os.Exit\<close> or by returning, with its output, by sleeping for ever, or killed by
  itself after its time is over.
\<close>

datatype 'w ending = Exits int string 'w | Returns string 'w | Sleeps 'w | Killed 'w

definition line_of :: "string \<Rightarrow> string" where
  "line_of s = s @ [CHR 0x0A]"

definition show_bool :: "bool \<Rightarrow> string" where
  "show_bool b = (if b then ''true'' else ''false'')"

section \<open>The lock service\<close>

definition lockc_usage :: "'w \<Rightarrow> 'w ending" where
  "lockc_usage w = Exits 1 (line_of ''Usage: lockc -l|-u primaryport backupport lockname'') w"

definition lockc_main :: "('k, 'w) lockservice \<Rightarrow> string list \<Rightarrow> 'w \<Rightarrow> 'w ending" where
  "lockc_main lk args w =
     (if go_len args = 5
      then let (ck, w) = lk_MakeClerk lk (args ! 2) (args ! 3) w
        in if args ! 1 = ''-l''
        then let (ok, w) = lk_Lock lk ck (args ! 4) w in Returns (line_of (''reply: '' @ show_bool ok)) w
        else if args ! 1 = ''-u''
        then let (ok, w) = lk_Unlock lk ck (args ! 4) w in Returns (line_of (''reply: '' @ show_bool ok)) w
        else lockc_usage w
      else lockc_usage w)"

definition lockd_main :: "('k, 'w) lockservice \<Rightarrow> string list \<Rightarrow> 'w \<Rightarrow> 'w ending" where
  "lockd_main lk args w =
     (if go_len args = 4 \<and> args ! 1 = ''-p'' then Sleeps (lk_StartServer lk (args ! 2) (args ! 3) True w)
      else if go_len args = 4 \<and> args ! 1 = ''-b'' then Sleeps (lk_StartServer lk (args ! 2) (args ! 3) False w)
      else Exits 1 (line_of ''Usage: lockd -p|-b primaryport backupport'') w)"

section \<open>The primary/backup service\<close>

definition pbc_usage :: "'w \<Rightarrow> 'w ending" where
  "pbc_usage w = Exits 1 (line_of ''Usage: pbc viewport key'' @ line_of ''       pbc viewport key value'') w"

definition pbc_main :: "('k, 'w) pbservice \<Rightarrow> string list \<Rightarrow> 'w \<Rightarrow> 'w ending" where
  "pbc_main pb args w =
     (if go_len args = 3
      then let (ck, w) = pb_MakeClerk pb (args ! 1) [] w; (v, w) = pb_Get pb ck (args ! 2) w
        in Returns (line_of v) w
      else if go_len args = 4
      then let (ck, w) = pb_MakeClerk pb (args ! 1) [] w
        in Returns [] (pb_Put pb ck (args ! 2) (args ! 3) w)
      else pbc_usage w)"

definition pbd_main :: "('k, 'w) pbservice \<Rightarrow> string list \<Rightarrow> 'w \<Rightarrow> 'w ending" where
  "pbd_main pb args w =
     (if go_len args \<noteq> 3 then Exits 1 (line_of ''Usage: pbd viewport myport'') w
      else Sleeps (pb_StartServer pb (args ! 1) (args ! 2) w))"

text \<open>\<open>start\<close> is \<^verbatim>\<open>viewservice.StartServer\<close>.\<close>

definition viewd_main :: "(string \<Rightarrow> 'w \<Rightarrow> 'w) \<Rightarrow> string list \<Rightarrow> 'w \<Rightarrow> 'w ending" where
  "viewd_main start args w =
     (if go_len args \<noteq> 2 then Exits 1 (line_of ''Usage: viewd port'') w else Sleeps (start (args ! 1) w))"

section \<open>The server of the disk service\<close>

record diskv_opts =
  gid :: int
  masters :: "string list"
  replicas :: "string list"
  my_index :: int
  unreliable :: bool
  dir :: string
  restart :: bool

definition no_opts :: diskv_opts where
  "no_opts = \<lparr>gid = -1, masters = [], replicas = [], my_index = -1, unreliable = False, dir = [], restart = False\<rparr>"

text \<open>The value that \<^verbatim>\<open>strconv.ParseBool\<close> returns, also where it returns an error.\<close>

definition ParseBool :: "string \<Rightarrow> bool" where
  "ParseBool s \<longleftrightarrow> s \<in> set [''1'', ''t'', ''T'', ''true'', ''TRUE'', ''True'']"

text \<open>
  One turn of the loop over the arguments; None at an unknown option. \<^verbatim>\<open>ParseInt\<close> in base 10 with 64
  bits returns the values that \<^const>\<open>Atoi\<close> returns; its errors are dropped.
\<close>

definition diskvd_option :: "string \<Rightarrow> string \<Rightarrow> diskv_opts \<Rightarrow> diskv_opts option" where
  "diskvd_option a0 a1 opts =
     (if a0 = ''-g'' then Some (opts\<lparr>gid := Atoi a1\<rparr>)
      else if a0 = ''-m'' then Some (opts\<lparr>masters := masters opts @ [a1]\<rparr>)
      else if a0 = ''-s'' then Some (opts\<lparr>replicas := replicas opts @ [a1]\<rparr>)
      else if a0 = ''-i'' then Some (opts\<lparr>my_index := Atoi a1\<rparr>)
      else if a0 = ''-u'' then Some (opts\<lparr>unreliable := ParseBool a1\<rparr>)
      else if a0 = ''-d'' then Some (opts\<lparr>dir := a1\<rparr>)
      else if a0 = ''-r'' then Some (opts\<lparr>restart := ParseBool a1\<rparr>)
      else None)"

function diskvd_loop :: "string list \<Rightarrow> nat \<Rightarrow> diskv_opts \<Rightarrow> diskv_opts option" where
  "diskvd_loop args i opts =
     (if i + 1 < length args
      then (case diskvd_option (args ! i) (args ! (i + 1)) opts of
              None \<Rightarrow> None
            | Some opts \<Rightarrow> diskvd_loop args (i + 2) opts)
      else Some opts)"
  by pat_completeness auto
termination
  by (relation "measure (\<lambda>(args, i, opts). length args - i)") auto

declare diskvd_loop.simps [simp del]

definition diskvd_usage :: "'w \<Rightarrow> 'w ending" where
  "diskvd_usage w = Exits 1 (line_of ''Usage: diskvd -g gid -m master... -s server... -i my-index -d dir'') w"

definition diskvd_main :: "('k, 'w) diskv \<Rightarrow> string list \<Rightarrow> 'w \<Rightarrow> 'w ending" where
  "diskvd_main dv args w =
     (case diskvd_loop args 1 no_opts of
        None \<Rightarrow> diskvd_usage w
      | Some opts \<Rightarrow>
          if gid opts < 0 \<or> my_index opts < 0 \<or> length (masters opts) < 1 \<or>
             my_index opts \<ge> go_len (replicas opts) \<or> dir opts = []
          then diskvd_usage w
          else let (srv, w) = dv_StartServer dv (gid opts) (masters opts) (replicas opts) (my_index opts) (dir opts) (restart opts) w
            in Killed (dv_Setunreliable dv srv (unreliable opts) w))"

section \<open>The options as a whole\<close>

text \<open>
  A reference for the loop: the arguments in pairs, of which the last one counts for an option with
  one value and all count, in order, for an option that can be repeated.
\<close>

fun pairs_of :: "string list \<Rightarrow> (string \<times> string) list" where
  "pairs_of (a # b # r) = (a, b) # pairs_of r"
| "pairs_of _ = []"

definition vals_of :: "string \<Rightarrow> (string \<times> string) list \<Rightarrow> string list" where
  "vals_of f ps = map snd (filter (\<lambda>p. fst p = f) ps)"

lemma vals_of_simps [simp]: "vals_of f [] = []" "vals_of f ((a, b) # ps) = (if a = f then b # vals_of f ps else vals_of f ps)"
  by (simp_all add: vals_of_def)

definition known :: "(string \<times> string) list \<Rightarrow> bool" where
  "known ps \<longleftrightarrow> list_all (\<lambda>p. fst p \<in> set [''-g'', ''-m'', ''-s'', ''-i'', ''-u'', ''-d'', ''-r'']) ps"

definition extended :: "diskv_opts \<Rightarrow> (string \<times> string) list \<Rightarrow> diskv_opts" where
  "extended opts ps =
     \<lparr>gid = last (gid opts # map Atoi (vals_of ''-g'' ps)), masters = masters opts @ vals_of ''-m'' ps,
      replicas = replicas opts @ vals_of ''-s'' ps, my_index = last (my_index opts # map Atoi (vals_of ''-i'' ps)),
      unreliable = last (unreliable opts # map ParseBool (vals_of ''-u'' ps)), dir = last (dir opts # vals_of ''-d'' ps),
      restart = last (restart opts # map ParseBool (vals_of ''-r'' ps))\<rparr>"

lemma extended_Nil [simp]: "extended opts [] = opts"
  by (simp add: extended_def)

lemma extended_Cons:
  "diskvd_option a b opts = (if known [(a, b)] then Some (extended opts [(a, b)]) else None)"
  "extended opts ((a, b) # ps) = extended (extended opts [(a, b)]) ps"
  by (simp_all add: diskvd_option_def known_def extended_def)

lemma diskvd_loop_eq:
  "diskvd_loop args i opts =
     (let ps = pairs_of (drop i args) in if known ps then Some (extended opts ps) else None)"
proof (induction args i opts rule: diskvd_loop.induct)
  case (1 args i opts)
  show ?case
  proof (cases "i + 1 < length args")
    case True
    then have d: "drop i args = args ! i # args ! (i + 1) # drop (i + 2) args"
      using Cons_nth_drop_Suc [of i args] Cons_nth_drop_Suc [of "Suc i" args] by simp
    show ?thesis
    proof (cases "known [(args ! i, args ! (i + 1))]")
      case k: True
      then have o: "diskvd_option (args ! i) (args ! (i + 1)) opts = Some (extended opts [(args ! i, args ! (i + 1))])"
        by (simp add: extended_Cons(1))
      have "diskvd_loop args i opts = diskvd_loop args (i + 2) (extended opts [(args ! i, args ! (i + 1))])"
        by (subst diskvd_loop.simps) (simp only: o True if_True option.case)
      also have "\<dots> = (let ps = pairs_of (drop (i + 2) args)
          in if known ps then Some (extended (extended opts [(args ! i, args ! (i + 1))]) ps) else None)"
        by (rule 1 [OF True o])
      finally show ?thesis
        using k unfolding d Let_def pairs_of.simps extended_Cons(2) [symmetric] by (simp add: known_def)
    next
      case False
      then show ?thesis using True by (simp add: diskvd_loop.simps [of args i] d extended_Cons(1) Let_def) (simp add: known_def)
    qed
  next
    case False
    then have "length (drop i args) \<le> 1" by simp
    then have "pairs_of (drop i args) = []" by (cases "drop i args" rule: pairs_of.cases) simp_all
    then show ?thesis using False by (simp add: diskvd_loop.simps [of args i] known_def)
  qed
qed

text \<open>Options that \<^verbatim>\<open>main\<close> accepts.\<close>

definition accepted :: "diskv_opts \<Rightarrow> bool" where
  "accepted opts \<longleftrightarrow> 0 \<le> gid opts \<and> 0 \<le> my_index opts \<and> masters opts \<noteq> [] \<and> my_index opts < go_len (replicas opts) \<and> dir opts \<noteq> []"

lemma diskvd_main_eq:
  "diskvd_main dv args w =
     (let ps = pairs_of (tl args); opts = extended no_opts ps
      in if known ps \<and> accepted opts
         then let (srv, w) = dv_StartServer dv (gid opts) (masters opts) (replicas opts) (my_index opts) (dir opts) (restart opts) w
           in Killed (dv_Setunreliable dv srv (unreliable opts) w)
         else Exits 1 (line_of ''Usage: diskvd -g gid -m master... -s server... -i my-index -d dir'') w)"
proof -
  have "accepted opts \<longleftrightarrow> \<not> (gid opts < 0 \<or> my_index opts < 0 \<or> length (masters opts) < 1 \<or>
      my_index opts \<ge> go_len (replicas opts) \<or> dir opts = [])" for opts
    unfolding accepted_def by (cases "masters opts") auto
  then show ?thesis
    unfolding diskvd_main_def diskvd_usage_def diskvd_loop_eq Let_def
    by (simp only: drop_Suc drop_0 One_nat_def if_distrib option.case split: if_splits) simp
qed

text \<open>C39: The options of \<^verbatim>\<open>diskvd\<close>. For all arguments, the program starts exactly one server, with the last value
  of each single option and all values of the repeated ones in the order given, when all options
  are known and the group, the index, the masters, the replicas and the directory are given and
  fit; otherwise it prints its usage and exits without starting anything. An option without a
  value at the end is ignored.\<close>

theorem diskvd_options:
  "diskvd_main dv args w =
     (let ps = pairs_of (tl args); opts = extended no_opts ps
      in if known ps \<and> accepted opts
         then let (srv, w) = dv_StartServer dv (gid opts) (masters opts) (replicas opts) (my_index opts) (dir opts) (restart opts) w
           in Killed (dv_Setunreliable dv srv (unreliable opts) w)
         else Exits 1 (line_of ''Usage: diskvd -g gid -m master... -s server... -i my-index -d dir'') w)"
  by (rule diskvd_main_eq)

text \<open>The command line that a tester writes for some options is read back as these options.\<close>

definition diskvd_args :: "diskv_opts \<Rightarrow> string list" where
  "diskvd_args opts = [''diskvd'', ''-g'', Itoa (gid opts)] @ concat (map (\<lambda>m. [''-m'', m]) (masters opts)) @
     concat (map (\<lambda>s. [''-s'', s]) (replicas opts)) @ [''-i'', Itoa (my_index opts), ''-u'', show_bool (unreliable opts),
     ''-d'', dir opts, ''-r'', show_bool (restart opts)]"

lemma pairs_flags: "pairs_of (concat (map (\<lambda>m. [f, m]) ms) @ r) = map (Pair f) ms @ pairs_of r"
  by (induction ms) simp_all

lemma vals_of_append: "vals_of f (ps @ qs) = vals_of f ps @ vals_of f qs"
  by (simp add: vals_of_def)

lemma vals_of_flags: "vals_of f (map (Pair g) ms) = (if f = g then ms else [])"
  by (simp add: vals_of_def comp_def)

lemma ParseBool_show [simp]: "ParseBool (show_bool b) = b"
  by (cases b) (simp_all add: ParseBool_def show_bool_def)

lemma diskvd_read_back:
  assumes "0 \<le> gid opts" and "gid opts < 2 ^ 63" and "0 \<le> my_index opts" and "my_index opts < 2 ^ 63"
  shows "diskvd_loop (diskvd_args opts) 1 no_opts = Some opts"
proof -
  let ?ps = "(''-g'', Itoa (gid opts)) # map (Pair ''-m'') (masters opts) @ map (Pair ''-s'') (replicas opts) @
    [(''-i'', Itoa (my_index opts)), (''-u'', show_bool (unreliable opts)), (''-d'', dir opts), (''-r'', show_bool (restart opts))]"
  have "pairs_of (drop 1 (diskvd_args opts)) = ?ps" by (simp add: diskvd_args_def pairs_flags)
  moreover have "known ?ps" by (auto simp: known_def list_all_iff)
  moreover have "extended no_opts ?ps = opts"
    using assms by (simp add: extended_def no_opts_def vals_of_append vals_of_flags Atoi_Itoa)
  ultimately show ?thesis unfolding diskvd_loop_eq Let_def by simp
qed

text \<open>A group that is no number is taken for group 0.\<close>

lemma diskvd_no_number: "gid (extended no_opts [(''-g'', ''x'')]) = 0"
  by code_simp

section \<open>The clients\<close>

text \<open>
  A service whose clerk returns what was put last: what \<open>pbc\<close> stores under a key is what \<open>pbc\<close> prints for it.
\<close>

lemma pbc_put_get:
  assumes put_get: "\<And>w w' c c'. pb_MakeClerk pb vp [] (pb_Put pb c k v w) = (c', w') \<Longrightarrow> fst (pb_Get pb c' k w') = v"
    and put: "pbc_main pb [p, vp, k, v] w = Returns t w1"
  shows "\<exists>w2. pbc_main pb [q, vp, k] w1 = Returns (line_of v) w2"
proof -
  have "\<exists>c w. w1 = pb_Put pb c k v w" using put by (auto simp: pbc_main_def go_len_def split: prod.splits)
  then obtain c w0 where w1: "w1 = pb_Put pb c k v w0" by blast
  obtain c' w' where m: "pb_MakeClerk pb vp [] w1 = (c', w')" by fastforce
  then have "fst (pb_Get pb c' k w') = v" using put_get w1 by blast
  then show ?thesis using m by (auto simp: pbc_main_def go_len_def split: prod.splits)
qed

end
