(* ===== verification/Spec2Isabelle.thy ===== *)
theory Spec2Isabelle
  imports Raft_Properties Harness_Checks Labrpc_Net Gossip_Daemon MR_Mains Lab_Mains
begin

text \<open>
  A verification development for the three distributed programs of the repository: a Raft
  library with its tester and the simulated network under it (\<^verbatim>\<open>src/src/raft\<close>, \<^verbatim>\<open>src/src/labrpc\<close>), a
  MapReduce library with two applications (\<^verbatim>\<open>src/src/mapreduce\<close>, \<^verbatim>\<open>src/src/main\<close>), and a gossip daemon
  (\<^verbatim>\<open>src/project/gossip\<close>). File names in the theories are relative to \<^verbatim>\<open>src/\<close>.

  \<^bold>\<open>Conventions.\<close> A Go struct is a record and a method a function on it with the source's name
  (with a suffix where the name is taken). A panic is \<open>None\<close> of the type \<open>result\<close>; where a program can stop
  in several ways the result is a sum with an error type on the left. What a method draws from
  outside (the clock, random numbers, the order of a map, the outcome of a system call) is an
  argument. Go's \<^verbatim>\<open>int\<close> is \<open>int\<close> where it counts things held in memory, and a word where it can wrap (the
  counts of the word count, the counter of generated ids, the hash). Strings are lists of
  characters. A mutex makes a critical section one step; goroutines are steps of a transition
  system that interleaves them in any order. A run is a list of events executed by \<open>exec\<close>, and the
  reachable states are those of the inductive predicate \<open>reachable\<close>. History variables, which no
  operation reads, are named as such where they are declared.

  \<^bold>\<open>Library.\<close>
  \<^item> \<open>Prelude\<close>: slices, executable runs, and the locales \<open>invariant_system\<close> (an invariant of a transition
    system, interpreted for every transition system below) and \<open>quorum_system\<close> (two quorums share
    a member, interpreted for majorities).
  \<^item> \<open>Strconv\<close>: decimal numbers and the functions on strings the programs use.

  \<^bold>\<open>Raft\<close> (\<^verbatim>\<open>raft.go\<close>, \<^verbatim>\<open>persister.go\<close>).
  \<^item> \<open>Persister\<close>: the store that survives a crash, with the locale \<open>crash_store\<close> interpreted for both of its
    slots.
  \<^item> \<open>Raft_State\<close>: \<^verbatim>\<open>type Raft\<close>, its helpers, \<^verbatim>\<open>persist\<close>, \<^verbatim>\<open>readPersist\<close>, \<^verbatim>\<open>Make\<close>; the invariant of a server.
  \<^item> \<open>Raft_Election\<close>: \<^verbatim>\<open>RequestVote\<close>, \<^verbatim>\<open>Heartbeat\<close>, \<^verbatim>\<open>StartElection\<close>, \<^verbatim>\<open>StartHeartbeat\<close>, \<^verbatim>\<open>life\<close>.
  \<^item> \<open>Raft_Replication\<close>: \<^verbatim>\<open>AppendEntries\<close>, \<^verbatim>\<open>syncLocked\<close>, \<^verbatim>\<open>replicateTo\<close>, \<^verbatim>\<open>tryAdvanceCommitLocked\<close>, \<^verbatim>\<open>applier\<close>, \<^verbatim>\<open>Start\<close>.
  \<^item> \<open>Raft_Cluster\<close>: servers and calls in flight; every critical section is an event. No event panics,
    and every server keeps its invariant.
  \<^item> \<open>Raft_Safety\<close>: election safety, and \<open>Raft_Matching\<close>: the matching of logs, both for runs in which the
    reply of a call is handled before its sender changes its term. Without this condition the
    program elects two leaders of one term, because of two errors in the handling of stale replies.
  \<^item> \<open>Raft_Moves\<close>: the events of the cluster as nine kinds of moves, for runs in which also no request
    reaches a follower that holds later entries of the same leader. \<open>Raft_Choosable\<close>: the entries that
    can be committed and the invariant about them. \<open>Raft_Commit\<close>: every move keeps it, so committed
    entries are in the logs of all later leaders, and all servers apply the same commands at the
    same indices. Without the condition a delayed request removes committed entries and two
    servers apply different commands.
  \<^item> \<open>Raft_Converge\<close>: the loop of \<^verbatim>\<open>replicateTo\<close> against one follower, with calls that may fail. The outcomes
    of its calls are a list; more of them than the next index of the peer are enough.
  \<^item> \<open>Raft_Properties\<close>: the properties, with their witnesses. Three of them state for all states what
    the errors above do: a vote is given twice in a term, votes of earlier elections are counted,
    and a repeated request truncates; runs show what this leads to.

  \<^bold>\<open>The network and the tester of Raft\<close> (\<^verbatim>\<open>labrpc.go\<close>, \<^verbatim>\<open>config.go\<close>).
  \<^item> \<open>Labrpc\<close>: ends, servers, services, and the processing of a request, with the panics of reflection, gob
    and handlers. \<open>Labrpc_Net\<close>: calls in flight with their goroutines; every step refines a step of an
    abstract remote procedure call, and a deleted server answers no call.
  \<^item> \<open>Raft_Harness\<close>: the configuration of the tester with its operations and checks. \<open>Harness_Topology\<close>: the
    network it maintains reaches a server exactly when both sides are connected, and a restarted
    server has the state of the one it replaces. \<open>Harness_Checks\<close>: what the checks of the tester
    establish about the servers. The time limits of the checks are numbers of rounds, or the lists
    of states seen until the time is over, so that every outcome of the source occurs.

  \<^bold>\<open>Gossip.\<close>
  \<^item> \<open>Gossip_Store\<close>: the rumors of a node, with the locale \<open>once_queue\<close> for what is handed out exactly once.
  \<^item> \<open>Gossip_Node\<close>: the handlers of a node and of its HTTP server. \<open>Gossip_Net\<close>: a network of nodes with
    loss, delay and repetition; every rumor goes back to an injection along as many links as it
    lost time to live, every rumor is delivered once, and anti-entropy never transfers one.
  \<^item> \<open>Gossip_Daemon\<close>: the UDP transport, the loops, closing and \<^verbatim>\<open>main\<close>. Daemons that exchange bytes refine the
    network of nodes, so the properties of the network are properties of the daemons.

  \<^bold>\<open>MapReduce.\<close>
  \<^item> \<open>MR_Files\<close>: names, the hash and the file system. \<open>MR_Tasks\<close>: \<^verbatim>\<open>doMap\<close>, \<^verbatim>\<open>doReduce\<close>, \<^verbatim>\<open>merge\<close>, \<^verbatim>\<open>CleanupFiles\<close>.
  \<^item> \<open>MR_Job\<close>: the master, \<^verbatim>\<open>run\<close> and \<^verbatim>\<open>Sequential\<close>; a job computes the grouped reduction of all pairs.
  \<^item> \<open>MR_Schedule\<close>: \<^verbatim>\<open>schedule\<close> with a goroutine per task, workers that fail at any point of a task, and
    workers that register at any time. \<open>MR_Master\<close>: the server of the master, \<^verbatim>\<open>Distributed\<close>, which gives the result of
    \<^verbatim>\<open>Sequential\<close>, and the life of a worker.
  \<^item> \<open>MR_Apps\<close>: word count and inverted index. \<open>MR_Mains\<close>: their command lines; a sequential and a
    distributed master write the same output.

  \<^bold>\<open>Programs of other labs\<close> (\<^verbatim>\<open>src/src/main\<close>).
  \<^item> \<open>Lab_Mains\<close>: \<^verbatim>\<open>diskvd\<close>, \<^verbatim>\<open>lockc\<close>, \<^verbatim>\<open>lockd\<close>, \<^verbatim>\<open>pbc\<close>, \<^verbatim>\<open>pbd\<close> and \<^verbatim>\<open>viewd\<close> around packages that the repository does not
    contain, whose functions are arguments; the loop over the options of \<^verbatim>\<open>diskvd\<close> is compared with
    a reference and reads back what is written for it.

  \<^bold>\<open>Not modelled.\<close> Logging (\<^verbatim>\<open>DPrintf\<close>, \<^verbatim>\<open>debug\<close>, \<^verbatim>\<open>say\<close>); the encodings gob and JSON, sockets and \<^verbatim>\<open>net/rpc\<close>, which are
  arguments of the definitions that use them; the durations of sleeps and timeouts, in place of
  which any order of events is possible; reflection beyond the shape of a method and the types it
  takes; integers of 64 bits where terms, indices and counts of things in memory would overflow;
  characters above code 255; errors of gob that the source ignores; \<^verbatim>\<open>HelloWorld\<close>. Operations of a gossip
  node are single steps although only the methods of its store hold a lock, and \<^verbatim>\<open>nCommitted\<close> of the
  tester reads the records of all servers in one step. A failed call of the MapReduce master does a
  part of its task and nothing later, as the source sets no timeout. The properties of MapReduce
  jobs start from a disk without intermediate files of the job, because a file left by an earlier
  job would be read again. That runs of Raft make progress under timing assumptions is not stated:
  it depends on the durations that are left out.
\<close>

end
